(* ===== verification/Prelude.thy ===== *)
theory Prelude
  imports Complex_Main "HOL-Library.Word" "HOL-Library.Monad_Syntax"
begin

text \<open>
  Shared vocabulary of the development: the machine integer types of \<open>types_define.h\<close>,
  the outcome of running C code that can touch memory it does not own or loop for ever, the
  few functions of the C string library the sources call, arrays indexed by machine words,
  and the interfaces (locales) that several components provide or use.
\<close>

unbundle bit_operations_syntax

named_theorems c_simps \<open>unfolding of the C library functions and of outcomes\<close>

section \<open>Machine integers of types-define.h\<close>

type_synonym u8_t = "8 word"
type_synonym u16_t = "16 word"
type_synonym u32_t = "32 word"
type_synonym s8_t = "8 word"
type_synonym s16_t = "16 word"
type_synonym s32_t = "32 word"

definition SOCKET_ALLOC_MAX_CLIENT :: int where
  "SOCKET_ALLOC_MAX_CLIENT = 20480"

definition BUF_SIZE :: nat where
  "BUF_SIZE = 256"

section \<open>Outcomes\<close>

text \<open>
  \<open>Done x\<close>: the code returns \<open>x\<close>.  \<open>Fault\<close>: it dereferences a null pointer or accesses
  memory outside the object it works on.  \<open>OutOfFuel\<close>: the loop has not finished within the
  given number of iterations; a loop that is \<open>OutOfFuel\<close> for every bound never returns.
  \<open>Blocked\<close>: the calling thread waits for a mutex that its holder will not release.
\<close>

datatype 'a run = Done 'a | Fault | OutOfFuel | Blocked

fun run_bind :: "'a run \<Rightarrow> ('a \<Rightarrow> 'b run) \<Rightarrow> 'b run" where
  "run_bind (Done x) f = f x"
| "run_bind Fault f = Fault"
| "run_bind OutOfFuel f = OutOfFuel"
| "run_bind Blocked f = Blocked"

lemma run_bind_OutOfFuel_iff [simp]:
  "run_bind m f = OutOfFuel \<longleftrightarrow> m = OutOfFuel \<or> (\<exists>x. m = Done x \<and> f x = OutOfFuel)"
  by (cases m) auto

lemma run_bind_Done_iff [simp]:
  "run_bind m f = Done y \<longleftrightarrow> (\<exists>x. m = Done x \<and> f x = Done y)"
  by (cases m) auto

definition run_of_option :: "'a option \<Rightarrow> 'a run" where
  "run_of_option x = (case x of None \<Rightarrow> Fault | Some y \<Rightarrow> Done y)"

lemma run_of_option_simps [simp]:
  "run_of_option None = Fault" "run_of_option (Some x) = Done x"
  by (simp_all add: run_of_option_def)

section \<open>C strings\<close>

text \<open>
  An object is the list of its bytes; a string pointer into it is the list of the bytes from
  there to the end of the object.  \<open>None\<close> is a scan that leaves the object.
\<close>

fun strlen :: "u8_t list \<Rightarrow> nat option" where
  "strlen [] = None"
| "strlen (c # cs) = (if c = 0 then Some 0 else map_option Suc (strlen cs))"

fun strstr :: "u8_t list \<Rightarrow> u8_t list \<Rightarrow> nat option option" where
  "strstr [] needle = (if needle = [] then Some (Some 0) else None)"
| "strstr (c # cs) needle =
     (if take (length needle) (c # cs) = needle then Some (Some 0)
      else if c = 0 then Some None
      else map_option (map_option Suc) (strstr cs needle))"

text \<open>The text of a string: the bytes before the terminator.\<close>

definition cstr :: "u8_t list \<Rightarrow> u8_t list" where
  "cstr m = takeWhile (\<lambda>c. c \<noteq> 0) m"

lemma strlen_Some_iff: "strlen m = Some n \<longleftrightarrow> n < length m \<and> m ! n = 0 \<and> 0 \<notin> set (take n m)"
proof (induction m arbitrary: n)
  case Nil
  then show ?case by simp
next
  case (Cons c cs)
  then show ?case by (cases n) auto
qed

lemma strlen_text [simp]: "0 \<notin> set t \<Longrightarrow> strlen (t @ 0 # rest) = Some (length t)"
  by (induction t) auto

lemma strlen_cstr: "strlen m = Some n \<Longrightarrow> cstr m = take n m \<and> length (cstr m) = n"
  by (induction m arbitrary: n) (auto simp: cstr_def split: if_splits)

lemma cstr_text [simp]: "0 \<notin> set t \<Longrightarrow> cstr (t @ 0 # rest) = t"
  by (induction t) (auto simp: cstr_def)

lemma strlen_None_iff: "strlen m = None \<longleftrightarrow> 0 \<notin> set m"
  by (induction m) auto

lemma strstr_at_start: "take (length needle) m = needle \<Longrightarrow> m \<noteq> [] \<Longrightarrow> strstr m needle = Some (Some 0)"
  by (cases m) auto

lemma strstr_found_bounds:
  "strstr m needle = Some (Some k) \<Longrightarrow>
     take (length needle) (drop k m) = needle \<and> k + length needle \<le> length m"
proof (induction m arbitrary: k)
  case Nil
  then show ?case by (simp split: if_splits)
next
  case (Cons c cs)
  show ?case
  proof (cases "take (length needle) (c # cs) = needle")
    case True
    with Cons.prems have "k = 0" by simp
    moreover from True have "length needle \<le> length (c # cs)"
      by (metis length_take min.cobounded1)
    ultimately show ?thesis using True by simp
  next
    case False
    with Cons.prems obtain j where "k = Suc j" and "strstr cs needle = Some (Some j)"
      by (auto split: if_splits)
    with Cons.IH show ?thesis by fastforce
  qed
qed

text \<open>A needle that occurs before the first terminator is found.\<close>

lemma strstr_finds:
  assumes "0 \<notin> set pre"
  shows "\<exists>k \<le> length pre. strstr (pre @ needle @ rest) needle = Some (Some k)"
  using assms
proof (induction pre)
  case Nil
  show ?case
  proof (cases "needle @ rest = []")
    case False
    then show ?thesis using strstr_at_start [of needle "needle @ rest"] by simp
  qed simp
next
  case (Cons c cs)
  then obtain k where "k \<le> length cs" "strstr (cs @ needle @ rest) needle = Some (Some k)"
    by auto
  with Cons.prems show ?case by (auto intro!: exI [of _ "Suc k"])
qed

section \<open>Words as indices\<close>

lemma unat_word8_lt [simp]: "unat (w :: u8_t) < 256"
  using unsigned_less [of w, where ?'a = nat] by simp

lemma unat_word8_le [simp]: "unat (w :: u8_t) \<le> 255"
  using unat_word8_lt [of w] by linarith

lemma unat_plus_small8: "unat w + n < 256 \<Longrightarrow> unat (w + of_nat n :: u8_t) = unat w + n"
  by (simp add: unat_word_ariths unat_of_nat)

section \<open>Linked chains\<close>

text \<open>\<open>chain f p xs\<close>: following the links \<open>f\<close> from \<open>p\<close> visits \<open>xs\<close> and ends in NULL.\<close>

fun chain :: "('a \<Rightarrow> 'a option) \<Rightarrow> 'a option \<Rightarrow> 'a list \<Rightarrow> bool" where
  "chain f p [] \<longleftrightarrow> p = None"
| "chain f p (x # xs) \<longleftrightarrow> p = Some x \<and> chain f (f x) xs"

lemma chain_upd [simp]: "a \<notin> set xs \<Longrightarrow> chain (f(a := v)) p xs = chain f p xs"
  by (induction xs arbitrary: p) auto

lemma chain_None [simp]: "chain f None xs \<longleftrightarrow> xs = []"
  by (cases xs) auto

lemma chain_Some: "chain f (Some a) xs \<longleftrightarrow> (\<exists>ys. xs = a # ys \<and> chain f (f a) ys)"
  by (cases xs) auto

lemma chain_functional: "chain f p xs \<Longrightarrow> chain f p ys \<Longrightarrow> xs = ys"
proof (induction xs arbitrary: p ys)
  case (Cons x xs)
  then show ?case by (cases ys) auto
qed simp

lemma chain_cong: "(\<And>x. x \<in> set xs \<Longrightarrow> f x = g x) \<Longrightarrow> chain f p xs = chain g p xs"
  by (induction xs arbitrary: p) auto

lemma chain_split:
  "chain f p (xs @ y # ys) \<Longrightarrow> chain f (f y) ys \<and> (xs = [] \<longrightarrow> p = Some y)"
  by (induction xs arbitrary: p) auto

section \<open>Interfaces\<close>

text \<open>
  A first-in first-out queue as its clients use it: \<open>seq q\<close> is the list of the queued
  elements, oldest first, \<open>fits x q\<close> says when \<open>x\<close> may be added.  The message queue of
  \<open>OBD_mq.h\<close> and the task ring of \<open>threadpool.c\<close> both provide it.
\<close>

locale fifo_queue =
  fixes ok :: "'q \<Rightarrow> bool"
    and seq :: "'q \<Rightarrow> 'a list"
    and fits :: "'a \<Rightarrow> 'q \<Rightarrow> bool"
    and enq :: "'a \<Rightarrow> 'q \<Rightarrow> 'q"
    and deq :: "'q \<Rightarrow> 'a \<times> 'q"
  assumes enq_ok: "ok q \<Longrightarrow> fits x q \<Longrightarrow> ok (enq x q)"
    and enq_seq: "ok q \<Longrightarrow> fits x q \<Longrightarrow> seq (enq x q) = seq q @ [x]"
    and deq_ok: "ok q \<Longrightarrow> seq q \<noteq> [] \<Longrightarrow> ok (snd (deq q))"
    and deq_fst: "ok q \<Longrightarrow> seq q \<noteq> [] \<Longrightarrow> fst (deq q) = hd (seq q)"
    and deq_seq: "ok q \<Longrightarrow> seq q \<noteq> [] \<Longrightarrow> seq (snd (deq q)) = tl (seq q)"
begin

fun drain :: "nat \<Rightarrow> 'q \<Rightarrow> 'a list \<times> 'q" where
  "drain 0 q = ([], q)"
| "drain (Suc n) q = (let (x, q') = deq q; (xs, q'') = drain n q' in (x # xs, q''))"

lemma drain_takes_in_order:
  "ok q \<Longrightarrow> n \<le> length (seq q) \<Longrightarrow>
     ok (snd (drain n q)) \<and> fst (drain n q) = take n (seq q) \<and> seq (snd (drain n q)) = drop n (seq q)"
proof (induction n arbitrary: q)
  case 0
  then show ?case by simp
next
  case (Suc n)
  then have ne: "seq q \<noteq> []" by auto
  let ?q = "snd (deq q)"
  have "ok ?q" "n \<le> length (seq ?q)"
    using Suc.prems ne deq_ok deq_seq by auto
  note ih = Suc.IH [OF this]
  have "take (Suc n) (seq q) = hd (seq q) # take n (tl (seq q))"
       "drop (Suc n) (seq q) = drop n (tl (seq q))"
    using ne by (cases "seq q"; simp)+
  with ih show ?case
    using deq_fst [OF Suc.prems(1) ne] deq_seq [OF Suc.prems(1) ne]
    by (simp add: case_prod_unfold Let_def)
qed

lemma deq_after_enq:
  assumes "ok q" "fits x q"
  shows "fst (deq (enq x q)) = hd (seq q @ [x])"
    and "seq (snd (deq (enq x q))) = tl (seq q @ [x])"
  using assms deq_fst deq_seq enq_ok enq_seq by simp_all

end

end
