(* ===== verification/StringOps.thy ===== *)
theory StringOps
  imports Prelude
begin

text \<open>
  \<open>string_ops.h\<close>: the conversion of the ASCII hex digits the terminals send into bytes.
  \<open>char\<close> is the signed 8-bit type of the target, so the range tests are signed; the results are
  \<open>unsigned char\<close>, so they are truncated to 8 bits.
\<close>

section \<open>Translation\<close>

definition asc2hex :: "s8_t \<Rightarrow> u8_t" where
  "asc2hex c =
     (if 65 \<le>s c \<and> c <s 90 then c - 65 + 10
      else if 97 \<le>s c \<and> c <s 122 then c - 97 + 10
      else c - 48)"

definition str2hex :: "s8_t \<Rightarrow> s8_t \<Rightarrow> u8_t" where
  "str2hex m n = (push_bit 4 (asc2hex m) OR asc2hex n)"

definition have_escope :: "u8_t list \<Rightarrow> bool run" where
  "have_escope src =
     (case strstr src [65, 65] of
        None \<Rightarrow> Fault
      | Some (Some _) \<Rightarrow> Done True
      | Some None \<Rightarrow>
          (case strstr src [97, 97] of
             None \<Rightarrow> Fault
           | Some r \<Rightarrow> Done (r \<noteq> None)))"

text \<open>
  \<open>check_source\<close> returns 1 for a null pointer and falls off its end otherwise: the caller
  then reads a value the function never set (\<open>Fault\<close>).
\<close>

definition check_source :: "u8_t list option \<Rightarrow> u8_t run" where
  "check_source src = (case src of None \<Rightarrow> Done 1 | Some _ \<Rightarrow> Fault)"

section \<open>The digits a terminal sends\<close>

text \<open>The specification of the sender: upper- and lower-case hex digits of a nibble.\<close>

definition hex_digit :: "u8_t \<Rightarrow> u8_t" where
  "hex_digit d = (if d < 10 then d + 48 else d + 55)"

definition hex_digit_lower :: "u8_t \<Rightarrow> u8_t" where
  "hex_digit_lower d = (if d < 10 then d + 48 else d + 87)"

definition enc_byte :: "u8_t \<Rightarrow> u8_t list" where
  "enc_byte b = [hex_digit (drop_bit 4 b), hex_digit (b AND 15)]"

section \<open>Lemmas\<close>

text \<open>Nibbles are sixteen cases; a fact about all of them is checked case by case.\<close>

lemma nibble_cases:
  assumes "(d :: u8_t) < 16"
  shows "d \<in> {0, 1, 2, 3, 4, 5, 6, 7, 8, 9, 10, 11, 12, 13, 14, 15}"
proof -
  obtain k :: nat where k: "d = of_nat k" "k < 16"
    using assms by (intro that [of "unat d"]) (simp_all add: word_less_nat_alt)
  then have "k \<in> {0, 1, 2, 3, 4, 5, 6, 7, 8, 9, 10, 11, 12, 13, 14, 15}"
    by (simp only: insert_iff empty_iff) arith
  with k(1) show ?thesis by auto
qed

lemma low_nibble_lt: "(b :: u8_t) AND 15 < 16"
proof -
  have "b AND 15 = take_bit 4 b" by (simp add: take_bit_eq_mask mask_eq_exp_minus_1)
  then show ?thesis by (simp add: word_less_nat_alt unsigned_take_bit_eq take_bit_nat_def)
qed

lemma high_nibble_lt: "drop_bit 4 (b :: u8_t) < 16"
  using unat_word8_lt [of b]
  by (simp add: word_less_nat_alt unat_drop_bit_eq drop_bit_nat_def less_mult_imp_div_less
      del: unat_word8_lt)

lemma nibbles_join: "push_bit 4 (drop_bit 4 b) OR (b AND 15) = (b :: u8_t)"
proof -
  have "b AND 15 = take_bit 4 b" by (simp add: take_bit_eq_mask mask_eq_exp_minus_1)
  then show ?thesis by (auto intro!: bit_word_eqI simp: bit_simps)
qed

lemma asc2hex_hex_digit [simp]: "d < 16 \<Longrightarrow> asc2hex (hex_digit d) = d"
  by (drule nibble_cases) (auto simp: asc2hex_def hex_digit_def word_sle_eq word_sless_alt)

lemma asc2hex_hex_digit_lower [simp]: "d < 16 \<Longrightarrow> asc2hex (hex_digit_lower d) = d"
  by (drule nibble_cases) (auto simp: asc2hex_def hex_digit_lower_def word_sle_eq word_sless_alt)

lemma str2hex_enc: "str2hex (hex_digit (drop_bit 4 b)) (hex_digit (b AND 15)) = b"
  by (simp add: str2hex_def high_nibble_lt low_nibble_lt nibbles_join)

lemma hex_digit_nonzero [simp]: "d < 16 \<Longrightarrow> hex_digit d \<noteq> 0"
  by (drule nibble_cases) (auto simp: hex_digit_def)

lemma enc_byte_nonzero: "0 \<notin> set (enc_byte b)"
  using hex_digit_nonzero [OF high_nibble_lt [of b]] hex_digit_nonzero [OF low_nibble_lt [of b]]
  by (auto simp: enc_byte_def simp del: hex_digit_nonzero)

end
