(* ===== verification/ObdStructs.thy ===== *)
theory ObdStructs
  imports Prelude
begin

text \<open>
  \<open>OBD_structs_new.h\<close>: the C structs that the decoder lays over the bytes of a message
  (\<open>(cmd02_t*)obd->hex\<close>).  A struct is its list of fields in the order of the source; size,
  alignment and offsets follow the layout rules of the target ABI (natural alignment, 8-byte
  pointers).  What the overlay relies on is proved from the rules: a struct of bytes has no
  padding, so its fields are consecutive slices of the message; a struct with a pointer in it
  has not.
\<close>

section \<open>Layout of C types\<close>

datatype ctype = U8 | S8 | Ptr | Arr ctype nat | CStruct fields
  and fields = FNil | FCons string ctype fields

fun fields_of :: "(string \<times> ctype) list \<Rightarrow> fields" where
  "fields_of [] = FNil"
| "fields_of ((n, t) # fs) = FCons n t (fields_of fs)"

definition struct :: "(string \<times> ctype) list \<Rightarrow> ctype" where
  "struct fs = CStruct (fields_of fs)"

definition align_up :: "nat \<Rightarrow> nat \<Rightarrow> nat" where
  "align_up x a = (x + a - 1) div a * a"

fun calign :: "ctype \<Rightarrow> nat" and falign :: "fields \<Rightarrow> nat" where
  "calign U8 = 1"
| "calign S8 = 1"
| "calign Ptr = 8"
| "calign (Arr t n) = calign t"
| "calign (CStruct fs) = falign fs"
| "falign FNil = 1"
| "falign (FCons n t fs) = max (calign t) (falign fs)"

fun csizeof :: "ctype \<Rightarrow> nat" and fend :: "nat \<Rightarrow> fields \<Rightarrow> nat" where
  "csizeof U8 = 1"
| "csizeof S8 = 1"
| "csizeof Ptr = 8"
| "csizeof (Arr t n) = n * csizeof t"
| "csizeof (CStruct fs) = align_up (fend 0 fs) (falign fs)"
| "fend off FNil = off"
| "fend off (FCons n t fs) = fend (align_up off (calign t) + csizeof t) fs"

fun offset_in :: "nat \<Rightarrow> fields \<Rightarrow> string \<Rightarrow> (nat \<times> ctype) option" where
  "offset_in off FNil x = None"
| "offset_in off (FCons n t fs) x =
     (let o' = align_up off (calign t)
      in if n = x then Some (o', t) else offset_in (o' + csizeof t) fs x)"

text \<open>\<open>offsetof (t, a.b.c)\<close> with the type found there.\<close>

fun offsetof :: "ctype \<Rightarrow> string list \<Rightarrow> (nat \<times> ctype) option" where
  "offsetof t [] = Some (0, t)"
| "offsetof (CStruct fs) (x # xs) =
     (case offset_in 0 fs x of None \<Rightarrow> None
      | Some (o1, t) \<Rightarrow> (case offsetof t xs of None \<Rightarrow> None | Some (o2, u) \<Rightarrow> Some (o1 + o2, u)))"
| "offsetof _ (x # xs) = None"

text \<open>Reading every field of a struct through a pointer to the first byte of \<open>m\<close>.\<close>

fun field_slices :: "nat \<Rightarrow> fields \<Rightarrow> u8_t list \<Rightarrow> (string \<times> u8_t list) list" where
  "field_slices off FNil m = []"
| "field_slices off (FCons n t fs) m =
     (let o' = align_up off (calign t)
      in (n, take (csizeof t) (drop o' m)) # field_slices (o' + csizeof t) fs m)"

text \<open>The types without pointers: every leaf is a byte.\<close>

fun byte_only :: "ctype \<Rightarrow> bool" and byte_fields :: "fields \<Rightarrow> bool" where
  "byte_only U8 = True"
| "byte_only S8 = True"
| "byte_only Ptr = False"
| "byte_only (Arr t n) = byte_only t"
| "byte_only (CStruct fs) = byte_fields fs"
| "byte_fields FNil = True"
| "byte_fields (FCons n t fs) = (byte_only t \<and> byte_fields fs)"

section \<open>The structs of the protocol\<close>

definition head_t :: ctype where
  "head_t = struct
    [(''head'', U8), (''cmd'', U8), (''id'', Arr U8 4)]"

definition head_no_id_t :: ctype where
  "head_no_id_t = struct
    [(''head'', U8), (''cmd'', U8)]"

definition end_t :: ctype where
  "end_t = struct
    [(''checksum'', U8), (''end'', U8)]"

definition cmd_t :: ctype where
  "cmd_t = struct
    [(''head'', head_t), (''end'', end_t)]"

definition response_t :: ctype where
  "response_t = struct
    [(''head'', head_t), (''end'', end_t)]"

definition cmd00_t :: ctype where
  "cmd00_t = struct
    [(''head'', head_no_id_t), (''mcuid'', Arr U8 12), (''imei'', Arr U8 15), (''vin'', Arr
     U8 17), (''iccid'', Arr U8 20), (''imsi'', Arr U8 15), (''hw_version'', Arr U8 2),
     (''sw_version'', Arr U8 2), (''car_type_code'', Arr U8 2), (''end'', end_t)]"

definition response00_t :: ctype where
  "response00_t = struct
    [(''head'', head_no_id_t), (''id'', Arr U8 4), (''ip'', Ptr), (''end'', end_t)]"

definition cmd01_t :: ctype where
  "cmd01_t = struct
    [(''head'', head_t), (''end'', end_t)]"

definition response01_t :: ctype where
  "response01_t = struct
    [(''head'', head_t), (''time'', Arr U8 6), (''end'', end_t)]"

definition cmd02_t :: ctype where
  "cmd02_t = struct
    [(''head'', head_t), (''seed'', Arr U8 4), (''end'', end_t)]"

definition response02_t :: ctype where
  "response02_t = struct
    [(''head'', head_t), (''private_key'', Arr U8 4), (''end'', end_t)]"

definition cmd10_t :: ctype where
  "cmd10_t = struct
    [(''head'', head_t), (''frame_mark'', Arr U8 4), (''param_id'', U8), (''param'', Ptr),
     (''end'', end_t)]"

definition response10_t :: ctype where
  "response10_t = struct
    [(''head'', head_t), (''frame_mark'', Arr U8 4), (''param_id'', U8), (''param'', Ptr),
     (''end'', U8)]"

definition cmd13_t :: ctype where
  "cmd13_t = struct
    [(''head'', head_t), (''end'', end_t)]"

definition response13_t :: ctype where
  "response13_t = struct
    [(''head'', head_t), (''mcuid'', Arr U8 12), (''end'', end_t)]"

definition cmd14_t :: ctype where
  "cmd14_t = struct
    [(''head'', head_t), (''end'', end_t)]"

definition response14_t :: ctype where
  "response14_t = struct
    [(''head'', head_t), (''status'', U8), (''vin'', Arr U8 17), (''end'', end_t)]"

definition cmd15_t :: ctype where
  "cmd15_t = struct
    [(''head'', head_t), (''end'', end_t)]"

definition response15_t :: ctype where
  "response15_t = struct
    [(''head'', head_t), (''protocol_algo'', U8), (''oil_algo'', U8), (''end'', end_t)]"

definition cmd16_t :: ctype where
  "cmd16_t = struct
    [(''head'', head_t), (''end'', end_t)]"

definition response16_t :: ctype where
  "response16_t = struct
    [(''head'', head_t), (''end'', end_t)]"

definition cmd17_t :: ctype where
  "cmd17_t = struct
    [(''head'', head_t), (''vin'', Arr U8 17), (''end'', end_t)]"

definition response17_t :: ctype where
  "response17_t = struct
    [(''head'', head_t), (''vin'', Arr U8 17), (''end'', end_t)]"

definition cmd18_t :: ctype where
  "cmd18_t = struct
    [(''head'', head_t), (''end'', end_t)]"

definition response18_t :: ctype where
  "response18_t = struct
    [(''head'', head_t), (''hw_version'', Arr U8 2), (''sw_version'', Arr U8 2),
     (''cat_type'', Arr U8 2), (''end'', end_t)]"

definition cmd19_t :: ctype where
  "cmd19_t = struct
    [(''head'', head_t), (''end'', end_t)]"

definition response19_t :: ctype where
  "response19_t = struct
    [(''head'', head_t), (''iccid'', Arr U8 20), (''end'', end_t)]"

definition cmd1a_t :: ctype where
  "cmd1a_t = struct
    [(''head'', head_t), (''end'', end_t)]"

definition response1a_t :: ctype where
  "response1a_t = struct
    [(''head'', head_t), (''imsi'', Arr U8 15), (''end'', end_t)]"

definition cmd1b_t :: ctype where
  "cmd1b_t = struct
    [(''head'', head_t), (''end'', end_t)]"

definition response1b_t :: ctype where
  "response1b_t = struct
    [(''head'', head_t), (''imei'', Arr U8 15), (''end'', end_t)]"

definition cmd22_t :: ctype where
  "cmd22_t = struct
    [(''head'', head_t), (''time'', Arr U8 6), (''id'', Arr U8 2), (''gps_state'', U8),
     (''lat_long'', Arr U8 8), (''speed'', U8), (''direction'', Arr U8 2), (''event_id'',
     U8), (''param'', Ptr), (''end'', end_t)]"

definition response22_t :: ctype where
  "response22_t = struct
    [(''head'', head_t), (''time'', Arr U8 6), (''event_id'', U8), (''end'', end_t)]"

definition cmd21_t :: ctype where
  "cmd21_t = struct
    [(''head'', head_t), (''operator_id'', Arr U8 4), (''operator_password'', Arr U8 4),
     (''action_id'', Arr U8 2), (''action_type'', U8), (''end'', end_t)]"

definition response21_t :: ctype where
  "response21_t = struct
    [(''head'', head_t), (''operator_id'', Arr U8 4), (''operator_password'', Arr U8 4),
     (''action_id'', Arr U8 2), (''action_type'', U8), (''result'', U8), (''end'', end_t)]"

definition cmd30_t :: ctype where
  "cmd30_t = struct
    [(''head'', head_t), (''group_id'', U8), (''end'', end_t)]"

definition response30_t :: ctype where
  "response30_t = struct
    [(''head'', head_t), (''time'', Arr U8 6), (''trip_id'', Arr U8 2), (''group_id'', U8),
     (''oil_quantity'', Arr U8 2), (''idling_oil'', Arr U8 2), (''mileage_quantity'', Arr
     U8 2), (''high_speed'', U8), (''travel_time'', Arr U8 4), (''hot_cat_time'', Arr U8
     4), (''trip_low_21km'', Arr U8 2), (''trip_low_41km'', Arr U8 2), (''trip_low_61km'',
     Arr U8 2), (''trip_low_91km'', Arr U8 2), (''trip_other'', Arr U8 2), (''trip_score'',
     U8), (''dashboard_trip'', Arr U8 4), (''end'', end_t)]"

definition cmd34_t :: ctype where
  "cmd34_t = struct
    [(''head'', head_t), (''clild_cmd'', U8), (''group_id'', U8), (''auto_upload_count'',
     U8), (''auto_upload_interval'', U8), (''end'', end_t)]"

definition response34_t :: ctype where
  "response34_t = struct
    [(''head'', head_t), (''child_cmd'', U8), (''group_id'', U8), (''auto_upload_count'',
     U8), (''auto_upload_interval'', U8), (''end'', end_t)]"

definition cmd42_t :: ctype where
  "cmd42_t = struct
    [(''head'', head_t), (''group_id'', U8), (''auto_upload_count'', U8),
     (''auto_upload_interval'', U8), (''param_count'', U8), (''param_id'', Arr Ptr 2),
     (''end'', end_t)]"

definition param42_t :: ctype where
  "param42_t = struct
    [(''id'', Arr U8 2), (''support'', U8), (''data'', Ptr)]"

definition response42_t :: ctype where
  "response42_t = struct
    [(''head'', head_t), (''time'', Arr U8 6), (''group_id'', U8), (''param_count'', U8),
     (''param'', Ptr), (''end'', end_t)]"

definition cmd43_t :: ctype where
  "cmd43_t = struct
    [(''head'', head_t), (''group_id'', U8), (''end'', end_t)]"

definition response43_t :: ctype where
  "response43_t = struct
    [(''head'', head_t), (''group_id'', U8), (''checksum'', U8), (''end'', end_t)]"

definition cmd32_t :: ctype where
  "cmd32_t = struct
    [(''head'', head_t), (''trip_id'', Arr U8 2), (''gps_fix'', U8), (''longitude'', Arr U8
     4), (''latitude'', Arr U8 4), (''gps_speed'', U8), (''gps_direction'', Arr U8 2),
     (''engine_speed'', Arr U8 2), (''obd_speed'', Arr U8 2), (''gyro_direction'', Arr U8
     2), (''end'', end_t)]"

definition bstation_info_t :: ctype where
  "bstation_info_t = struct
    [(''area_number'', Arr U8 2), (''tower_number'', Arr U8 2), (''singal_intensity'', S8)]"

definition cmd33_t :: ctype where
  "cmd33_t = struct
    [(''head'', head_t), (''trip_id'', Arr U8 2), (''country_number'', Arr U8 2),
     (''carrieroperator_number'', Arr U8 2), (''base_station_count'', U8),
     (''station_info'', Arr bstation_info_t 6), (''engine_speed'', Arr U8 2),
     (''obd_speed'', Arr U8 2), (''gyro_direction'', Arr U8 2), (''end'', end_t)]"

definition response33_t :: ctype where
  "response33_t = struct
    [(''head'', head_t), (''longitude'', Arr U8 4), (''latitude'', Arr U8 4), (''end'',
     end_t)]"

definition cmd50_t :: ctype where
  "cmd50_t = struct
    [(''head'', head_t), (''child_cmd'', U8), (''cmd_param'', U8), (''end'', end_t)]"

definition response50_t :: ctype where
  "response50_t = struct
    [(''head'', head_t), (''time'', Arr U8 6), (''child_cmd'', U8), (''cmd_param'', U8),
     (''fault_number'', Ptr), (''end'', end_t)]"

definition cmd07_00_t :: ctype where
  "cmd07_00_t = struct
    [(''head'', head_t), (''child_cmd'', U8), (''firmware_lens'', Arr U8 4),
     (''firmware_crc32'', Arr U8 4), (''end'', end_t)]"

definition response07_00_t :: ctype where
  "response07_00_t = struct
    [(''head'', head_t), (''child_cmd'', U8), (''cmd_param'', U8), (''end'', end_t)]"

definition cmd07_01_t :: ctype where
  "cmd07_01_t = struct
    [(''head'', head_t), (''child_cmd'', U8), (''data_lens'', Arr U8 2), (''data_address'',
     Arr U8 4), (''data'', Ptr), (''end'', end_t)]"

definition response07_01_t :: ctype where
  "response07_01_t = struct
    [(''head'', head_t), (''child_cmd'', U8), (''cmd_param'', U8), (''end'', end_t)]"

definition cmd07_02_t :: ctype where
  "cmd07_02_t = struct
    [(''head'', head_t), (''child_cmd'', U8), (''end'', end_t)]"

definition response07_02_t :: ctype where
  "response07_02_t = struct
    [(''head'', head_t), (''child_cmd'', U8), (''cmd_param'', U8), (''end'', end_t)]"

definition cmd08_00_t :: ctype where
  "cmd08_00_t = struct
    [(''head'', head_t), (''child_cmd'', U8), (''longitude'', Arr U8 4), (''latitude'', Arr
     U8 4), (''altitude'', Arr U8 4), (''end'', end_t)]"

definition cmd08_ff_t :: ctype where
  "cmd08_ff_t = struct
    [(''head'', head_t), (''child_id'', U8), (''country_number'', Arr U8 2),
     (''carrieroperator_number'', U8), (''station_info'', Arr bstation_info_t 6), (''end'',
     end_t)]"

definition cmd08_01_t :: ctype where
  "cmd08_01_t = struct
    [(''head'', head_t), (''child_cmd'', U8), (''frame_counter'', U8), (''data'', Ptr),
     (''end'', end_t)]"

definition response08_01_t :: ctype where
  "response08_01_t = struct
    [(''head'', head_t), (''child_cmd'', U8), (''cmd_param'', U8), (''end'', end_t)]"

section \<open>Lemmas\<close>

lemma fields_list_induct [case_names FNil FCons]:
  assumes "P FNil" "\<And>n t fs. P fs \<Longrightarrow> P (FCons n t fs)"
  shows "P fs"
  by (rule fields.induct [of "\<lambda>_. True" P]) (simp_all add: assms)

lemma align_up_1 [simp]: "align_up x 1 = x" "align_up x (Suc 0) = x"
  by (simp_all add: align_up_def)

lemma align_up_ge: "0 < a \<Longrightarrow> x \<le> align_up x a"
proof -
  assume a: "0 < a"
  have "x + a - 1 < (x + a - 1) div a * a + a"
    using dividend_less_div_times [OF a, of "x + a - 1"] by (simp add: add.commute)
  then show ?thesis using a by (simp add: align_up_def)
qed

lemma align_up_dvd: "a dvd align_up x a"
  by (simp add: align_up_def)

lemma calign_pos [simp]: "0 < calign t" and falign_pos [simp]: "0 < falign fs"
  by (induction t and fs) auto

lemma byte_align [simp]: "byte_only t \<Longrightarrow> calign t = 1"
  and byte_falign [simp]: "byte_fields fs \<Longrightarrow> falign fs = 1"
  by (induction t and fs) auto

lemma fend_ge: "off \<le> fend off fs"
proof (induction fs arbitrary: off rule: fields_list_induct)
  case (FCons n t fs)
  have "off \<le> align_up off (calign t) + csizeof t"
    using align_up_ge [OF calign_pos, of off t] by simp
  also have "\<dots> \<le> fend (align_up off (calign t) + csizeof t) fs"
    using FCons.IH by blast
  finally show ?case by simp
qed simp

lemma offset_in_bounds:
  "offset_in off fs x = Some (k, t) \<Longrightarrow> off \<le> k \<and> k + csizeof t \<le> fend off fs \<and> calign t dvd k"
proof (induction off fs x rule: offset_in.induct)
  case (2 off n t' fs x)
  show ?case
  proof (cases "n = x")
    case True
    with 2 show ?thesis
      using align_up_ge [OF calign_pos, of off t] fend_ge
      by (auto simp: Let_def align_up_dvd)
  next
    case False
    with 2 have "align_up off (calign t') + csizeof t' \<le> k \<and>
        k + csizeof t \<le> fend (align_up off (calign t') + csizeof t') fs \<and> calign t dvd k"
      by (simp add: Let_def)
    then show ?thesis using align_up_ge [OF calign_pos, of off t'] by fastforce
  qed
qed simp

lemma csizeof_ge_fend: "fend 0 fs \<le> csizeof (CStruct fs)"
  by (simp add: align_up_ge)

lemma offsetof_in_bounds:
  "offsetof t path = Some (k, u) \<Longrightarrow> k + csizeof u \<le> csizeof t"
proof (induction t path arbitrary: k u rule: offsetof.induct)
  case (2 fs x xs)
  then obtain o1 t' o2 where 1: "offset_in 0 fs x = Some (o1, t')"
    and 3: "offsetof t' xs = Some (o2, u)" and k: "k = o1 + o2"
    by (auto split: option.splits prod.splits)
  have "o2 + csizeof u \<le> csizeof t'" using 2(1) [OF 1 _ 3] by simp
  moreover have "o1 + csizeof t' \<le> fend 0 fs" using offset_in_bounds [OF 1] by simp
  ultimately show ?case using k csizeof_ge_fend [of fs] by simp
qed auto

text \<open>A struct of bytes is packed: its fields are consecutive and cover it.\<close>

lemma field_slices_concat:
  "byte_fields fs \<Longrightarrow> concat (map snd (field_slices off fs m)) = take (fend off fs - off) (drop off m)"
proof (induction fs arbitrary: off rule: fields_list_induct)
  case (FCons n t fs)
  obtain d where d: "fend (off + csizeof t) fs = off + csizeof t + d"
    using fend_ge le_Suc_ex by blast
  have "concat (map snd (field_slices off (FCons n t fs) m)) =
      take (csizeof t) (drop off m) @ take (fend (off + csizeof t) fs - (off + csizeof t))
        (drop (off + csizeof t) m)"
    using FCons by (simp add: Let_def)
  also have "\<dots> = take (fend (off + csizeof t) fs - off) (drop off m)"
    using take_add [of "csizeof t" d "drop off m"] by (simp add: d add.commute [of "csizeof t" off])
  finally show ?case using FCons by simp
qed simp

lemma csizeof_bytes: "byte_fields fs \<Longrightarrow> csizeof (CStruct fs) = fend 0 fs"
  by simp

definition wire_structs :: "ctype list" where
  "wire_structs = [head_t, head_no_id_t, end_t, cmd_t, response_t, cmd00_t, cmd01_t, response01_t, cmd02_t,
     response02_t, cmd13_t, response13_t, cmd14_t, response14_t, cmd15_t, response15_t,
     cmd16_t, response16_t, cmd17_t, response17_t, cmd18_t, response18_t, cmd19_t,
     response19_t, cmd1a_t, response1a_t, cmd1b_t, response1b_t, response22_t, cmd21_t,
     response21_t, cmd30_t, response30_t, cmd34_t, response34_t, cmd43_t, response43_t,
     cmd32_t, bstation_info_t, cmd33_t, response33_t, cmd50_t, cmd07_00_t, response07_00_t,
     response07_01_t, cmd07_02_t, response07_02_t, cmd08_00_t, cmd08_ff_t, response08_01_t]"

definition pointer_structs :: "ctype list" where
  "pointer_structs = [response00_t, cmd10_t, response10_t, cmd22_t, cmd42_t, param42_t, response42_t,
     response50_t, cmd07_01_t, cmd08_01_t]"

lemmas struct_defs = head_t_def head_no_id_t_def end_t_def cmd_t_def response_t_def cmd00_t_def
     response00_t_def cmd01_t_def response01_t_def cmd02_t_def response02_t_def cmd10_t_def
     response10_t_def cmd13_t_def response13_t_def cmd14_t_def response14_t_def cmd15_t_def
     response15_t_def cmd16_t_def response16_t_def cmd17_t_def response17_t_def cmd18_t_def
     response18_t_def cmd19_t_def response19_t_def cmd1a_t_def response1a_t_def cmd1b_t_def
     response1b_t_def cmd22_t_def response22_t_def cmd21_t_def response21_t_def cmd30_t_def
     response30_t_def cmd34_t_def response34_t_def cmd42_t_def param42_t_def response42_t_def
     cmd43_t_def response43_t_def cmd32_t_def bstation_info_t_def cmd33_t_def
     response33_t_def cmd50_t_def response50_t_def cmd07_00_t_def response07_00_t_def
     cmd07_01_t_def response07_01_t_def cmd07_02_t_def response07_02_t_def cmd08_00_t_def
     cmd08_ff_t_def cmd08_01_t_def response08_01_t_def struct_def

text \<open>
  Whatever struct the decoder lays over a message, the field it reads lies inside the
  struct: the offset of a (nested) field plus its size never exceeds the size of the struct.
\<close>

theorem overlay_field_inside:
  assumes "offsetof t path = Some (k, u)"
  shows "k + csizeof u \<le> csizeof t"
  using assms by (rule offsetof_in_bounds)

theorem overlay_field_inside_witness:
  "offsetof cmd02_t [''head'', ''id''] = Some (2, Arr U8 4) \<and> 2 + csizeof (Arr U8 4) \<le> csizeof cmd02_t"
proof -
  have h: "offsetof cmd02_t [''head'', ''id''] = Some (2, Arr U8 4)"
    by (simp add: cmd02_t_def head_t_def struct_def Let_def)
  show ?thesis using h overlay_field_inside [OF h] by simp
qed



text \<open>
  The structs that hold a pointer do not overlay a message: each of them has the 8-byte
  alignment of the pointer, so padding shifts every field behind the bytes that precede it.  In
  \<open>cmd22_t\<close> the 27 bytes before the parameter are followed by 5 bytes of padding; the bytes the
  terminal sends there are taken for an address and the checksum is read from offset 40.
\<close>

theorem pointer_structs_padded:
  "list_all (\<lambda>t. \<not> byte_only t \<and> calign t = 8 \<and> 8 dvd csizeof t) pointer_structs
   \<and> offsetof cmd22_t [''event_id''] = Some (26, U8)
   \<and> offsetof cmd22_t [''param''] = Some (32, Ptr)
   \<and> offsetof cmd22_t [''end'', ''checksum''] = Some (40, U8)"
  unfolding pointer_structs_def by (simp add: struct_defs align_up_def Let_def)

end
