(* ===== verification/MemPool.thy ===== *)
theory MemPool
  imports Prelude
begin

text \<open>
  \<open>FULMemoryPool/MemoryPool.h\<close> and \<open>MemoryPool.c\<close>: a pool of blocks of one size.  Blocks given
  back are chained through their first word; a request takes the first block of the chain and
  asks \<open>malloc\<close> when there is none.  The heap records the first word of every block
  (\<open>next_of\<close>, the member \<open>pNext\<close> of the union \<open>Node\<close>), the pool heads and the addresses that
  the system allocator has handed out.  The system allocator itself is the parameter \<open>mal\<close>.
\<close>

section \<open>Translation\<close>

type_synonym addr = nat

record Head_t =
  uBlockSize :: u32_t
  pFirstAvailable :: "addr option"

record mheap =
  next_of :: "addr \<Rightarrow> addr option"
  head_of :: "addr \<Rightarrow> Head_t"
  live :: "addr list"

type_synonym allocator = "nat \<Rightarrow> mheap \<Rightarrow> addr option"

definition sizeof_Node :: nat where
  "sizeof_Node = 8"

definition sizeof_Head :: nat where
  "sizeof_Head = 16"

text \<open>\<open>malloc\<close> and \<open>free\<close> of the C library: freeing a block that is not allocated is undefined.\<close>

definition sys_malloc :: "allocator \<Rightarrow> nat \<Rightarrow> mheap \<Rightarrow> addr option \<times> mheap" where
  "sys_malloc mal n h =
     (case mal n h of None \<Rightarrow> (None, h) | Some a \<Rightarrow> (Some a, h\<lparr>live := a # live h\<rparr>))"

definition sys_free :: "addr \<Rightarrow> mheap \<Rightarrow> mheap run" where
  "sys_free a h = (if a \<in> set (live h) then Done (h\<lparr>live := remove1 a (live h)\<rparr>) else Fault)"

text \<open>\<open>CreateMemoryPool\<close> does not test the result of \<open>malloc\<close>: without memory it writes through NULL.\<close>

definition CreateMemoryPool :: "allocator \<Rightarrow> u32_t \<Rightarrow> mheap \<Rightarrow> (addr \<times> mheap) run" where
  "CreateMemoryPool mal sz h =
     (case sys_malloc mal sizeof_Head h of
        (None, h') \<Rightarrow> Fault
      | (Some p, h') \<Rightarrow>
          Done (p, h'\<lparr>head_of := (head_of h')
             (p := \<lparr>uBlockSize = (if sz > of_nat sizeof_Node then sz else of_nat sizeof_Node),
                    pFirstAvailable = None\<rparr>)\<rparr>))"

fun destroy_loop :: "nat \<Rightarrow> addr option \<Rightarrow> mheap \<Rightarrow> mheap run" where
  "destroy_loop n None h = Done h"
| "destroy_loop 0 (Some a) h = OutOfFuel"
| "destroy_loop (Suc n) (Some a) h =
     (if a \<notin> set (live h) then Fault
      else run_bind (sys_free a h) (\<lambda>h'. destroy_loop n (next_of h a) h'))"

text \<open>The pointer to the pool is set to NULL (the \<open>None\<close> of the result).\<close>

definition DestroyMemoryPool :: "nat \<Rightarrow> addr option \<Rightarrow> mheap \<Rightarrow> (addr option \<times> mheap) run" where
  "DestroyMemoryPool n pPool h =
     (case pPool of None \<Rightarrow> Fault
      | Some p \<Rightarrow>
          run_bind (destroy_loop n (pFirstAvailable (head_of h p)) h)
            (\<lambda>h'. run_bind (sys_free p h') (\<lambda>h''. Done (None, h''))))"

definition Malloc :: "allocator \<Rightarrow> addr option \<Rightarrow> mheap \<Rightarrow> (addr option \<times> mheap) run" where
  "Malloc mal pPool h =
     (case pPool of None \<Rightarrow> Fault
      | Some p \<Rightarrow>
          (case pFirstAvailable (head_of h p) of
             Some a \<Rightarrow>
               Done (Some a, h\<lparr>head_of := (head_of h)
                  (p := (head_of h p)\<lparr>pFirstAvailable := next_of h a\<rparr>)\<rparr>)
           | None \<Rightarrow> Done (sys_malloc mal (unat (uBlockSize (head_of h p))) h)))"

definition Free :: "addr option \<Rightarrow> addr option \<Rightarrow> mheap \<Rightarrow> mheap run" where
  "Free pPool pPtr h =
     (case pPool of
        None \<Rightarrow> (case pPtr of None \<Rightarrow> Done h | Some a \<Rightarrow> sys_free a h)
      | Some p \<Rightarrow>
          (case pPtr of None \<Rightarrow> Fault
           | Some a \<Rightarrow>
               Done (h\<lparr>next_of := (next_of h)(a := pFirstAvailable (head_of h p)),
                       head_of := (head_of h)(p := (head_of h p)\<lparr>pFirstAvailable := Some a\<rparr>)\<rparr>)))"

section \<open>The free chain\<close>

text \<open>
  What the pool promises: \<open>free\<close> blocks are chained without repetition, none of them is held by
  a client, and the blocks and the head of the pool are allocated.
\<close>

definition pool_inv :: "addr \<Rightarrow> addr list \<Rightarrow> addr set \<Rightarrow> mheap \<Rightarrow> bool" where
  "pool_inv p free held h \<longleftrightarrow>
     chain (next_of h) (pFirstAvailable (head_of h p)) free \<and> distinct free \<and> distinct (live h)
     \<and> set free \<inter> held = {} \<and> set free \<union> held \<subseteq> set (live h) \<and> p \<in> set (live h)
     \<and> p \<notin> set free \<union> held"

text \<open>The documented behaviour of the system allocator: it returns memory not in use.\<close>

definition fresh_malloc :: "allocator \<Rightarrow> bool" where
  "fresh_malloc mal \<longleftrightarrow> (\<forall>n h a. mal n h = Some a \<longrightarrow> a \<notin> set (live h))"

lemma fresh_mallocD: "fresh_malloc mal \<Longrightarrow> mal n h = Some a \<Longrightarrow> a \<notin> set (live h)"
  by (simp add: fresh_malloc_def)

text \<open>An allocator that satisfies it: the first address above all allocated ones.\<close>

definition bump_malloc :: allocator where
  "bump_malloc n h = Some (Suc (fold max (live h) 0))"

lemma fold_max_ge: "x \<in> set xs \<or> x \<le> m \<Longrightarrow> x \<le> fold max xs (m :: nat)"
proof (induction xs arbitrary: m)
  case (Cons y xs)
  then show ?case by (cases "x \<in> set xs") auto
qed simp

lemma fresh_bump_malloc: "fresh_malloc bump_malloc"
  using fold_max_ge [where m = 0] by (fastforce simp: fresh_malloc_def bump_malloc_def)

lemma create_pool_inv:
  assumes "fresh_malloc mal" "distinct (live h)" "CreateMemoryPool mal sz h = Done (p, h')"
  shows "pool_inv p [] {} h' \<and> uBlockSize (head_of h' p) \<ge> 8 \<and> uBlockSize (head_of h' p) \<ge> sz"
  using assms fresh_mallocD
  by (auto simp: CreateMemoryPool_def sys_malloc_def pool_inv_def sizeof_Node_def
      split: option.splits)

lemma malloc_from_chain:
  assumes "pool_inv p (a # free) held h"
  shows "\<exists>h'. Malloc mal (Some p) h = Done (Some a, h') \<and> pool_inv p free (insert a held) h' \<and> live h' = live h"
  using assms by (auto simp: Malloc_def pool_inv_def)

lemma malloc_from_system:
  assumes "fresh_malloc mal" "pool_inv p [] held h"
  shows "Malloc mal (Some p) h = Done (None, h) \<or>
    (\<exists>a h'. Malloc mal (Some p) h = Done (Some a, h') \<and> a \<notin> set (live h) \<and> pool_inv p [] (insert a held) h')"
  using assms fresh_mallocD [OF assms(1)]
  by (fastforce simp: Malloc_def pool_inv_def sys_malloc_def split: option.splits)

lemma free_to_chain:
  assumes "pool_inv p free held h" "a \<in> held"
  shows "\<exists>h'. Free (Some p) (Some a) h = Done h' \<and> pool_inv p (a # free) (held - {a}) h' \<and> live h' = live h"
proof -
  from assms have "a \<notin> set free" by (auto simp: pool_inv_def)
  with assms show ?thesis by (auto simp: Free_def pool_inv_def)
qed

lemma client_write_inv:
  assumes "pool_inv p free held h" "a \<in> held"
  shows "pool_inv p free held (h\<lparr>next_of := (next_of h)(a := v)\<rparr>)"
proof -
  from assms have "a \<notin> set free" by (auto simp: pool_inv_def)
  with assms show ?thesis by (simp add: pool_inv_def)
qed

section \<open>The pool as an allocator: the interface its clients rely on\<close>

text \<open>
  A client of a pool holds blocks: \<open>held s\<close>.  Taking a block gives one the client does not hold
  yet; only a held block may be given back.
\<close>

locale block_pool =
  fixes ok :: "'s \<Rightarrow> bool"
    and held :: "'s \<Rightarrow> addr set"
    and take_block :: "'s \<Rightarrow> (addr option \<times> 's) run"
    and give_block :: "addr \<Rightarrow> 's \<Rightarrow> 's run"
  assumes take_returns: "ok s \<Longrightarrow> \<exists>r s'. take_block s = Done (r, s')"
    and take_none: "ok s \<Longrightarrow> take_block s = Done (None, s') \<Longrightarrow> ok s' \<and> held s' = held s"
    and take_some: "ok s \<Longrightarrow> take_block s = Done (Some a, s') \<Longrightarrow>
          ok s' \<and> a \<notin> held s \<and> held s' = insert a (held s)"
    and give_held: "ok s \<Longrightarrow> a \<in> held s \<Longrightarrow>
          \<exists>s'. give_block a s = Done s' \<and> ok s' \<and> held s' = held s - {a}"
begin

text \<open>Taking \<open>n\<close> blocks, as a client that keeps all of them does.\<close>

fun take_many :: "nat \<Rightarrow> 's \<Rightarrow> (addr list \<times> 's) run" where
  "take_many 0 s = Done ([], s)"
| "take_many (Suc n) s =
     run_bind (take_block s) (\<lambda>(r, s').
       case r of None \<Rightarrow> Done ([], s')
       | Some a \<Rightarrow> run_bind (take_many n s') (\<lambda>(as, s''). Done (a # as, s'')))"

lemma take_many_distinct:
  "ok s \<Longrightarrow> \<exists>as s'. take_many n s = Done (as, s') \<and> ok s' \<and> distinct as
     \<and> set as \<inter> held s = {} \<and> held s' = set as \<union> held s"
proof (induction n arbitrary: s)
  case 0
  then show ?case by simp
next
  case (Suc n)
  obtain r s1 where t: "take_block s = Done (r, s1)"
    using take_returns [OF Suc.prems] by blast
  show ?case
  proof (cases r)
    case None
    then show ?thesis using t take_none [OF Suc.prems] by auto
  next
    case (Some a)
    have a: "ok s1" "a \<notin> held s" "held s1 = insert a (held s)"
      using take_some [OF Suc.prems] t Some by auto
    obtain as s2 where "take_many n s1 = Done (as, s2)" "ok s2" "distinct as"
      "set as \<inter> held s1 = {}" "held s2 = set as \<union> held s1"
      using Suc.IH [OF a(1)] by blast
    then show ?thesis using t Some a by auto
  qed
qed

lemma give_then_take_many:
  assumes "ok s" "a \<in> held s"
  shows "\<exists>s1 as s'. give_block a s = Done s1 \<and> take_many n s1 = Done (as, s') \<and> distinct as
     \<and> set as \<inter> (held s - {a}) = {}"
  using give_held [OF assms] take_many_distinct by metis

end

text \<open>
  The state of a pool with the ghost set of the blocks in the hands of clients.  The ghost
  follows the results of the operations and never influences them.
\<close>

definition pool_ok :: "allocator \<Rightarrow> addr \<Rightarrow> mheap \<times> addr set \<Rightarrow> bool" where
  "pool_ok mal p s \<longleftrightarrow> fresh_malloc mal \<and> (\<exists>free. pool_inv p free (snd s) (fst s))"

definition pool_take :: "allocator \<Rightarrow> addr \<Rightarrow> mheap \<times> addr set \<Rightarrow> (addr option \<times> mheap \<times> addr set) run" where
  "pool_take mal p s =
     run_bind (Malloc mal (Some p) (fst s))
       (\<lambda>(r, h'). Done (r, h', snd s \<union> set_option r))"

definition pool_give :: "addr \<Rightarrow> addr \<Rightarrow> mheap \<times> addr set \<Rightarrow> (mheap \<times> addr set) run" where
  "pool_give p a s = run_bind (Free (Some p) (Some a) (fst s)) (\<lambda>h'. Done (h', snd s - {a}))"

lemma pool_take_cases:
  assumes "pool_ok mal p (h, held)"
  shows "pool_take mal p (h, held) = Done (None, h, held) \<or>
    (\<exists>a h'. pool_take mal p (h, held) = Done (Some a, h', insert a held) \<and> a \<notin> held
       \<and> pool_ok mal p (h', insert a held))"
proof -
  obtain free where m: "fresh_malloc mal" and inv: "pool_inv p free held h"
    using assms by (auto simp: pool_ok_def)
  show ?thesis
  proof (cases free)
    case Nil
    have "Malloc mal (Some p) h = Done (None, h) \<or>
      (\<exists>a h'. Malloc mal (Some p) h = Done (Some a, h') \<and> a \<notin> set (live h) \<and> pool_inv p [] (insert a held) h')"
      using inv Nil by (intro malloc_from_system [OF m]) simp
    moreover have "held \<subseteq> set (live h)" using inv by (auto simp: pool_inv_def)
    ultimately show ?thesis using m by (fastforce simp: pool_take_def pool_ok_def)
  next
    case (Cons a free')
    have "a \<notin> held" using inv Cons by (auto simp: pool_inv_def)
    with malloc_from_chain [of p a free' held h mal] inv Cons m show ?thesis
      by (fastforce simp: pool_take_def pool_ok_def)
  qed
qed

interpretation pool: block_pool "pool_ok mal p" snd "pool_take mal p" "pool_give p" for mal p
proof
  fix s :: "mheap \<times> addr set" assume ok: "pool_ok mal p s"
  note c = pool_take_cases [of mal p "fst s" "snd s"]
  show "\<exists>r s'. pool_take mal p s = Done (r, s')" using c ok by (cases s) fastforce
next
  fix s s' :: "mheap \<times> addr set"
  assume "pool_ok mal p s" "pool_take mal p s = Done (None, s')"
  then show "pool_ok mal p s' \<and> snd s' = snd s"
    using pool_take_cases [of mal p "fst s" "snd s"] by auto
next
  fix s s' :: "mheap \<times> addr set" and a
  assume "pool_ok mal p s" "pool_take mal p s = Done (Some a, s')"
  then show "pool_ok mal p s' \<and> a \<notin> snd s \<and> snd s' = insert a (snd s)"
    using pool_take_cases [of mal p "fst s" "snd s"] by auto
next
  fix s :: "mheap \<times> addr set" and a
  assume "pool_ok mal p s" "a \<in> snd s"
  then show "\<exists>s'. pool_give p a s = Done s' \<and> pool_ok mal p s' \<and> snd s' = snd s - {a}"
    using free_to_chain [of p _ "snd s" "fst s" a] by (fastforce simp: pool_give_def pool_ok_def)
qed

section \<open>Runs of clients that respect the protocol\<close>

inductive pool_step :: "allocator \<Rightarrow> addr \<Rightarrow> mheap \<times> addr set \<Rightarrow> mheap \<times> addr set \<Rightarrow> bool"
  for mal p where
  take: "pool_take mal p s = Done (r, s') \<Longrightarrow> pool_step mal p s s'"
| give: "a \<in> snd s \<Longrightarrow> pool_give p a s = Done s' \<Longrightarrow> pool_step mal p s s'"
| use: "a \<in> held \<Longrightarrow> pool_step mal p (h, held) (h\<lparr>next_of := (next_of h)(a := v)\<rparr>, held)"

lemma pool_step_ok: "pool_step mal p s s' \<Longrightarrow> pool_ok mal p s \<Longrightarrow> pool_ok mal p s'"
proof (induction rule: pool_step.induct)
  case (take s r s')
  then show ?case using pool.take_none pool.take_some by (cases r) blast+
next
  case (give a s s')
  then show ?case using pool.give_held by fastforce
next
  case (use a held h v)
  then show ?case using client_write_inv by (fastforce simp: pool_ok_def)
qed

lemma pool_steps_ok: "(pool_step mal p)\<^sup>*\<^sup>* s s' \<Longrightarrow> pool_ok mal p s \<Longrightarrow> pool_ok mal p s'"
  by (induction rule: rtranclp_induct) (auto intro: pool_step_ok)

lemma created_pool_ok:
  assumes "fresh_malloc mal" "distinct (live h)" "CreateMemoryPool mal sz h = Done (p, h')"
  shows "pool_ok mal p (h', {})"
  using create_pool_inv [OF assms] assms(1) by (auto simp: pool_ok_def)

text \<open>
  C15. The memory pool never hands out a block that a client still holds: after any sequence of
  requests, releases of held blocks and writes into held blocks on a freshly created pool, a
  request returns normally, and the block it returns (if memory is left) is not held by anyone.
\<close>

theorem pool_never_shares:
  assumes "fresh_malloc mal" "distinct (live h0)" "CreateMemoryPool mal sz h0 = Done (p, h)"
    and "(pool_step mal p)\<^sup>*\<^sup>* (h, {}) (h', held)"
  shows "\<exists>r h''. Malloc mal (Some p) h' = Done (r, h'') \<and> (\<forall>a. r = Some a \<longrightarrow> a \<notin> held)"
proof -
  have "pool_ok mal p (h', held)"
    using created_pool_ok [OF assms(1-3)] assms(4) pool_steps_ok by blast
  from pool_take_cases [OF this] show ?thesis
    by (auto simp: pool_take_def dest: sym)
qed

text \<open>A heap with nothing allocated, for the concrete runs below.\<close>

definition empty_heap :: mheap where
  "empty_heap = \<lparr>next_of = (\<lambda>_. None), head_of = (\<lambda>_. \<lparr>uBlockSize = 0, pFirstAvailable = None\<rparr>), live = []\<rparr>"

definition demo_pool :: mheap where
  "demo_pool = empty_heap\<lparr>live := [1], head_of := (head_of empty_heap)
     (1 := \<lparr>uBlockSize = 56, pFirstAvailable = None\<rparr>)\<rparr>"

lemma demo_pool_created: "CreateMemoryPool bump_malloc 56 empty_heap = Done (1, demo_pool)"
  by (simp add: CreateMemoryPool_def sys_malloc_def bump_malloc_def empty_heap_def demo_pool_def
      sizeof_Node_def)

theorem pool_never_shares_witness:
  "\<exists>r h''. Malloc bump_malloc (Some 1) demo_pool = Done (r, h'') \<and> (\<forall>a. r = Some a \<longrightarrow> a \<notin> {})"
  using pool_never_shares [OF fresh_bump_malloc _ demo_pool_created rtranclp.rtrancl_refl]
  by (simp add: empty_heap_def)

section \<open>Destruction\<close>

lemma destroy_loop_frees:
  "chain (next_of h) q xs \<Longrightarrow> distinct xs \<Longrightarrow> distinct (live h) \<Longrightarrow> set xs \<subseteq> set (live h) \<Longrightarrow> length xs \<le> n \<Longrightarrow>
     \<exists>h'. destroy_loop n q h = Done h' \<and> set (live h') = set (live h) - set xs \<and> distinct (live h')
       \<and> next_of h' = next_of h \<and> head_of h' = head_of h"
proof (induction xs arbitrary: n q h)
  case Nil
  then show ?case by simp
next
  case (Cons x xs)
  then obtain m where n: "n = Suc m" by (cases n) auto
  let ?h = "h\<lparr>live := remove1 x (live h)\<rparr>"
  have "\<exists>h'. destroy_loop m (next_of h x) ?h = Done h' \<and> set (live h') = set (live ?h) - set xs
       \<and> distinct (live h') \<and> next_of h' = next_of ?h \<and> head_of h' = head_of ?h"
    using Cons.prems n by (intro Cons.IH) (auto simp: set_remove1_eq)
  then show ?case using Cons.prems n by (auto simp: sys_free_def set_remove1_eq)
qed

text \<open>
  C36. Destroying a pool terminates after one iteration per free block, sets the pointer to the
  pool to NULL, and gives back to the system exactly the free blocks and the head: a block that
  a client has not released stays allocated for ever.
\<close>

theorem destroy_frees_exactly:
  assumes "pool_inv p free held h" "length free \<le> n"
  shows "\<exists>h'. DestroyMemoryPool n (Some p) h = Done (None, h')
      \<and> set (live h') = set (live h) - insert p (set free) \<and> held \<subseteq> set (live h')"
proof -
  have inv: "chain (next_of h) (pFirstAvailable (head_of h p)) free" "distinct free" "distinct (live h)"
    "set free \<subseteq> set (live h)" "p \<in> set (live h)" "p \<notin> set free" "held \<subseteq> set (live h)"
    "set free \<inter> held = {}" "p \<notin> held"
    using assms(1) by (auto simp: pool_inv_def)
  obtain h1 where "destroy_loop n (pFirstAvailable (head_of h p)) h = Done h1"
    "set (live h1) = set (live h) - set free" "distinct (live h1)"
    using destroy_loop_frees [OF inv(1-4) assms(2)] by blast
  with inv show ?thesis
    by (auto simp: DestroyMemoryPool_def sys_free_def set_remove1_eq)
qed

definition demo_used :: mheap where
  "demo_used = \<lparr>next_of = (\<lambda>_. None)(2 := Some 3), head_of = (\<lambda>_. \<lparr>uBlockSize = 56, pFirstAvailable = Some 2\<rparr>),
     live = [4, 3, 2, 1]\<rparr>"

theorem destroy_frees_exactly_witness:
  "\<exists>h'. DestroyMemoryPool 2 (Some 1) demo_used = Done (None, h')
      \<and> set (live h') = set (live demo_used) - insert 1 (set [2, 3]) \<and> {4} \<subseteq> set (live h')"
proof -
  have "pool_inv 1 [2, 3] {4} demo_used" by (simp add: pool_inv_def demo_used_def)
  from destroy_frees_exactly [OF this, of 2] show ?thesis by simp
qed

section \<open>What the pool does not check\<close>


text \<open>
  The pool has no lock.  The two assignments of \<open>Free\<close> are the steps of a thread; a schedule says
  which of two threads moves.
\<close>

datatype free_pc = WriteNext | WriteFirst | Freed

fun free_micro :: "addr \<Rightarrow> addr \<Rightarrow> free_pc \<times> mheap \<Rightarrow> free_pc \<times> mheap" where
  "free_micro p a (WriteNext, h) =
     (WriteFirst, h\<lparr>next_of := (next_of h)(a := pFirstAvailable (head_of h p))\<rparr>)"
| "free_micro p a (WriteFirst, h) =
     (Freed, h\<lparr>head_of := (head_of h)(p := (head_of h p)\<lparr>pFirstAvailable := Some a\<rparr>)\<rparr>)"
| "free_micro p a (Freed, h) = (Freed, h)"

lemma free_micro_is_Free:
  "Free (Some p) (Some a) h = Done (snd (free_micro p a (free_micro p a (WriteNext, h))))"
  by (simp add: Free_def)

fun free_two :: "addr \<Rightarrow> addr \<Rightarrow> addr \<Rightarrow> bool list \<Rightarrow> free_pc \<times> free_pc \<times> mheap \<Rightarrow> free_pc \<times> free_pc \<times> mheap" where
  "free_two p a b [] s = s"
| "free_two p a b (t # ts) (pa, pb, h) =
     (if t then (let (pa', h') = free_micro p a (pa, h) in free_two p a b ts (pa', pb, h'))
      else (let (pb', h') = free_micro p b (pb, h) in free_two p a b ts (pa, pb', h')))"



end
