(* ===== verification/ListMq.thy ===== *)
theory ListMq
  imports Prelude
begin

text \<open>
  \<open>OBD_mq.h\<close>: the message queue between the event loop and the dispatcher thread, an intrusive
  circular doubly linked list whose head is a member of the queue, protected by a global mutex.
  Nodes are addresses; the two links of every node are the maps \<open>nxt\<close> and \<open>prv\<close>.  A thread that
  locks a mutex that is already locked waits (\<open>Blocked\<close> when nobody else is going to unlock it);
  locking a destroyed mutex is undefined.
\<close>

section \<open>Translation\<close>

datatype mutex = Unlocked | Locked | Destroyed

record mq_t =
  nxt :: "nat \<Rightarrow> nat"
  prv :: "nat \<Rightarrow> nat"
  mq_list :: nat
  size_of :: u32_t
  mq_mutex :: mutex

definition mutex_lock :: "mq_t \<Rightarrow> mq_t run" where
  "mutex_lock q = (case mq_mutex q of Unlocked \<Rightarrow> Done (q\<lparr>mq_mutex := Locked\<rparr>)
     | Locked \<Rightarrow> Blocked | Destroyed \<Rightarrow> Fault)"

definition mutex_unlock :: "mq_t \<Rightarrow> mq_t" where
  "mutex_unlock q = q\<lparr>mq_mutex := Unlocked\<rparr>"

definition set_next :: "nat \<Rightarrow> nat \<Rightarrow> mq_t \<Rightarrow> mq_t" where
  "set_next n v q = q\<lparr>nxt := (nxt q)(n := v)\<rparr>"

definition set_prev :: "nat \<Rightarrow> nat \<Rightarrow> mq_t \<Rightarrow> mq_t" where
  "set_prev n v q = q\<lparr>prv := (prv q)(n := v)\<rparr>"

definition list_init :: "nat \<Rightarrow> mq_t \<Rightarrow> mq_t" where
  "list_init l q = set_prev l l (set_next l l q)"

text \<open>The function returns before its last statements: the mutex stays locked.\<close>

definition mq_is_empty :: "mq_t \<Rightarrow> (bool \<times> mq_t) run" where
  "mq_is_empty q =
     run_bind (mutex_lock q) (\<lambda>q. let head = mq_list q in Done (prv q head = head, q))"

definition list_del :: "nat \<Rightarrow> nat \<Rightarrow> mq_t \<Rightarrow> mq_t" where
  "list_del head node q =
     (let q1 = set_prev (nxt q node) (prv q node) q;
          q2 = set_next head (nxt q1 node) q1
      in list_init node q2)"

definition list_del_back :: "nat \<Rightarrow> mq_t \<Rightarrow> nat option \<times> mq_t" where
  "list_del_back head q =
     (if prv q head = head then (None, q)
      else (let current = prv q head;
                q1 = set_next (prv q current) head q;
                q2 = set_prev head (prv q1 current) q1
            in (Some current, list_init current q2)))"

definition mq_get :: "mq_t \<Rightarrow> (nat option \<times> mq_t) run" where
  "mq_get q =
     run_bind (mutex_lock q) (\<lambda>q1.
       let (current, q2) = list_del_back (mq_list q1) q1;
           q3 = (if current \<noteq> None then q2\<lparr>size_of := size_of q2 - 1\<rparr> else q2)
       in Done (current, mutex_unlock q3))"

definition list_add_front :: "nat \<Rightarrow> nat \<Rightarrow> mq_t \<Rightarrow> mq_t" where
  "list_add_front head current q =
     (let q1 = set_next current (nxt q head) q;
          q2 = set_prev (nxt q1 head) current q1;
          q3 = set_next head current q2
      in set_prev current head q3)"

definition mq_put :: "nat \<Rightarrow> mq_t \<Rightarrow> mq_t run" where
  "mq_put current q =
     run_bind (mutex_lock q) (\<lambda>q1.
       let q2 = list_add_front (mq_list q1) current q1;
           q3 = q2\<lparr>size_of := size_of q2 + 1\<rparr>
       in Done (mutex_unlock q3))"

definition mq_release :: "mq_t \<Rightarrow> mq_t" where
  "mq_release q = q\<lparr>mq_mutex := Destroyed\<rparr>"

text \<open>\<open>mq_init\<close> is declared to return a \<open>boolean\<close> and returns none; only the state is modelled.\<close>

definition mq_init :: "mq_t \<Rightarrow> mq_t" where
  "mq_init q = (list_init (mq_list q) q)\<lparr>size_of := 0\<rparr>"

lemmas mq_prims = mutex_lock_def mutex_unlock_def set_next_def set_prev_def list_init_def

section \<open>Circular lists\<close>

text \<open>\<open>seg nx pv a xs b\<close>: from \<open>a\<close> the links lead over \<open>xs\<close> to \<open>b\<close>, in both directions.\<close>

fun seg :: "(nat \<Rightarrow> nat) \<Rightarrow> (nat \<Rightarrow> nat) \<Rightarrow> nat \<Rightarrow> nat list \<Rightarrow> nat \<Rightarrow> bool" where
  "seg nx pv a [] b \<longleftrightarrow> nx a = b \<and> pv b = a"
| "seg nx pv a (x # xs) b \<longleftrightarrow> nx a = x \<and> pv x = a \<and> seg nx pv x xs b"

lemma seg_append: "seg nx pv a (xs @ y # ys) b \<longleftrightarrow> seg nx pv a xs y \<and> seg nx pv y ys b"
  by (induction xs arbitrary: a) auto

lemma seg_upd_next [simp]: "u \<noteq> a \<Longrightarrow> u \<notin> set xs \<Longrightarrow> seg (nx(u := v)) pv a xs b = seg nx pv a xs b"
  by (induction xs arbitrary: a) auto

lemma seg_upd_prev [simp]: "u \<noteq> b \<Longrightarrow> u \<notin> set xs \<Longrightarrow> seg nx (pv(u := v)) a xs b = seg nx pv a xs b"
  by (induction xs arbitrary: a) auto

text \<open>The elements of the ring of \<open>q\<close>, newest first.\<close>

definition ring :: "mq_t \<Rightarrow> nat list \<Rightarrow> bool" where
  "ring q xs \<longleftrightarrow> distinct (mq_list q # xs) \<and> seg (nxt q) (prv q) (mq_list q) xs (mq_list q)"

text \<open>Walking from the head along \<open>prev\<close> for \<open>size\<close> steps lists the queue, oldest first.\<close>

fun walk :: "(nat \<Rightarrow> nat) \<Rightarrow> nat \<Rightarrow> nat \<Rightarrow> nat list" where
  "walk pv 0 x = []"
| "walk pv (Suc n) x = x # walk pv n (pv x)"

definition mq_elems :: "mq_t \<Rightarrow> nat list" where
  "mq_elems q = walk (prv q) (unat (size_of q)) (prv q (mq_list q))"

lemma seg_walk: "seg nx pv a xs b \<Longrightarrow> walk pv (length xs) (pv b) = rev xs"
proof (induction xs arbitrary: b rule: rev_induct)
  case Nil
  then show ?case by simp
next
  case (snoc x xs)
  then have "seg nx pv a xs x" "pv b = x" by (simp_all add: seg_append)
  with snoc.IH show ?case by simp
qed

definition mq_ok :: "mq_t \<Rightarrow> bool" where
  "mq_ok q \<longleftrightarrow> mq_mutex q = Unlocked \<and> ring q (rev (mq_elems q))"

lemma mq_okI:
  assumes "mq_mutex q = Unlocked" "ring q xs" "unat (size_of q) = length xs"
  shows "mq_ok q \<and> mq_elems q = rev xs"
proof -
  have "mq_elems q = rev xs"
    using assms seg_walk [of "nxt q" "prv q" "mq_list q" xs "mq_list q"]
    by (simp add: mq_elems_def ring_def)
  with assms show ?thesis by (simp add: mq_ok_def)
qed

lemma length_walk [simp]: "length (walk pv n x) = n"
  by (induction n arbitrary: x) auto

lemma length_mq_elems: "length (mq_elems q) = unat (size_of q)"
  by (simp add: mq_elems_def)

text \<open>The pointer operations on a ring.\<close>

lemma ring_list_init: "ring (list_init (mq_list q) q) []"
  by (simp add: ring_def mq_prims)

lemma ring_add_front:
  assumes "ring q xs" "x \<notin> set (mq_list q # xs)"
  shows "ring (list_add_front (mq_list q) x q) (x # xs)"
    and "mq_list (list_add_front (mq_list q) x q) = mq_list q"
    and "size_of (list_add_front (mq_list q) x q) = size_of q"
    and "mq_mutex (list_add_front (mq_list q) x q) = mq_mutex q"
  using assms by (cases xs; auto simp: ring_def list_add_front_def mq_prims Let_def)+

lemma list_del_back_empty: "ring q [] \<Longrightarrow> list_del_back (mq_list q) q = (None, q)"
  by (simp add: ring_def list_del_back_def)

lemma ring_del_back:
  assumes "ring q (xs @ [x])"
  shows "fst (list_del_back (mq_list q) q) = Some x"
    and "ring (snd (list_del_back (mq_list q) q)) xs"
    and "mq_list (snd (list_del_back (mq_list q) q)) = mq_list q"
    and "size_of (snd (list_del_back (mq_list q) q)) = size_of q"
    and "mq_mutex (snd (list_del_back (mq_list q) q)) = mq_mutex q"
proof -
  have d: "distinct (mq_list q # xs @ [x])" "seg (nxt q) (prv q) (mq_list q) xs x"
    "nxt q x = mq_list q" "prv q (mq_list q) = x"
    using assms by (simp_all add: ring_def seg_append)
  show "fst (list_del_back (mq_list q) q) = Some x"
    "mq_list (snd (list_del_back (mq_list q) q)) = mq_list q"
    "size_of (snd (list_del_back (mq_list q) q)) = size_of q"
    "mq_mutex (snd (list_del_back (mq_list q) q)) = mq_mutex q"
    using d by (auto simp: list_del_back_def mq_prims Let_def)
  show "ring (snd (list_del_back (mq_list q) q)) xs"
  proof (cases xs rule: rev_cases)
    case Nil
    with d show ?thesis by (auto simp: ring_def list_del_back_def mq_prims Let_def)
  next
    case (snoc ys y)
    with d show ?thesis
      by (auto simp: ring_def list_del_back_def mq_prims Let_def seg_append)
  qed
qed

section \<open>The queue operations\<close>

text \<open>A node may be put when it is not in the queue and the 32-bit counter does not overflow.\<close>

definition mq_fits :: "nat \<Rightarrow> mq_t \<Rightarrow> bool" where
  "mq_fits x q \<longleftrightarrow> x \<notin> set (mq_list q # mq_elems q) \<and> length (mq_elems q) < 2 ^ 32 - 1"

lemma mq_okD: "mq_ok q \<Longrightarrow> mq_mutex q = Unlocked \<and> ring q (rev (mq_elems q))"
  by (simp add: mq_ok_def)

lemma ring_locked [simp]: "ring (q\<lparr>mq_mutex := m\<rparr>) xs = ring q xs"
  "ring (q\<lparr>size_of := n\<rparr>) xs = ring q xs"
  by (simp_all add: ring_def)

lemma mq_init_ok: "mq_mutex q = Unlocked \<Longrightarrow> mq_ok (mq_init q) \<and> mq_elems (mq_init q) = []"
proof -
  assume u: "mq_mutex q = Unlocked"
  have "mq_ok (mq_init q) \<and> mq_elems (mq_init q) = rev []"
  proof (rule mq_okI)
    show "mq_mutex (mq_init q) = Unlocked" using u by (simp add: mq_init_def mq_prims)
    have "mq_list (list_init (mq_list q) q) = mq_list q" by (simp add: mq_prims)
    then show "ring (mq_init q) []"
      using ring_list_init [of q] by (simp add: mq_init_def)
    show "unat (size_of (mq_init q)) = length []" by (simp add: mq_init_def)
  qed
  then show ?thesis by simp
qed

lemma mq_put_spec:
  assumes "mq_ok q" "mq_fits x q"
  shows "\<exists>q'. mq_put x q = Done q' \<and> mq_ok q' \<and> mq_elems q' = mq_elems q @ [x] \<and> mq_list q' = mq_list q"
proof -
  define q1 where "q1 = q\<lparr>mq_mutex := Locked\<rparr>"
  define q2 where "q2 = list_add_front (mq_list q1) x q1"
  define q3 where "q3 = mutex_unlock (q2\<lparr>size_of := size_of q2 + 1\<rparr>)"
  have r1: "ring q1 (rev (mq_elems q))" "x \<notin> set (mq_list q1 # rev (mq_elems q))"
    using assms by (simp_all add: q1_def mq_ok_def mq_fits_def)
  note r2 = ring_add_front [OF r1, folded q2_def]
  have sz: "unat (size_of q2 + 1) = length (x # rev (mq_elems q))"
  proof -
    have "unat (size_of q) + 1 < 2 ^ 32" using assms by (simp add: mq_fits_def length_mq_elems)
    then show ?thesis
      using r2(3) by (simp add: q1_def length_mq_elems unat_word_ariths)
  qed
  have "mq_ok q3 \<and> mq_elems q3 = rev (x # rev (mq_elems q))"
    using r2 sz by (intro mq_okI) (simp_all add: q3_def mutex_unlock_def)
  moreover have "mq_put x q = Done q3"
    using assms by (simp add: mq_put_def mutex_lock_def mq_ok_def q1_def q2_def q3_def Let_def)
  ultimately show ?thesis using r2(2) by (auto simp: q3_def q1_def mutex_unlock_def)
qed

lemma mq_get_empty:
  assumes "mq_ok q" "mq_elems q = []"
  shows "mq_get q = Done (None, q)"
proof -
  have "ring (q\<lparr>mq_mutex := Locked\<rparr>) []" using assms by (simp add: mq_ok_def)
  from list_del_back_empty [OF this] show ?thesis
    using assms by (simp add: mq_get_def mutex_lock_def mutex_unlock_def mq_ok_def)
qed

lemma mq_get_spec:
  assumes "mq_ok q" "mq_elems q = x # xs"
  shows "\<exists>q'. mq_get q = Done (Some x, q') \<and> mq_ok q' \<and> mq_elems q' = xs \<and> mq_list q' = mq_list q"
proof -
  define q1 where "q1 = q\<lparr>mq_mutex := Locked\<rparr>"
  define q2 where "q2 = snd (list_del_back (mq_list q1) q1)"
  define q3 where "q3 = mutex_unlock (q2\<lparr>size_of := size_of q2 - 1\<rparr>)"
  have r1: "ring q1 (rev xs @ [x])"
    using assms by (simp add: q1_def mq_ok_def)
  note r2 = ring_del_back [OF r1, folded q2_def]
  have sz: "unat (size_of q2 - 1) = length (rev xs)"
  proof -
    have "unat (size_of q) = Suc (length xs)" using assms length_mq_elems [of q] by simp
    moreover from this have "size_of q \<noteq> 0" by auto
    ultimately show ?thesis using r2(4) by (simp add: q1_def unat_minus_one)
  qed
  have "mq_ok q3 \<and> mq_elems q3 = rev (rev xs)"
    using r2 sz by (intro mq_okI) (simp_all add: q3_def mutex_unlock_def)
  moreover have "mq_get q = Done (Some x, q3)"
    using assms(1) r2(1)
    by (simp add: mq_get_def mutex_lock_def mq_ok_def q1_def q2_def q3_def Let_def case_prod_unfold)
  ultimately show ?thesis using r2(3) by (auto simp: q3_def q1_def mutex_unlock_def)
qed

text \<open>The operations as the queue interface: their state after a normal return.\<close>

definition mq_put_state :: "nat \<Rightarrow> mq_t \<Rightarrow> mq_t" where
  "mq_put_state x q = (case mq_put x q of Done q' \<Rightarrow> q' | _ \<Rightarrow> q)"

definition mq_get_state :: "mq_t \<Rightarrow> nat \<times> mq_t" where
  "mq_get_state q = (case mq_get q of Done (Some x, q') \<Rightarrow> (x, q') | _ \<Rightarrow> (mq_list q, q))"

interpretation mq: fifo_queue mq_ok mq_elems mq_fits mq_put_state mq_get_state
proof
  fix q x assume "mq_ok q" "mq_fits x q"
  from mq_put_spec [OF this]
  show "mq_ok (mq_put_state x q)" "mq_elems (mq_put_state x q) = mq_elems q @ [x]"
    by (auto simp: mq_put_state_def)
next
  fix q assume "mq_ok q" "mq_elems q \<noteq> []"
  then obtain x xs where e: "mq_elems q = x # xs" by (cases "mq_elems q") auto
  from mq_get_spec [OF \<open>mq_ok q\<close> e] e
  show "mq_ok (snd (mq_get_state q))" "fst (mq_get_state q) = hd (mq_elems q)"
    "mq_elems (snd (mq_get_state q)) = tl (mq_elems q)"
    by (auto simp: mq_get_state_def)
qed

text \<open>Putting the nodes of a list, then getting \<open>n\<close> of them.\<close>

fun mq_put_all :: "nat list \<Rightarrow> mq_t \<Rightarrow> mq_t run" where
  "mq_put_all [] q = Done q"
| "mq_put_all (x # xs) q = run_bind (mq_put x q) (mq_put_all xs)"

fun mq_get_many :: "nat \<Rightarrow> mq_t \<Rightarrow> (nat option list \<times> mq_t) run" where
  "mq_get_many 0 q = Done ([], q)"
| "mq_get_many (Suc n) q =
     run_bind (mq_get q) (\<lambda>(r, q'). run_bind (mq_get_many n q') (\<lambda>(rs, q''). Done (r # rs, q'')))"

lemma mq_put_all_spec:
  assumes "mq_ok q" "distinct xs" "set xs \<inter> set (mq_list q # mq_elems q) = {}"
    "length (mq_elems q) + length xs < 2 ^ 32"
  shows "\<exists>q'. mq_put_all xs q = Done q' \<and> mq_ok q' \<and> mq_elems q' = mq_elems q @ xs \<and> mq_list q' = mq_list q"
  using assms
proof (induction xs arbitrary: q)
  case Nil
  then show ?case by simp
next
  case (Cons x xs)
  then have "mq_fits x q" by (auto simp: mq_fits_def)
  from mq_put_spec [OF Cons.prems(1) this] obtain q1 where
    q1: "mq_put x q = Done q1" "mq_ok q1" "mq_elems q1 = mq_elems q @ [x]" "mq_list q1 = mq_list q"
    by blast
  moreover have "\<exists>q'. mq_put_all xs q1 = Done q' \<and> mq_ok q' \<and> mq_elems q' = mq_elems q1 @ xs \<and> mq_list q' = mq_list q1"
    using Cons.prems q1 by (intro Cons.IH) auto
  ultimately show ?case by auto
qed

lemma mq_get_many_drain:
  "mq_ok q \<Longrightarrow> n \<le> length (mq_elems q) \<Longrightarrow>
     mq_get_many n q = Done (map Some (fst (mq.drain n q)), snd (mq.drain n q))"
proof (induction n arbitrary: q)
  case 0
  then show ?case by simp
next
  case (Suc n)
  then obtain x xs where e: "mq_elems q = x # xs" by (cases "mq_elems q") auto
  obtain q1 where q1: "mq_get q = Done (Some x, q1)" "mq_ok q1" "mq_elems q1 = xs"
    using mq_get_spec [OF Suc.prems(1) e] by blast
  then have "mq_get_state q = (x, q1)" by (simp add: mq_get_state_def)
  with Suc.IH [of q1] Suc.prems q1 e show ?case by (simp add: case_prod_unfold Let_def)
qed

text \<open>
  C14. The message queue is first-in first-out: after \<open>mq_init\<close>, putting any distinct nodes (fewer
  than 2^32, none of them the head of the list) and getting as many returns exactly these nodes
  in the order in which they were put, every operation returns (the mutex is released each time),
  and a further \<open>mq_get\<close> finds the queue empty.
\<close>

theorem mq_fifo:
  assumes "mq_mutex q = Unlocked" "distinct xs" "mq_list q \<notin> set xs" "length xs < 2 ^ 32"
  shows "\<exists>q1 q2. mq_put_all xs (mq_init q) = Done q1
      \<and> mq_get_many (length xs) q1 = Done (map Some xs, q2) \<and> mq_get q2 = Done (None, q2)"
proof -
  have i: "mq_ok (mq_init q)" "mq_elems (mq_init q) = []" "mq_list (mq_init q) = mq_list q"
    using mq_init_ok [OF assms(1)] by (simp_all add: mq_init_def mq_prims)
  then obtain q1 where q1: "mq_put_all xs (mq_init q) = Done q1" "mq_ok q1" "mq_elems q1 = xs"
    using mq_put_all_spec [of "mq_init q" xs] assms by auto
  have "mq_ok (snd (mq.drain (length xs) q1)) \<and> fst (mq.drain (length xs) q1) = xs
      \<and> mq_elems (snd (mq.drain (length xs) q1)) = []"
    using mq.drain_takes_in_order [of q1 "length xs"] q1 by simp
  with q1 mq_get_many_drain [of q1 "length xs"] mq_get_empty show ?thesis by auto
qed

definition demo_mq :: mq_t where
  "demo_mq = \<lparr>nxt = (\<lambda>_. 0), prv = (\<lambda>_. 0), mq_list = 1, size_of = 7, mq_mutex = Unlocked\<rparr>"

theorem mq_fifo_witness:
  "\<exists>q1 q2. mq_put_all [5, 9, 6] (mq_init demo_mq) = Done q1
      \<and> mq_get_many (length [5 :: nat, 9, 6]) q1 = Done (map Some [5, 9, 6], q2) \<and> mq_get q2 = Done (None, q2)"
  by (rule mq_fifo) (simp_all add: demo_mq_def)

text \<open>
  \<open>mq_is_empty\<close> leaves the mutex locked: its first \<open>return\<close> comes before the unlock.  It answers
  correctly on an intact queue, but every later operation on the queue waits for ever.
\<close>

theorem mq_is_empty_keeps_lock:
  assumes "mq_ok q"
  shows "\<exists>q'. mq_is_empty q = Done (mq_elems q = [], q') \<and> mq_get q' = Blocked
      \<and> mq_put x q' = Blocked \<and> mq_is_empty q' = Blocked"
proof -
  have r: "ring q (rev (mq_elems q))" "mq_mutex q = Unlocked" using assms by (simp_all add: mq_ok_def)
  have "prv q (mq_list q) = mq_list q \<longleftrightarrow> mq_elems q = []"
  proof (cases "mq_elems q")
    case Nil
    with r show ?thesis by (simp add: ring_def)
  next
    case (Cons y ys)
    with r show ?thesis by (auto simp: ring_def seg_append)
  qed
  with r show ?thesis
    by (simp add: mq_is_empty_def mutex_lock_def mq_get_def mq_put_def)
qed

theorem mq_is_empty_keeps_lock_witness:
  "\<exists>q'. mq_is_empty (mq_init demo_mq) = Done (mq_elems (mq_init demo_mq) = [], q') \<and> mq_get q' = Blocked
      \<and> mq_put 5 q' = Blocked \<and> mq_is_empty q' = Blocked"
proof -
  have "mq_ok (mq_init demo_mq)" using mq_init_ok [of demo_mq] by (simp add: demo_mq_def)
  then show ?thesis by (rule mq_is_empty_keeps_lock)
qed

lemma walk_forward: "seg nx pv a xs b \<Longrightarrow> walk nx (Suc (length xs)) (nx a) = xs @ [b]"
  by (induction xs arbitrary: a) auto

lemma walk_upd: "u \<notin> set (butlast (walk f n x)) \<Longrightarrow> walk (f(u := v)) n x = walk f n x"
proof (induction n arbitrary: x)
  case (Suc n)
  then show ?case by (cases n) auto
qed simp

lemma list_del_links:
  "nxt (list_del h node q) = (nxt q)(h := nxt q node, node := node)"
  "prv (list_del h node q) = (prv q)(nxt q node := prv q node, node := node)"
  "mq_list (list_del h node q) = mq_list q"
  by (simp_all add: list_del_def mq_prims Let_def)

text \<open>
  \<open>list_del\<close> unlinks its node together with every node in front of it: called on the list
  \<open>xs @ node # ys\<close>, following \<open>nxt\<close> from the head visits \<open>ys\<close> and returns to the head.  It is a
  correct removal exactly for the node next to the head (\<open>xs = []\<close>), and then leaves an intact ring.
\<close>

theorem list_del_drops_prefix:
  assumes "ring q (xs @ node # ys)"
  shows "walk (nxt (list_del (mq_list q) node q)) (Suc (length ys))
      (nxt (list_del (mq_list q) node q) (mq_list q)) = ys @ [mq_list q]
    \<and> (ring (list_del (mq_list q) node q) ys \<longleftrightarrow> xs = [])"
proof -
  let ?h = "mq_list q"
  have d: "distinct (?h # xs @ node # ys)" and s1: "seg (nxt q) (prv q) ?h xs node"
    and s2: "seg (nxt q) (prv q) node ys ?h"
    using assms by (simp_all add: ring_def seg_append)
  have w: "walk (nxt q) (Suc (length ys)) (nxt q node) = ys @ [?h]"
    by (rule walk_forward [OF s2])
  have 1: "walk (nxt (list_del ?h node q)) (Suc (length ys)) (nxt (list_del ?h node q) ?h) = ys @ [?h]"
    using d w by (simp add: list_del_links walk_upd del: walk.simps)
  have 2: "ring (list_del ?h node q) ys \<longleftrightarrow> xs = []"
  proof (cases xs rule: rev_cases)
    case Nil
    then show ?thesis using d s1 s2 by (cases ys) (auto simp: ring_def list_del_links)
  next
    case (snoc zs z)
    then have "prv q node = z" "z \<noteq> ?h" using s1 d by (auto simp: seg_append)
    then show ?thesis using snoc d s2 by (cases ys) (auto simp: ring_def list_del_links)
  qed
  from 1 2 show ?thesis ..
qed

theorem list_del_drops_prefix_witness:
  "\<exists>q. ring q ([2] @ 3 # [4]) \<and> walk (nxt (list_del (mq_list q) 3 q)) (Suc (length [4 :: nat]))
      (nxt (list_del (mq_list q) 3 q) (mq_list q)) = [4] @ [mq_list q]
      \<and> (ring (list_del (mq_list q) 3 q) [4] \<longleftrightarrow> [2 :: nat] = [])"
proof -
  define q where "q = demo_mq\<lparr>nxt := (\<lambda>_. 0)(1 := 2, 2 := 3, 3 := 4, 4 := 1),
    prv := (\<lambda>_. 0)(1 := 4, 4 := 3, 3 := 2, 2 := 1)\<rparr>"
  have r: "ring q ([2] @ 3 # [4])" by (simp add: ring_def q_def demo_mq_def)
  with list_del_drops_prefix [OF r] show ?thesis by blast
qed

end
