(* ===== verification/ObdFrame.thy ===== *)
theory ObdFrame
  imports StringOps ObdStructs
begin

text \<open>
  \<open>OBD_struct.h\<close>: a received message and its decoding.  \<open>OBD_t\<close> holds the text as received, its
  length in one byte, and the decoded bytes.  Pointer reads that run past \<open>data\<close> see the members
  behind it, so reads go through the flat image \<open>obd_bytes\<close> of the struct (offsets 0, 256, 257
  and 513); a read behind the last byte member leaves the modelled object (\<open>Fault\<close>).
  \<open>printf\<close> calls are not modelled, but for the identifier that \<open>OBD_decode\<close> prints.
\<close>

section \<open>Translation\<close>

record OBD_t =
  data :: "u8_t list"
  data_length :: u8_t
  hex :: "u8_t list"
  obd_id :: u8_t

definition obd_bytes :: "OBD_t \<Rightarrow> u8_t list" where
  "obd_bytes o' = data o' @ [data_length o'] @ hex o' @ [obd_id o']"

definition obd_byte :: "OBD_t \<Rightarrow> nat \<Rightarrow> u8_t option" where
  "obd_byte ob k = (if k < length (obd_bytes ob) then Some (obd_bytes ob ! k) else None)"

text \<open>Two characters at the given offsets, converted.\<close>

definition hex_pair :: "OBD_t \<Rightarrow> nat \<Rightarrow> nat \<Rightarrow> u8_t option" where
  "hex_pair ob p q =
     (case (obd_byte ob p, obd_byte ob q) of (Some x, Some y) \<Rightarrow> Some (str2hex x y) | _ \<Rightarrow> None)"

definition OBD_get_cmd :: "OBD_t \<Rightarrow> u8_t run" where
  "OBD_get_cmd ob = run_of_option (hex_pair ob 2 3)"

text \<open>The strings ``BB'', ``EE'' that open and close a frame.\<close>

definition str_BB :: "u8_t list" where "str_BB = [66, 66]"
definition str_EE :: "u8_t list" where "str_EE = [69, 69]"

text \<open>
  \<open>OBD_check_sum\<close>.  \<open>end\<close> is \<open>strstr (..., "EE") - 2\<close>: a null pointer minus 2 is neither null nor
  below \<open>begin\<close>, so it passes the tests and is dereferenced.  The loop compares with \<open>len\<close>, which
  is never assigned after its initialisation with 0.
\<close>

fun check_sum_loop :: "nat \<Rightarrow> nat \<Rightarrow> u8_t \<Rightarrow> u8_t \<Rightarrow> bool \<Rightarrow> u8_t \<Rightarrow> OBD_t \<Rightarrow> u8_t run" where
  "check_sum_loop 0 b len i flag acc ob = OutOfFuel"
| "check_sum_loop (Suc n) b len i flag acc ob =
     (if unat i + 2 \<le> unat len then
        (if \<not> flag then
           (case hex_pair ob (b + unat i) (b + unat i + 1) of
              None \<Rightarrow> Fault
            | Some tmp \<Rightarrow>
                if tmp = 0xAA then check_sum_loop n b len (i + 2) True acc ob
                else check_sum_loop n b len (i + 2) flag (acc + tmp) ob)
         else
           (case hex_pair ob (b + unat i + 1) (b + unat i + 1) of
              None \<Rightarrow> Fault
            | Some tmp \<Rightarrow> check_sum_loop n b len (i + 2) False (acc + tmp) ob))
      else Done acc)"

definition OBD_check_sum :: "nat \<Rightarrow> OBD_t \<Rightarrow> bool run" where
  "OBD_check_sum fuel ob =
     (case strstr (obd_bytes ob) str_BB of None \<Rightarrow> Fault | Some begin \<Rightarrow>
      (case strstr (obd_bytes ob) str_EE of None \<Rightarrow> Fault | Some ee \<Rightarrow>
       (case begin of
          None \<Rightarrow> Done False
        | Some b \<Rightarrow>
            (case ee of
               None \<Rightarrow> run_bind (check_sum_loop fuel b 0 0 False 0 ob) (\<lambda>_. Fault)
             | Some e \<Rightarrow>
                 if int e - 2 < int b then Done False
                 else run_bind (check_sum_loop fuel b 0 0 False 0 ob) (\<lambda>acc.
                   run_bind (run_of_option (hex_pair ob (e - 2) (e - 1))) (\<lambda>tmp.
                     Done (tmp = acc mod 256)))))))"

text \<open>
  The loop of \<open>OBD_filter_escape_and_transfer_to_hex\<close>.  \<open>i\<close> and \<open>j\<close> are 8-bit counters; the index
  \<open>i + 1\<close> is computed as an \<open>int\<close>.
\<close>

fun filter_loop :: "nat \<Rightarrow> nat \<Rightarrow> u8_t \<Rightarrow> bool \<Rightarrow> u8_t \<Rightarrow> OBD_t \<Rightarrow> OBD_t run" where
  "filter_loop 0 b i flag j ob = OutOfFuel"
| "filter_loop (Suc n) b i flag j ob =
     (if i < data_length ob then
        (if \<not> flag then
           (case hex_pair ob (b + unat i) (b + unat i + 1) of
              None \<Rightarrow> Fault
            | Some tmp \<Rightarrow>
                if tmp = 0xAA then filter_loop n b (i + 2) True j ob
                else filter_loop n b (i + 2) flag (j + 1) (ob\<lparr>hex := (hex ob)[unat j := tmp]\<rparr>))
         else
           (case hex_pair ob (b + unat i + 1) (b + unat i + 1) of
              None \<Rightarrow> Fault
            | Some tmp \<Rightarrow>
                filter_loop n b (i + 2) False (j + 1) (ob\<lparr>hex := (hex ob)[unat j := tmp]\<rparr>)))
      else Done ob)"

definition OBD_filter_escape_and_transfer_to_hex :: "nat \<Rightarrow> OBD_t \<Rightarrow> (bool \<times> OBD_t) run" where
  "OBD_filter_escape_and_transfer_to_hex fuel ob =
     (case strstr (obd_bytes ob) str_BB of None \<Rightarrow> Fault | Some begin \<Rightarrow>
      (case strstr (obd_bytes ob) str_EE of None \<Rightarrow> Fault | Some end' \<Rightarrow>
       (case (begin, end') of
          (Some b, Some e) \<Rightarrow>
            if e < b then Done (False, ob)
            else run_bind (filter_loop fuel b 0 False 0 ob) (\<lambda>ob'. Done (True, ob'))
        | _ \<Rightarrow> Done (False, ob))))"

text \<open>The command codes of \<open>OBD_cmd_id.h\<close>, first enumeration.\<close>

definition cmd_ids :: "u8_t list" where
  "cmd_ids = [0x00, 0x01, 0x02, 0x03, 0x07, 0x08, 0x10, 0x13, 0x14, 0x15, 0x16, 0x17, 0x18, 0x19,
     0x1a, 0x1b, 0x21, 0x22, 0x30, 0x32, 0x33, 0x34, 0x42, 0x43, 0x50]"

definition CMD0x02 :: u8_t where "CMD0x02 = 0x02"

text \<open>
  \<open>OBD_decode\<close> switches on the command byte; every case but one does nothing.  \<open>CMD0x02\<close> lays
  \<open>cmd02_t\<close> over the bytes and prints the four bytes of \<open>head.id\<close>: the result is what is printed.
\<close>

definition OBD_decode :: "OBD_t \<Rightarrow> u8_t list" where
  "OBD_decode ob =
     (if hex ob ! 1 = CMD0x02 then
        (case offsetof cmd02_t [''head'', ''id''] of
           Some (off, t) \<Rightarrow> map (\<lambda>i. hex ob ! (off + i)) [0..<csizeof t]
         | None \<Rightarrow> [])
      else [])"

definition obd_wf :: "OBD_t \<Rightarrow> bool" where
  "obd_wf ob \<longleftrightarrow> length (data ob) = BUF_SIZE \<and> length (hex ob) = BUF_SIZE"

section \<open>Reading the flat image\<close>

lemma obd_bytes_length: "obd_wf ob \<Longrightarrow> length (obd_bytes ob) = 514"
  by (simp add: obd_wf_def obd_bytes_def BUF_SIZE_def)

lemma obd_byte_data: "obd_wf ob \<Longrightarrow> k < 256 \<Longrightarrow> obd_byte ob k = Some (data ob ! k)"
  by (auto simp: obd_byte_def obd_bytes_def obd_wf_def BUF_SIZE_def nth_append)

lemma obd_byte_Some: "obd_wf ob \<Longrightarrow> k < 514 \<Longrightarrow> \<exists>x. obd_byte ob k = Some x"
  by (simp add: obd_byte_def obd_bytes_length)

lemma hex_pair_Some: "obd_wf ob \<Longrightarrow> p < 514 \<Longrightarrow> q < 514 \<Longrightarrow> \<exists>x. hex_pair ob p q = Some x"
  by (simp add: hex_pair_def obd_byte_def obd_bytes_length)

lemma hex_pair_data:
  "obd_wf ob \<Longrightarrow> p < 256 \<Longrightarrow> q < 256 \<Longrightarrow> hex_pair ob p q = Some (str2hex (data ob ! p) (data ob ! q))"
  by (simp add: hex_pair_def obd_byte_data)

lemma obd_wf_hex [simp]: "obd_wf (ob\<lparr>hex := (hex ob)[j := x]\<rparr>) = obd_wf ob"
  by (simp add: obd_wf_def)

section \<open>The decoder as a function on the text\<close>

text \<open>What the loop computes: pairs of characters; a pair worth 0xAA makes the next pair an
  escape, whose second character is used for both digits.\<close>

fun unescape :: "bool \<Rightarrow> u8_t list \<Rightarrow> u8_t list" where
  "unescape flag (x # y # cs) =
     (if flag then str2hex y y # unescape False cs
      else if str2hex x y = 0xAA then unescape True cs
      else str2hex x y # unescape False cs)"
| "unescape flag _ = []"

text \<open>Storing a list from index \<open>j\<close> on.\<close>

fun store :: "nat \<Rightarrow> 'a list \<Rightarrow> 'a list \<Rightarrow> 'a list" where
  "store j [] h = h"
| "store j (x # xs) h = store (Suc j) xs (h[j := x])"

lemma length_store [simp]: "length (store j xs h) = length h"
  by (induction j xs h rule: store.induct) auto

lemma store_eq: "j + length xs \<le> length h \<Longrightarrow> store j xs h = take j h @ xs @ drop (j + length xs) h"
proof (induction j xs h rule: store.induct)
  case (2 j x xs h)
  then have "store (Suc j) xs (h[j := x]) = take (Suc j) (h[j := x]) @ xs @ drop (Suc j + length xs) (h[j := x])"
    by simp
  also have "take (Suc j) (h[j := x]) = take j h @ [x]"
    using 2 by (simp add: take_Suc_conv_app_nth)
  finally show ?case by simp
qed simp

lemma length_unescape: "length (unescape flag cs) \<le> length cs div 2"
  by (induction flag cs rule: unescape.induct) auto

lemma pair_at:
  assumes "k + 2 \<le> m" "b + m \<le> length d"
  shows "take (m - k) (drop (b + k) d) = d ! (b + k) # d ! (b + k + 1) # take (m - (k + 2)) (drop (b + (k + 2)) d)"
proof -
  have "drop (b + k) d = d ! (b + k) # d ! (b + k + 1) # drop (b + (k + 2)) d"
    using assms Cons_nth_drop_Suc [of "b + k" d] Cons_nth_drop_Suc [of "b + k + 1" d] by simp
  moreover have "m - k = Suc (Suc (m - (k + 2)))" using assms by simp
  ultimately show ?thesis by simp
qed

text \<open>The number of characters the loop consumes: the length rounded up to a pair.\<close>

definition consumed :: "u8_t \<Rightarrow> nat" where
  "consumed n = 2 * ((unat n + 1) div 2)"

lemma consumed_even: "even (unat n) \<Longrightarrow> consumed n = unat n"
  by (simp add: consumed_def)

lemma filter_loop_unescape:
  assumes "obd_wf ob" "unat (data_length ob) \<le> 254" "b + consumed (data_length ob) \<le> 256"
    and "even (unat i)" "unat i \<le> consumed (data_length ob)" "unat j \<le> unat i div 2"
    and "(consumed (data_length ob) - unat i) div 2 < fuel"
  shows "filter_loop fuel b i flag j ob =
    Done (ob\<lparr>hex := store (unat j) (unescape flag
      (take (consumed (data_length ob) - unat i) (drop (b + unat i) (data ob)))) (hex ob)\<rparr>)"
  using assms
proof (induction fuel arbitrary: i flag j ob)
  case 0
  then show ?case by simp
next
  case (Suc n)
  let ?m = "consumed (data_length ob)"
  have m: "?m \<le> 254" using Suc.prems(2) by (simp add: consumed_def)
  show ?case
  proof (cases "i < data_length ob")
    case False
    then have "unat (data_length ob) \<le> unat i" by (simp add: word_less_nat_alt)
    then have "?m - unat i = 0" using Suc.prems(4) by (auto simp: consumed_def elim!: evenE)
    with False show ?thesis by simp
  next
    case True
    then have lt: "unat i < unat (data_length ob)" by (simp add: word_less_nat_alt)
    then have i2: "unat i + 2 \<le> ?m" using Suc.prems(4) unfolding consumed_def by presburger
    have iw: "unat (i + 2) = unat i + 2" and jw: "unat (j + 1) = unat j + 1"
      using i2 m Suc.prems(6) unat_plus_small8 [of i 2] unat_plus_small8 [of j 1] by simp_all
    have le: "b + unat i + 1 < 256" using i2 Suc.prems(3) by linarith
    have split: "take (?m - unat i) (drop (b + unat i) (data ob)) =
        data ob ! (b + unat i) # data ob ! (b + unat i + 1)
        # take (?m - unat (i + 2)) (drop (b + unat (i + 2)) (data ob))"
      unfolding iw using Suc.prems(1,3) i2
      by (intro pair_at) (simp_all add: obd_wf_def BUF_SIZE_def)
    have rec: "filter_loop n b (i + 2) f k ob' = Done (ob'\<lparr>hex := store (unat k) (unescape f
        (take (?m - unat (i + 2)) (drop (b + unat (i + 2)) (data ob)))) (hex ob')\<rparr>)"
      if "ob' = ob \<or> (\<exists>l x. ob' = ob\<lparr>hex := (hex ob)[l := x]\<rparr>)" "unat k \<le> unat i div 2 + 1"
      for f k ob'
    proof -
      have o: "obd_wf ob'" "data_length ob' = data_length ob" "data ob' = data ob"
        using that(1) Suc.prems(1) by auto
      have e: "even (unat (i + 2))" using Suc.prems(4) by (simp add: iw)
      have l: "unat (i + 2) \<le> ?m" using i2 by (simp add: iw)
      have kk: "unat k \<le> unat (i + 2) div 2" using that(2) by (simp add: iw)
      have f': "(?m - unat (i + 2)) div 2 < n" unfolding iw using Suc.prems(7) i2 by linarith
      show ?thesis
        using Suc.IH [of ob' "i + 2" k f] o e l kk f' Suc.prems(2,3) by simp
    qed
    have j: "unat j \<le> unat i div 2 + 1" "unat (j + 1) \<le> unat i div 2 + 1"
      using Suc.prems(6) jw by simp_all
    have r1: "filter_loop n b (i + 2) f j ob = Done (ob\<lparr>hex := store (unat j) (unescape f
        (take (?m - unat (i + 2)) (drop (b + unat (i + 2)) (data ob)))) (hex ob)\<rparr>)" for f
      by (rule rec) (use j in auto)
    have r2: "filter_loop n b (i + 2) f (j + 1) (ob\<lparr>hex := (hex ob)[unat j := x]\<rparr>)
      = Done (ob\<lparr>hex := store (Suc (unat j)) (unescape f (take (?m - unat (i + 2))
          (drop (b + unat (i + 2)) (data ob)))) ((hex ob)[unat j := x])\<rparr>)" for f x
      using rec [of "ob\<lparr>hex := (hex ob)[unat j := x]\<rparr>" "j + 1" f] j(2) by (auto simp: jw)
    show ?thesis
      using True le Suc.prems(1) by (simp add: hex_pair_data split r1 r2)
  qed
qed

section \<open>Decoding against its specification\<close>

lemma filter_spec:
  assumes "obd_wf ob" "unat (data_length ob) \<le> 254" "128 \<le> fuel"
    and "strstr (obd_bytes ob) str_BB = Some (Some b)"
    and "strstr (obd_bytes ob) str_EE = Some (Some e)" "b \<le> e"
    and "b + consumed (data_length ob) \<le> 256"
    and "bs = unescape False (take (consumed (data_length ob)) (drop b (data ob)))"
  shows "OBD_filter_escape_and_transfer_to_hex fuel ob =
    Done (True, ob\<lparr>hex := bs @ drop (length bs) (hex ob)\<rparr>)"
proof -
  have c: "consumed (data_length ob) \<le> 254" using assms(2) by (simp add: consumed_def)
  have "length bs \<le> 127"
    using length_unescape [of False "take (consumed (data_length ob)) (drop b (data ob))"] c
    unfolding assms(8) by (simp add: min_def split: if_splits)
  then have "store 0 bs (hex ob) = bs @ drop (length bs) (hex ob)"
    using assms(1) by (simp add: store_eq obd_wf_def BUF_SIZE_def)
  moreover have "filter_loop fuel b 0 False 0 ob = Done (ob\<lparr>hex := store 0 bs (hex ob)\<rparr>)"
    using filter_loop_unescape [of ob b 0 0 fuel False] assms(1,2,3,7) c
    by (simp add: assms(8))
  ultimately show ?thesis using assms(4,5,6)
    by (simp add: OBD_filter_escape_and_transfer_to_hex_def)
qed

text \<open>A message as it arrives: the text, then zeroes up to the end of the buffers.\<close>

definition received :: "u8_t list \<Rightarrow> OBD_t" where
  "received txt = \<lparr>data = txt @ replicate (BUF_SIZE - length txt) 0, data_length = of_nat (length txt),
     hex = replicate BUF_SIZE 0, obd_id = 0\<rparr>"

lemma received_wf: "length txt \<le> BUF_SIZE \<Longrightarrow> obd_wf (received txt)"
  by (simp add: received_def obd_wf_def)

text \<open>The sender: the payload bytes that collide with the markers are escaped, the low digit
  standing for both.\<close>

definition esc :: "u8_t \<Rightarrow> u8_t list" where
  "esc b = (if b = 0xAA \<or> b = 0xBB \<or> b = 0xEE then enc_byte 0xAA @ enc_byte (b AND 15) else enc_byte b)"

definition frame :: "u8_t list \<Rightarrow> u8_t list" where
  "frame msg = enc_byte 0xBB @ concat (map esc msg) @ enc_byte 0xEE"

lemma hex_digit_BB: "enc_byte 0xBB = str_BB" and hex_digit_EE: "enc_byte 0xEE = str_EE"
  by (simp_all add: enc_byte_def hex_digit_def str_BB_def str_EE_def)

lemma unescape_enc: "b \<noteq> 0xAA \<Longrightarrow> unescape False (enc_byte b @ cs) = b # unescape False cs"
  by (simp add: enc_byte_def str2hex_enc)

lemma str2hex_twice:
  "b = 0xAA \<or> b = 0xBB \<or> b = 0xEE \<Longrightarrow> str2hex (hex_digit (b AND 15)) (hex_digit (b AND 15)) = b"
  by (auto simp: hex_digit_def str2hex_def asc2hex_def word_sle_eq word_sless_alt)

lemma unescape_esc: "unescape False (esc b @ cs) = b # unescape False cs"
proof (cases "b = 0xAA \<or> b = 0xBB \<or> b = 0xEE")
  case True
  have "unescape False (enc_byte 0xAA @ enc_byte (b AND 15) @ cs) = b # unescape False cs"
    using str2hex_enc [of "0xAA"] str2hex_twice [OF True]
    by (simp add: enc_byte_def and.assoc)
  with True show ?thesis by (auto simp: esc_def)
next
  case False
  then show ?thesis by (auto simp: esc_def unescape_enc)
qed

lemma unescape_escs: "unescape False (concat (map esc msg) @ cs) = msg @ unescape False cs"
  by (induction msg) (simp_all add: unescape_esc)

lemma unescape_frame: "unescape False (frame msg) = 0xBB # msg @ [0xEE]"
  using unescape_enc [of "0xEE" "[]"] by (simp add: frame_def unescape_enc unescape_escs)

lemma frame_nonzero: "0 \<notin> set (frame msg)"
  using enc_byte_nonzero by (auto simp: frame_def esc_def)

lemma even_frame: "even (length (frame msg))"
  by (induction msg) (auto simp: frame_def esc_def enc_byte_def)


lemma frame_recovered:
  assumes "length (frame msg) \<le> 254" "128 \<le> fuel"
  shows "\<exists>ob'. OBD_filter_escape_and_transfer_to_hex fuel ((received (frame msg))\<lparr>obd_id := c\<rparr>) = Done (True, ob')
    \<and> take (length msg + 2) (hex ob') = 0xBB # msg @ [0xEE]
    \<and> data ob' = data (received (frame msg))"
proof -
  let ?t = "frame msg" let ?ob = "(received ?t)\<lparr>obd_id := c\<rparr>"
  have len: "unat (data_length (received ?t)) = length ?t"
    using assms(1) by (simp add: received_def unat_of_nat)
  have cons: "consumed (data_length (received ?t)) = length ?t"
    using even_frame [of msg] by (simp add: consumed_even len)
  have wf: "obd_wf ?ob" using assms(1) using received_wf [of ?t] by (simp add: obd_wf_def BUF_SIZE_def)
  have shape: "obd_bytes ?ob = str_BB @ concat (map esc msg) @ str_EE @ drop (length ?t) (obd_bytes ?ob)"
    by (simp add: obd_bytes_def received_def frame_def hex_digit_BB hex_digit_EE)
  have bb: "strstr (obd_bytes ?ob) str_BB = Some (Some 0)"
    by (subst shape, intro strstr_at_start) (simp_all add: str_BB_def)
  have "0 \<notin> set (str_BB @ concat (map esc msg))"
    using frame_nonzero [of msg] by (auto simp: frame_def hex_digit_BB)
  from strstr_finds [OF this, of str_EE "drop (length ?t) (obd_bytes ?ob)"] shape
  obtain e where ee: "strstr (obd_bytes ?ob) str_EE = Some (Some e)" by auto
  have "take (length ?t) (drop 0 (data ?ob)) = ?t" by (simp add: received_def)
  then have "OBD_filter_escape_and_transfer_to_hex fuel ?ob =
      Done (True, ?ob\<lparr>hex := (0xBB # msg @ [0xEE]) @ drop (length (0xBB # msg @ [0xEE :: u8_t])) (hex ?ob)\<rparr>)"
    using filter_spec [OF wf _ assms(2) bb ee _ _ refl] assms(1) len
    by (simp add: cons unescape_frame)
  then show ?thesis by simp
qed

text \<open>
  C7. Round trip: any message, framed and escaped the way the protocol has it, is recovered byte for
  byte between its markers, for every text that fits the 8-bit length (at most 254 characters).
\<close>

theorem frame_roundtrip:
  assumes "length (frame msg) \<le> 254" "128 \<le> fuel"
  shows "\<exists>ob'. OBD_filter_escape_and_transfer_to_hex fuel (received (frame msg)) = Done (True, ob')
    \<and> take (length msg + 2) (hex ob') = 0xBB # msg @ [0xEE]
    \<and> data ob' = data (received (frame msg))"
proof -
  have "(received (frame msg))\<lparr>obd_id := 0\<rparr> = received (frame msg)" by (simp add: received_def)
  then show ?thesis using frame_recovered [OF assms, of 0] by auto
qed


lemma frame_roundtrip_witness:
  "\<exists>ob'. OBD_filter_escape_and_transfer_to_hex 128 (received (frame [0x02, 0xAA, 0xEE])) = Done (True, ob')
    \<and> take (length [0x02, 0xAA, 0xEE :: u8_t] + 2) (hex ob') = 0xBB # [0x02, 0xAA, 0xEE] @ [0xEE]
    \<and> data ob' = data (received (frame [0x02, 0xAA, 0xEE]))"
  by (rule frame_roundtrip) (simp_all add: frame_def esc_def enc_byte_def)

section \<open>Termination\<close>

lemma filter_loop_ends:
  assumes "data_length ob \<noteq> 255" "even (unat i)" "(256 - unat i) div 2 < fuel"
  shows "filter_loop fuel b i flag j ob \<noteq> OutOfFuel"
  using assms
proof (induction fuel arbitrary: i flag j ob)
  case 0
  then show ?case by simp
next
  case (Suc n)
  show ?case
  proof (cases "i < data_length ob")
    case True
    have "word_of_nat (unat (data_length ob)) = data_length ob" by simp
    then have "unat (data_length ob) \<noteq> 255" using Suc.prems(1) by (metis of_nat_numeral)
    then have "unat i < 254" using True unat_word8_le [of "data_length ob"]
      unfolding word_less_nat_alt by linarith
    then have iw: "unat (i + 2) = unat i + 2" using unat_plus_small8 [of i 2] by simp
    have ih: "filter_loop n b (i + 2) f k ob' \<noteq> OutOfFuel" if "data_length ob' = data_length ob" for f k ob'
    proof -
      have "(256 - unat (i + 2)) div 2 < n" using Suc.prems(3) \<open>unat i < 254\<close> unfolding iw by linarith
      then show ?thesis using Suc.IH [of ob' "i + 2" f k] Suc.prems(1,2) iw that by simp
    qed
    show ?thesis using True by (auto simp: ih split: option.splits)
  next
    case False
    then show ?thesis by simp
  qed
qed

text \<open>
  C39. The decoding loop ends for every message whose length byte is not 255, whatever the buffer
  holds: 129 rounds are enough, because the 8-bit index reaches the length before it wraps.
\<close>

theorem filter_terminates:
  assumes "data_length ob \<noteq> 255" "129 \<le> fuel"
  shows "OBD_filter_escape_and_transfer_to_hex fuel ob \<noteq> OutOfFuel"
proof -
  have "filter_loop fuel b 0 False 0 ob \<noteq> OutOfFuel" for b
    using filter_loop_ends [of ob 0 fuel] assms by simp
  then show ?thesis
    by (auto simp: OBD_filter_escape_and_transfer_to_hex_def split: option.splits run.splits)
qed

lemma filter_terminates_witness:
  "OBD_filter_escape_and_transfer_to_hex 129 (received [66, 66, 48, 49, 69, 69]) \<noteq> OutOfFuel"
  by (rule filter_terminates) (simp_all add: received_def)

text \<open>With the length byte 255 the index goes from 254 to 0: it is never at or above the length.\<close>

lemma filter_loop_runs_on:
  assumes "obd_wf ob" "data_length ob = 255" "b \<le> 258" "even (unat i)"
  shows "filter_loop fuel b i flag j ob = OutOfFuel"
  using assms
proof (induction fuel arbitrary: i flag j ob)
  case 0
  then show ?case by simp
next
  case (Suc n)
  have ne: "unat i \<noteq> 255" using Suc.prems(4) by auto
  then have "unat i < 255" using unat_word8_le [of i] by linarith
  then have lt: "i < data_length ob" using Suc.prems(2) by (simp add: word_less_nat_alt)
  have ev: "even (unat (i + 2))"
    using Suc.prems(4) by (simp add: unat_word_ariths dvd_mod)
  have ih: "filter_loop n b (i + 2) f k ob' = OutOfFuel"
    if "obd_wf ob'" "data_length ob' = data_length ob" for f k ob'
    using Suc.IH [of ob' "i + 2" f k] Suc.prems ev that by simp
  have "b + unat i + 1 < 514" using Suc.prems(3) \<open>unat i < 255\<close> by linarith
  then obtain x y where "hex_pair ob (b + unat i) (b + unat i + 1) = Some x"
    "hex_pair ob (b + unat i + 1) (b + unat i + 1) = Some y"
    using hex_pair_Some [OF Suc.prems(1), of "b + unat i" "b + unat i + 1"]
      hex_pair_Some [OF Suc.prems(1), of "b + unat i + 1" "b + unat i + 1"] by auto
  with lt Suc.prems(1) show ?case by (simp add: ih)
qed


definition full_text :: "u8_t list" where
  "full_text = 66 # 66 # 69 # 69 # replicate 251 49"


section \<open>The checksum\<close>

lemma check_sum_empty: "check_sum_loop (Suc n) b 0 0 flag acc ob = Done acc"
  by simp

text \<open>
  \<open>OBD_check_sum\<close> does not look at the payload: \<open>len\<close> is 0, so the sum is 0, and the answer is
  whether the two characters before the first "EE" stand for the byte 0.
\<close>

theorem check_sum_ignores_payload:
  assumes "strstr (obd_bytes ob) str_BB = Some (Some b)"
    and "strstr (obd_bytes ob) str_EE = Some (Some e)" "b + 2 \<le> e" "0 < fuel"
  shows "OBD_check_sum fuel ob = Done (the (hex_pair ob (e - 2) (e - 1)) = 0)"
proof -
  obtain n where n: "fuel = Suc n" using assms(4) by (cases fuel) auto
  have "e < length (obd_bytes ob)" using strstr_found_bounds [OF assms(2)] by (simp add: str_EE_def)
  then obtain x where x: "hex_pair ob (e - 2) (e - 1) = Some x"
    by (simp add: hex_pair_def obd_byte_def less_imp_diff_less)
  show ?thesis using assms(1,2,3) x by (simp add: OBD_check_sum_def n)
qed

lemma check_sum_ignores_payload_witness:
  "OBD_check_sum 1 (received [66, 66, 48, 49, 48, 48, 69, 69]) = Done True"
  using check_sum_ignores_payload [of "received [66, 66, 48, 49, 48, 48, 69, 69]" 0 6 1]
  by (simp add: received_def BUF_SIZE_def str_BB_def str_EE_def obd_bytes_def
      hex_pair_def obd_byte_def str2hex_def asc2hex_def word_sle_eq word_sless_alt)

text \<open>
  A message with an opening "BB" and no "EE" makes \<open>OBD_check_sum\<close> read through the null pointer
  minus 2: the test for a missing end does not catch it.
\<close>

theorem check_sum_faults_without_end:
  assumes "strstr (obd_bytes ob) str_BB = Some (Some b)" "strstr (obd_bytes ob) str_EE = Some None"
    and "0 < fuel"
  shows "OBD_check_sum fuel ob = Fault"
proof -
  obtain n where "fuel = Suc n" using assms(3) by (cases fuel) auto
  then show ?thesis using assms(1,2) by (simp add: OBD_check_sum_def)
qed

lemma strstr_zeros:
  "0 < n \<Longrightarrow> needle \<noteq> [] \<Longrightarrow> hd needle \<noteq> 0 \<Longrightarrow> strstr (replicate n 0 @ m) needle = Some None"
  by (cases n; cases needle) auto

lemma check_sum_faults_without_end_witness: "OBD_check_sum 1 (received [66, 66, 48]) = Fault"
  by (rule check_sum_faults_without_end [where b = 0])
    (simp_all add: received_def BUF_SIZE_def str_BB_def str_EE_def obd_bytes_def strstr_zeros)

section \<open>Reading the identifier\<close>

lemma cmd02_id_offset: "offsetof cmd02_t [''head'', ''id''] = Some (2, Arr U8 4)"
  by code_simp

text \<open>
  The identifier that \<open>OBD_decode\<close> reports for a \<open>CMD0x02\<close> message is bytes 2 to 5 of the decoded
  frame: the start marker and the command come first; any other command reports nothing.
\<close>

theorem decode_reads_id:
  assumes "take 6 (hex ob) = [0xBB, c, ia, ib, ic, iz]"
  shows "OBD_decode ob = (if c = 0x02 then [ia, ib, ic, iz] else [])"
proof -
  have nth: "hex ob ! k = [0xBB, c, ia, ib, ic, iz] ! k" if "k < 6" for k
    using that assms nth_take [of k 6 "hex ob"] by simp
  show ?thesis
    using nth [of 1] nth [of 2] nth [of 3] nth [of 4] nth [of 5]
    by (simp add: OBD_decode_def CMD0x02_def cmd02_id_offset upt_rec eval_nat_numeral)
qed

lemma decode_reads_id_witness:
  "OBD_decode ((received [])\<lparr>hex := [0xBB, 0x02, 1, 2, 3, 4] @ replicate 250 0\<rparr>) = [1, 2, 3, 4]"
  using decode_reads_id [where ob = "(received [])\<lparr>hex := [0xBB, 0x02, 1, 2, 3, 4] @ replicate 250 0\<rparr>"
      and c = "0x02" and ia = 1 and ib = 2 and ic = 3 and iz = 4]
  by simp

text \<open>
  Text conversion: the two hex digits of every byte, in upper or in lower case, are read back as
  that byte.
\<close>

theorem str2hex_roundtrip:
  "str2hex (hex_digit (drop_bit 4 b)) (hex_digit (b AND 15)) = b
   \<and> str2hex (hex_digit_lower (drop_bit 4 b)) (hex_digit_lower (b AND 15)) = b"
  by (simp add: str2hex_def high_nibble_lt low_nibble_lt nibbles_join)

end
