(* ===== verification/ThreadPool.thy ===== *)
theory ThreadPool
  imports Prelude
begin

text \<open>
  \<open>threadpool/threadpool.c\<close> and \<open>threadpool.h\<close>: a pool of worker threads that take tasks from a
  bounded ring.  The functions are translated with the return codes of the \<open>pthread\<close> calls and the
  outcomes of \<open>malloc\<close> as parameters; \<open>int\<close> members are unbounded integers (the largest value
  computed is \<open>tail + 1\<close>, at most \<open>queue_size\<close>).  The workers' loop is a step relation: one program
  counter per worker, the owner of the lock, and the calls of the clients as steps of their own.
\<close>

section \<open>Types\<close>

text \<open>\<open>threadpool_error_t\<close>, \<open>threadpool_destroy_flags_t\<close>, \<open>threadpool_shutdown_t\<close>.\<close>

definition threadpool_invalid :: int where "threadpool_invalid = -1"
definition threadpool_lock_failure :: int where "threadpool_lock_failure = -2"
definition threadpool_queue_full :: int where "threadpool_queue_full = -3"
definition threadpool_shutdown :: int where "threadpool_shutdown = -4"
definition threadpool_thread_failure :: int where "threadpool_thread_failure = -5"
definition threadpool_graceful :: int where "threadpool_graceful = 1"
definition immediate_shutdown :: int where "immediate_shutdown = 1"
definition graceful_shutdown :: int where "graceful_shutdown = 2"

lemmas tp_codes = threadpool_invalid_def threadpool_lock_failure_def threadpool_queue_full_def
  threadpool_shutdown_def threadpool_thread_failure_def threadpool_graceful_def
  immediate_shutdown_def graceful_shutdown_def

text \<open>A task: a function pointer and its argument, as addresses (0 is \<open>NULL\<close>).\<close>

record threadpool_task_t =
  task_function :: nat
  task_argument :: nat

record threadpool_t =
  tp_threads :: bool
  tp_queue :: "threadpool_task_t list option"
  thread_count :: int
  queue_size :: int
  tp_head :: int
  tp_tail :: int
  tp_count :: int
  shutdown :: int
  started :: int

text \<open>Return codes of the \<open>pthread\<close> calls.\<close>

record pthread_rc =
  rc_lock :: int
  rc_unlock :: int
  rc_signal :: int
  rc_broadcast :: int
  rc_join :: "nat \<Rightarrow> int"
  rc_create :: "nat \<Rightarrow> int"
  rc_mutex_init :: int
  rc_cond_init :: int

definition rc_ok :: pthread_rc where
  "rc_ok = \<lparr>rc_lock = 0, rc_unlock = 0, rc_signal = 0, rc_broadcast = 0, rc_join = (\<lambda>_. 0),
     rc_create = (\<lambda>_. 0), rc_mutex_init = 0, rc_cond_init = 0\<rparr>"

section \<open>Adding and taking tasks\<close>

definition task_put :: "threadpool_task_t \<Rightarrow> threadpool_t \<Rightarrow> threadpool_t" where
  "task_put t p =
     (let n = tp_tail p + 1; n = (if n = queue_size p then 0 else n) in
      p\<lparr>tp_queue := map_option (\<lambda>q. q[nat (tp_tail p) := t]) (tp_queue p),
        tp_tail := n, tp_count := tp_count p + 1\<rparr>)"

definition threadpool_add ::
    "pthread_rc \<Rightarrow> threadpool_t option \<Rightarrow> nat \<Rightarrow> nat \<Rightarrow> int \<times> threadpool_t option" where
  "threadpool_add rc pool fn arg =
     (case pool of None \<Rightarrow> (threadpool_invalid, None) | Some p \<Rightarrow>
        if fn = 0 then (threadpool_invalid, pool)
        else if rc_lock rc \<noteq> 0 then (threadpool_lock_failure, pool)
        else
          let (err, p') =
            (if tp_count p = queue_size p then (threadpool_queue_full, p)
             else if shutdown p \<noteq> 0 then (threadpool_shutdown, p)
             else let p1 = task_put \<lparr>task_function = fn, task_argument = arg\<rparr> p in
                  (if rc_signal rc \<noteq> 0 then threadpool_lock_failure else 0, p1))
          in (if rc_unlock rc \<noteq> 0 then threadpool_lock_failure else err, Some p'))"

text \<open>What a worker does between the tests and the unlock.\<close>

definition task_take :: "threadpool_t \<Rightarrow> threadpool_task_t \<times> threadpool_t" where
  "task_take p =
     (let h = tp_head p + 1; h = (if h = queue_size p then 0 else h) in
      (the (tp_queue p) ! nat (tp_head p), p\<lparr>tp_head := h, tp_count := tp_count p - 1\<rparr>))"

section \<open>Creating and destroying\<close>

datatype tp_obj = PoolObj | ThreadsObj | QueueObj

text \<open>The objects a pool holds.\<close>

definition tp_objs :: "threadpool_t \<Rightarrow> tp_obj set" where
  "tp_objs p = insert PoolObj ((if tp_threads p then {ThreadsObj} else {})
     \<union> (if tp_queue p \<noteq> None then {QueueObj} else {}))"

text \<open>\<open>threadpool_free\<close>: the return code and the objects freed.\<close>

definition threadpool_free :: "threadpool_t option \<Rightarrow> int \<times> tp_obj set" where
  "threadpool_free pool =
     (case pool of None \<Rightarrow> (-1, {}) | Some p \<Rightarrow>
        if started p > 0 then (-1, {})
        else (0, insert PoolObj (if tp_threads p
          then insert ThreadsObj (if tp_queue p \<noteq> None then {QueueObj} else {}) else {})))"

text \<open>
  \<open>threadpool_destroy\<close> up to its joins: the error code, the pool, and whether the caller returns
  with the lock held: the breaks leave the block without an unlock.
\<close>

definition destroy_enter :: "pthread_rc \<Rightarrow> threadpool_t \<Rightarrow> int \<Rightarrow> int \<times> threadpool_t \<times> bool" where
  "destroy_enter rc p flags =
     (if shutdown p \<noteq> 0 then (threadpool_shutdown, p, True)
      else let p' = p\<lparr>shutdown :=
             (if flags AND threadpool_graceful \<noteq> 0 then graceful_shutdown else immediate_shutdown)\<rparr>
      in if rc_broadcast rc \<noteq> 0 then (threadpool_lock_failure, p', True)
         else if rc_unlock rc \<noteq> 0 then (threadpool_lock_failure, p', True)
         else (0, p', False))"

fun join_loop :: "(nat \<Rightarrow> int) \<Rightarrow> nat \<Rightarrow> int \<Rightarrow> int" where
  "join_loop rc 0 err = err"
| "join_loop rc (Suc n) err =
     (let e = join_loop rc n err in if rc n \<noteq> 0 then threadpool_thread_failure else e)"

text \<open>
  The whole call.  \<open>workers\<close> is what the worker threads do to the pool while the caller joins them.
  The result: the error code, the pool (\<open>None\<close> when its memory is freed), whether the lock is still
  held, and the objects freed.
\<close>

definition threadpool_destroy ::
    "pthread_rc \<Rightarrow> (threadpool_t \<Rightarrow> threadpool_t) \<Rightarrow> threadpool_t option \<Rightarrow> int
      \<Rightarrow> int \<times> threadpool_t option \<times> bool \<times> tp_obj set" where
  "threadpool_destroy rc workers pool flags =
     (case pool of None \<Rightarrow> (threadpool_invalid, None, False, {}) | Some p \<Rightarrow>
        if rc_lock rc \<noteq> 0 then (threadpool_lock_failure, pool, False, {})
        else (case destroy_enter rc p flags of (err, p1, held) \<Rightarrow>
          if err \<noteq> 0 then (err, Some p1, held, {})
          else
            let p2 = workers p1; err = join_loop (rc_join rc) (nat (thread_count p2)) 0 in
            if err \<noteq> 0 then (err, Some p2, False, {})
            else (case threadpool_free (Some p2) of (r, fr) \<Rightarrow>
              (0, (if r = 0 then None else Some p2), False, fr))))"

fun create_loop :: "(nat \<Rightarrow> int) \<Rightarrow> nat \<Rightarrow> nat \<Rightarrow> threadpool_t \<Rightarrow> bool \<times> threadpool_t" where
  "create_loop rc i 0 p = (True, p)"
| "create_loop rc i (Suc n) p =
     (if rc i \<noteq> 0 then (False, p)
      else create_loop rc (Suc i) n (p\<lparr>thread_count := thread_count p + 1, started := started p + 1\<rparr>))"

text \<open>
  \<open>threadpool_create\<close>: the three flags are the outcomes of the \<open>malloc\<close> calls.  The result: the
  pool returned and the objects still allocated afterwards.
\<close>

definition threadpool_create ::
    "pthread_rc \<Rightarrow> (threadpool_t \<Rightarrow> threadpool_t) \<Rightarrow> bool \<Rightarrow> bool \<Rightarrow> bool \<Rightarrow> int \<Rightarrow> int
      \<Rightarrow> threadpool_t option \<times> tp_obj set" where
  "threadpool_create rc workers m_pool m_threads m_queue tc qs =
     (if \<not> m_pool then (None, {})
      else
        let p = \<lparr>tp_threads = m_threads,
                 tp_queue = (if m_queue then Some (replicate (nat qs) \<lparr>task_function = 0, task_argument = 0\<rparr>)
                             else None),
                 thread_count = 0, queue_size = qs, tp_head = 0, tp_tail = 0, tp_count = 0,
                 shutdown = 0, started = 0\<rparr>
        in if rc_mutex_init rc \<noteq> 0 \<or> rc_cond_init rc \<noteq> 0 \<or> \<not> m_threads \<or> \<not> m_queue
           then (None, tp_objs p - snd (threadpool_free (Some p)))
           else (case create_loop (rc_create rc) 0 (nat tc) p of (ok, p') \<Rightarrow>
             if ok then (Some p', tp_objs p')
             else (case threadpool_destroy rc workers (Some p') 0 of (_, _, _, fr) \<Rightarrow>
               (None, tp_objs p' - fr))))"

section \<open>The ring is a queue\<close>

text \<open>The queued tasks, oldest first.\<close>

definition tp_tasks :: "threadpool_t \<Rightarrow> threadpool_task_t list" where
  "tp_tasks p = map (\<lambda>k. the (tp_queue p) ! nat ((tp_head p + int k) mod queue_size p)) [0..<nat (tp_count p)]"

definition tp_ok :: "threadpool_t \<Rightarrow> bool" where
  "tp_ok p \<longleftrightarrow> (\<exists>q. tp_queue p = Some q \<and> int (length q) = queue_size p)
     \<and> 0 < queue_size p \<and> 0 \<le> tp_head p \<and> tp_head p < queue_size p
     \<and> 0 \<le> tp_count p \<and> tp_count p \<le> queue_size p
     \<and> tp_tail p = (tp_head p + tp_count p) mod queue_size p"

definition tp_fits :: "threadpool_task_t \<Rightarrow> threadpool_t \<Rightarrow> bool" where
  "tp_fits t p \<longleftrightarrow> tp_count p < queue_size p"

lemma length_tp_tasks [simp]: "length (tp_tasks p) = nat (tp_count p)"
  by (simp add: tp_tasks_def)

lemma tp_tasks_cong:
  "tp_queue p' = tp_queue p \<Longrightarrow> tp_head p' = tp_head p \<Longrightarrow> queue_size p' = queue_size p \<Longrightarrow>
     tp_count p' = tp_count p \<Longrightarrow> tp_tasks p' = tp_tasks p"
  by (simp add: tp_tasks_def)

lemma wrap_succ: "0 \<le> x \<Longrightarrow> x < n \<Longrightarrow> (if x + 1 = n then 0 else x + 1) = (x + 1) mod (n :: int)"
  by auto

lemma ring_distinct:
  assumes "0 \<le> j" "j < c" "c < (n :: int)"
  shows "(h + j) mod n \<noteq> (h + c) mod n"
proof
  assume "(h + j) mod n = (h + c) mod n"
  then have "n dvd (h + c) - (h + j)" by (metis mod_eq_dvd_iff)
  then have "n dvd c - j" by simp
  with assms show False by (auto dest: zdvd_imp_le)
qed

lemma task_put_ok:
  assumes "tp_ok p" "tp_fits t p"
  shows "tp_ok (task_put t p) \<and> tp_tasks (task_put t p) = tp_tasks p @ [t]"
proof -
  obtain q where q: "tp_queue p = Some q" "int (length q) = queue_size p" using assms(1) by (auto simp: tp_ok_def)
  let ?n = "queue_size p" let ?c = "tp_count p" let ?h = "tp_head p"
  have b: "0 < ?n" "0 \<le> ?c" "?c < ?n" "tp_tail p = (?h + ?c) mod ?n"
    using assms by (auto simp: tp_ok_def tp_fits_def)
  have t: "0 \<le> tp_tail p" "tp_tail p < ?n" using b by simp_all
  have tl: "(if tp_tail p + 1 = ?n then 0 else tp_tail p + 1) = (?h + (?c + 1)) mod ?n"
    using wrap_succ [OF t] b(4) by (simp add: mod_add_left_eq add.assoc)
  have ok: "tp_ok (task_put t p)"
    using assms q b tl by (auto simp: tp_ok_def task_put_def Let_def)
  have old: "q[nat (tp_tail p) := t] ! nat ((?h + int k) mod ?n) = q ! nat ((?h + int k) mod ?n)"
    if "k < nat ?c" for k
  proof -
    have "(?h + int k) mod ?n \<noteq> tp_tail p" unfolding b(4) using ring_distinct [of "int k" ?c ?n ?h] that b by simp
    moreover have "0 \<le> (?h + int k) mod ?n" using b(1) by simp
    ultimately have "nat (tp_tail p) \<noteq> nat ((?h + int k) mod ?n)" using t by (simp add: nat_eq_iff)
    then show ?thesis by simp
  qed
  have new: "q[nat (tp_tail p) := t] ! nat ((?h + ?c) mod ?n) = t"
    using b t q(2) by (simp add: nat_less_iff)
  have "nat (?c + 1) = Suc (nat ?c)" using b by simp
  then show ?thesis
    using ok old new q(1) b(2) by (simp add: task_put_def tp_tasks_def Let_def)
qed

lemma task_take_ok:
  assumes "tp_ok p" "tp_tasks p \<noteq> []"
  shows "tp_ok (snd (task_take p)) \<and> fst (task_take p) = hd (tp_tasks p)
    \<and> tp_tasks (snd (task_take p)) = tl (tp_tasks p)"
proof -
  let ?n = "queue_size p" let ?c = "tp_count p" let ?h = "tp_head p"
  have c: "0 < ?c" using assms(2) by (auto simp: tp_tasks_def)
  have b: "0 < ?n" "0 \<le> ?h" "?h < ?n" using assms(1) by (auto simp: tp_ok_def)
  have h: "(if ?h + 1 = ?n then 0 else ?h + 1) = (?h + 1) mod ?n" using wrap_succ [OF b(2,3)] .
  have tl: "tp_tail p = ((?h + 1) mod ?n + (?c - 1)) mod ?n"
    using assms(1) by (simp add: tp_ok_def mod_add_left_eq)
  have ok: "tp_ok (snd (task_take p))"
    unfolding task_take_def Let_def h using assms(1) b c tl by (auto simp: tp_ok_def)
  have n: "nat ?c = Suc (nat (?c - 1))" using c by simp
  have ts: "tp_tasks p = the (tp_queue p) ! nat ?h
      # map (\<lambda>k. the (tp_queue p) ! nat ((?h + int (Suc k)) mod ?n)) [0..<nat (?c - 1)]"
    unfolding tp_tasks_def n map_upt_Suc using b by simp
  have "tp_tasks (snd (task_take p)) =
      map (\<lambda>k. the (tp_queue p) ! nat ((?h + int (Suc k)) mod ?n)) [0..<nat (?c - 1)]"
    unfolding task_take_def Let_def h by (simp add: tp_tasks_def mod_add_left_eq add.assoc)
  moreover have "fst (task_take p) = the (tp_queue p) ! nat ?h" by (simp add: task_take_def Let_def)
  ultimately show ?thesis using ok ts by simp
qed

interpretation ring: fifo_queue tp_ok tp_tasks tp_fits task_put task_take
  by unfold_locales (simp_all add: task_put_ok task_take_ok)

section \<open>The workers as a step relation\<close>

text \<open>
  Where a worker of \<open>threadpool_thread\<close> is: before the lock of an iteration, at the \<open>while\<close> test (it
  holds the lock), in \<open>pthread_cond_wait\<close>, woken up and waiting for the lock again, behind the
  \<open>while\<close> (lock held), at work on a task (lock released), behind the \<open>break\<close> (lock held), ended.
\<close>

datatype worker_pc = W_Lock | W_While | W_Wait | W_Relock | W_Test | W_Run threadpool_task_t | W_Exit | W_Done

datatype tid = Worker nat | Destroyer

record tp_sys =
  pool :: threadpool_t
  owner :: "tid option"
  pcs :: "worker_pc list"
  joining :: "nat option"
  released :: bool
  accepted :: "threadpool_task_t list"
  taken :: "threadpool_task_t list"

text \<open>\<open>pthread_cond_signal\<close> wakes one waiting thread when there is one; a broadcast wakes them all.\<close>

definition signalled :: "worker_pc list \<Rightarrow> worker_pc list \<Rightarrow> bool" where
  "signalled ws ws' \<longleftrightarrow>
     (W_Wait \<notin> set ws \<and> ws' = ws) \<or> (\<exists>k < length ws. ws ! k = W_Wait \<and> ws' = ws[k := W_Relock])"

definition broadcast :: "worker_pc list \<Rightarrow> worker_pc list" where
  "broadcast ws = map (\<lambda>w. if w = W_Wait then W_Relock else w) ws"

text \<open>
  One iteration of a worker between two points where others can interfere: the new place, the pool,
  and the task it takes.  The places that hold the lock are the arguments of \<open>worker_locked\<close>.
\<close>

definition worker_locked ::
    "worker_pc \<Rightarrow> threadpool_t \<Rightarrow> worker_pc \<times> threadpool_t \<times> threadpool_task_t list" where
  "worker_locked w p =
     (case w of
        W_While \<Rightarrow> (if tp_count p = 0 \<and> shutdown p = 0 then W_Wait else W_Test, p, [])
      | W_Test \<Rightarrow>
          (if shutdown p = immediate_shutdown \<or> shutdown p = graceful_shutdown \<and> tp_count p = 0
           then (W_Exit, p, [])
           else (case task_take p of (t, p') \<Rightarrow> (W_Run t, p', [t])))
      | W_Exit \<Rightarrow> (W_Done, p\<lparr>started := started p - 1\<rparr>, [])
      | _ \<Rightarrow> (w, p, []))"

definition holds_lock :: "worker_pc \<Rightarrow> bool" where
  "holds_lock w \<longleftrightarrow> w = W_While \<or> w = W_Test \<or> w = W_Exit"

inductive tp_step :: "tp_sys \<Rightarrow> tp_sys \<Rightarrow> bool" where
  Add: "threadpool_add rc_ok (Some (pool s)) fn arg = (0, Some p') \<Longrightarrow> owner s = None \<Longrightarrow> \<not> released s \<Longrightarrow>
     signalled (pcs s) ws \<Longrightarrow>
     tp_step s (s\<lparr>pool := p', pcs := ws,
       accepted := accepted s @ [\<lparr>task_function = fn, task_argument = arg\<rparr>]\<rparr>)"
| Refuse: "threadpool_add rc_ok (Some (pool s)) fn arg = (err, Some p') \<Longrightarrow> err \<noteq> 0 \<Longrightarrow> owner s = None \<Longrightarrow>
     \<not> released s \<Longrightarrow> tp_step s (s\<lparr>pool := p'\<rparr>)"
| Acquire: "k < length (pcs s) \<Longrightarrow> pcs s ! k = W_Lock \<or> pcs s ! k = W_Relock \<Longrightarrow> owner s = None \<Longrightarrow>
     tp_step s (s\<lparr>owner := Some (Worker k), pcs := (pcs s)[k := W_While]\<rparr>)"
| Locked: "k < length (pcs s) \<Longrightarrow> holds_lock (pcs s ! k) \<Longrightarrow> owner s = Some (Worker k) \<Longrightarrow>
     worker_locked (pcs s ! k) (pool s) = (w, p', ts) \<Longrightarrow>
     tp_step s (s\<lparr>pool := p', owner := (if holds_lock w then Some (Worker k) else None),
       pcs := (pcs s)[k := w], taken := taken s @ ts\<rparr>)"
| Spurious: "k < length (pcs s) \<Longrightarrow> pcs s ! k = W_Wait \<Longrightarrow> tp_step s (s\<lparr>pcs := (pcs s)[k := W_Relock]\<rparr>)"
| Finish: "k < length (pcs s) \<Longrightarrow> pcs s ! k = W_Run t \<Longrightarrow> tp_step s (s\<lparr>pcs := (pcs s)[k := W_Lock]\<rparr>)"
| Destroy: "destroy_enter rc_ok (pool s) flags = (err, p', held) \<Longrightarrow> owner s = None \<Longrightarrow> \<not> released s \<Longrightarrow>
     tp_step s (s\<lparr>pool := p', owner := (if held then Some Destroyer else None),
       pcs := (if err = 0 then broadcast (pcs s) else pcs s),
       joining := (if err = 0 then Some 0 else joining s)\<rparr>)"
| Join: "joining s = Some k \<Longrightarrow> int k < thread_count (pool s) \<Longrightarrow> pcs s ! k = W_Done \<Longrightarrow>
     tp_step s (s\<lparr>joining := Some (Suc k)\<rparr>)"
| Free_pool: "joining s = Some k \<Longrightarrow> int k = thread_count (pool s) \<Longrightarrow> \<not> released s \<Longrightarrow>
     threadpool_free (Some (pool s)) = (0, fr) \<Longrightarrow> tp_step s (s\<lparr>released := True\<rparr>)"

text \<open>The state that \<open>threadpool_create\<close> hands out.\<close>

definition tp_start :: "int \<Rightarrow> int \<Rightarrow> tp_sys" where
  "tp_start tc qs =
     \<lparr>pool = the (fst (threadpool_create rc_ok id True True True tc qs)), owner = None,
      pcs = replicate (nat tc) W_Lock, joining = None, released = False, accepted = [], taken = []\<rparr>"

inductive tp_reach :: "tp_sys \<Rightarrow> tp_sys \<Rightarrow> bool" for s0 where
  reach_start: "tp_reach s0 s0"
| reach_step: "tp_reach s0 s \<Longrightarrow> tp_step s s' \<Longrightarrow> tp_reach s0 s'"

section \<open>Create and free\<close>

lemma create_loop_ok:
  "(\<forall>k < n. rc (i + k) = 0) \<Longrightarrow>
     create_loop rc i n p = (True, p\<lparr>thread_count := thread_count p + int n, started := started p + int n\<rparr>)"
proof (induction n arbitrary: i p)
  case 0
  then show ?case by simp
next
  case (Suc n)
  have "rc i = 0" using Suc.prems by (metis add_0_right zero_less_Suc)
  moreover have "\<forall>k < n. rc (Suc i + k) = 0" using Suc.prems by (metis Suc_less_eq add_Suc_shift)
  ultimately show ?case using Suc.IH [of "Suc i"] by (simp add: algebra_simps)
qed

lemma join_loop_ok: "(\<forall>k < n. rc k = 0) \<Longrightarrow> join_loop rc n err = err"
  by (induction n) (auto simp: Let_def)

lemma create_result:
  assumes "0 < qs"
  shows "threadpool_create rc_ok workers True True True tc qs =
    (Some \<lparr>tp_threads = True, tp_queue = Some (replicate (nat qs) \<lparr>task_function = 0, task_argument = 0\<rparr>),
       thread_count = int (nat tc), queue_size = qs, tp_head = 0, tp_tail = 0, tp_count = 0, shutdown = 0,
       started = int (nat tc)\<rparr>, {PoolObj, ThreadsObj, QueueObj})"
  using assms by (auto simp: threadpool_create_def rc_ok_def create_loop_ok tp_objs_def)

section \<open>The invariant\<close>

definition alive :: "worker_pc \<Rightarrow> bool" where "alive w \<longleftrightarrow> w \<noteq> W_Done"

definition contending :: "worker_pc \<Rightarrow> bool" where
  "contending w \<longleftrightarrow> w = W_Relock \<or> w = W_While \<or> w = W_Test"

text \<open>The ring is well formed; mutual exclusion; \<open>started\<close> counts the live workers.\<close>

definition inv_pool :: "tp_sys \<Rightarrow> bool" where
  "inv_pool s \<longleftrightarrow> tp_ok (pool s) \<and> thread_count (pool s) = int (length (pcs s))
     \<and> shutdown (pool s) \<in> {0, immediate_shutdown, graceful_shutdown}"

definition inv_lock :: "tp_sys \<Rightarrow> bool" where
  "inv_lock s \<longleftrightarrow> (\<forall>k < length (pcs s). holds_lock (pcs s ! k) \<longleftrightarrow> owner s = Some (Worker k))
     \<and> (\<forall>k. owner s = Some (Worker k) \<longrightarrow> k < length (pcs s))"

definition inv_started :: "tp_sys \<Rightarrow> bool" where
  "inv_started s \<longleftrightarrow> started (pool s) = int (length (filter alive (pcs s)))"

text \<open>Every accepted task is taken or queued, in the order of acceptance.\<close>

definition inv_fifo :: "tp_sys \<Rightarrow> bool" where
  "inv_fifo s \<longleftrightarrow> accepted s = taken s @ tp_tasks (pool s)"

text \<open>Workers end only after a shutdown; after a graceful one only when the queue is empty.\<close>

definition inv_shut :: "tp_sys \<Rightarrow> bool" where
  "inv_shut s \<longleftrightarrow>
     (shutdown (pool s) = 0 \<longrightarrow> W_Exit \<notin> set (pcs s) \<and> W_Done \<notin> set (pcs s))
   \<and> (shutdown (pool s) = graceful_shutdown \<and> (W_Exit \<in> set (pcs s) \<or> W_Done \<in> set (pcs s))
        \<longrightarrow> tp_count (pool s) = 0)
   \<and> (W_Test \<in> set (pcs s) \<longrightarrow> tp_count (pool s) \<noteq> 0 \<or> shutdown (pool s) \<noteq> 0)"

text \<open>No wake-up is lost: when a worker waits, every queued task has a worker contending for it.\<close>

definition inv_wake :: "tp_sys \<Rightarrow> bool" where
  "inv_wake s \<longleftrightarrow> (shutdown (pool s) \<noteq> 0 \<longrightarrow> W_Wait \<notin> set (pcs s))
   \<and> (W_Wait \<in> set (pcs s) \<longrightarrow> tp_count (pool s) \<le> int (length (filter contending (pcs s))))"

definition inv_join :: "tp_sys \<Rightarrow> bool" where
  "inv_join s \<longleftrightarrow> (\<forall>k. joining s = Some k \<longrightarrow> shutdown (pool s) \<noteq> 0 \<and> k \<le> length (pcs s) \<and> (\<forall>i < k. pcs s ! i = W_Done))
   \<and> (released s \<longrightarrow> joining s = Some (length (pcs s)))"

definition tp_inv :: "tp_sys \<Rightarrow> bool" where
  "tp_inv s \<longleftrightarrow> inv_pool s \<and> inv_lock s \<and> inv_started s \<and> inv_fifo s \<and> inv_shut s \<and> inv_wake s \<and> inv_join s"

lemmas tp_inv_parts = tp_inv_def inv_pool_def inv_lock_def inv_started_def inv_fifo_def inv_shut_def
  inv_wake_def inv_join_def

section \<open>What each operation does to the parts\<close>

lemma length_filter_update:
  "k < length xs \<Longrightarrow> length (filter P (xs[k := w])) + (if P (xs ! k) then 1 else 0)
     = length (filter P xs) + (if P w then 1 else 0)"
proof (induction xs arbitrary: k)
  case Nil
  then show ?case by simp
next
  case (Cons x xs)
  then show ?case by (cases k) auto
qed

lemma set_update_mono: "x \<in> set (xs[k := w]) \<Longrightarrow> x \<in> set xs \<or> x = w"
  using set_update_subset_insert [of xs k w] by auto

lemma add_accepts:
  assumes "threadpool_add rc_ok (Some p) fn arg = (0, Some p')" "tp_ok p"
  shows "p' = task_put \<lparr>task_function = fn, task_argument = arg\<rparr> p \<and> shutdown p = 0 \<and> tp_count p < queue_size p"
  using assms by (auto simp: threadpool_add_def rc_ok_def tp_codes tp_ok_def split: if_splits)

lemma add_refuses:
  assumes "threadpool_add rc_ok (Some p) fn arg = (err, Some p')" "err \<noteq> 0"
  shows "p' = p"
  using assms by (auto simp: threadpool_add_def rc_ok_def split: if_splits)

lemma task_put_fields [simp]:
  "thread_count (task_put t p) = thread_count p" "shutdown (task_put t p) = shutdown p"
  "started (task_put t p) = started p" "tp_count (task_put t p) = tp_count p + 1"
  "queue_size (task_put t p) = queue_size p"
  by (simp_all add: task_put_def Let_def)

lemma task_take_fields [simp]:
  "thread_count (snd (task_take p)) = thread_count p" "shutdown (snd (task_take p)) = shutdown p"
  "started (snd (task_take p)) = started p" "tp_count (snd (task_take p)) = tp_count p - 1"
  by (simp_all add: task_take_def Let_def)

lemma signalled_parts:
  assumes "signalled ws ws'"
  shows "length ws' = length ws"
    and "k < length ws \<Longrightarrow> holds_lock (ws' ! k) = holds_lock (ws ! k)"
    and "length (filter alive ws') = length (filter alive ws)"
    and "w \<noteq> W_Wait \<Longrightarrow> w \<noteq> W_Relock \<Longrightarrow> k < length ws \<Longrightarrow> ws' ! k = w \<longleftrightarrow> ws ! k = w"
    and "w \<noteq> W_Wait \<Longrightarrow> w \<noteq> W_Relock \<Longrightarrow> w \<in> set ws' \<longleftrightarrow> w \<in> set ws"
    and "W_Wait \<in> set ws' \<Longrightarrow> W_Wait \<in> set ws \<and>
           length (filter contending ws') = Suc (length (filter contending ws))"
proof -
  show l: "length ws' = length ws" using assms by (auto simp: signalled_def)
  show "holds_lock (ws' ! k) = holds_lock (ws ! k)" if "k < length ws"
    using assms that by (auto simp: signalled_def nth_list_update holds_lock_def split: if_splits)
  show "length (filter alive ws') = length (filter alive ws)"
  proof (cases "ws' = ws")
    case False
    then obtain k where "k < length ws" "ws ! k = W_Wait" "ws' = ws[k := W_Relock]"
      using assms by (auto simp: signalled_def)
    then show ?thesis using length_filter_update [of k ws alive W_Relock] by (simp add: alive_def)
  qed simp
  show n: "ws' ! k = w \<longleftrightarrow> ws ! k = w" if "w \<noteq> W_Wait" "w \<noteq> W_Relock" "k < length ws" for k
    using assms that by (auto simp: signalled_def nth_list_update split: if_splits)
  show "w \<in> set ws' \<longleftrightarrow> w \<in> set ws" if "w \<noteq> W_Wait" "w \<noteq> W_Relock"
    using n [OF that] l by (metis in_set_conv_nth)
  show "W_Wait \<in> set ws \<and> length (filter contending ws') = Suc (length (filter contending ws))"
    if "W_Wait \<in> set ws'"
  proof -
    from that assms obtain k where k: "k < length ws" "ws ! k = W_Wait" "ws' = ws[k := W_Relock]"
      by (auto simp: signalled_def)
    then show ?thesis using length_filter_update [of k ws contending W_Relock] nth_mem [of k ws]
      by (simp add: contending_def)
  qed
qed

lemma inv_Add:
  assumes "tp_inv s" "threadpool_add rc_ok (Some (pool s)) fn arg = (0, Some p')" "owner s = None"
    "\<not> released s" "signalled (pcs s) ws"
  shows "tp_inv (s\<lparr>pool := p', pcs := ws, accepted := accepted s @ [\<lparr>task_function = fn, task_argument = arg\<rparr>]\<rparr>)"
proof -
  have ok: "tp_ok (pool s)" using assms(1) by (simp add: tp_inv_parts)
  let ?t = "\<lparr>task_function = fn, task_argument = arg\<rparr>"
  note a = add_accepts [OF assms(2) ok]
  have put: "tp_ok (task_put ?t (pool s))" "tp_tasks (task_put ?t (pool s)) = tp_tasks (pool s) @ [?t]"
    using task_put_ok [OF ok, of ?t] a by (simp_all add: tp_fits_def)
  have c0: "0 \<le> tp_count (pool s)" using ok by (simp add: tp_ok_def)
  note sg = signalled_parts [OF assms(5)]
  have "inv_wake (s\<lparr>pool := task_put ?t (pool s), pcs := ws\<rparr>)"
    using assms(1) a sg(6) by (auto simp: tp_inv_parts)
  moreover have "joining s = None" using assms(1) a by (auto simp: tp_inv_parts)
  ultimately show ?thesis
    using assms(1,3,4) a put c0 sg by (auto simp: tp_inv_parts)
qed

lemma keep_done: "ws ! i = W_Done \<Longrightarrow> ws ! k \<noteq> W_Done \<Longrightarrow> ws[k := w] ! i = W_Done"
  by (metis nth_list_update_neq)

text \<open>A step that moves one worker and leaves the pool's tasks alone.\<close>

lemma inv_Acquire:
  assumes "tp_inv s" "k < length (pcs s)" "pcs s ! k = W_Lock \<or> pcs s ! k = W_Relock" "owner s = None"
  shows "tp_inv (s\<lparr>owner := Some (Worker k), pcs := (pcs s)[k := W_While]\<rparr>)"
proof -
  have al: "length (filter alive ((pcs s)[k := W_While])) = length (filter alive (pcs s))"
    using length_filter_update [of k "pcs s" alive W_While] assms(2,3) by (auto simp: alive_def)
  have co: "length (filter contending (pcs s)) \<le> length (filter contending ((pcs s)[k := W_While]))"
    using length_filter_update [of k "pcs s" contending W_While] assms(2) by (auto simp: contending_def split: if_splits)
  have nd: "pcs s ! k \<noteq> W_Done" using assms(3) by auto
  have "inv_join (s\<lparr>owner := Some (Worker k), pcs := (pcs s)[k := W_While]\<rparr>)"
    using assms(1) nd by (auto simp: tp_inv_def inv_join_def intro!: keep_done)
  moreover have "inv_lock (s\<lparr>owner := Some (Worker k), pcs := (pcs s)[k := W_While]\<rparr>)"
    using assms by (auto simp: tp_inv_def inv_lock_def nth_list_update holds_lock_def)
  moreover have "inv_wake (s\<lparr>owner := Some (Worker k), pcs := (pcs s)[k := W_While]\<rparr>)"
    using assms(1) co by (auto simp: tp_inv_def inv_wake_def dest!: set_update_mono)
  moreover have "inv_shut (s\<lparr>owner := Some (Worker k), pcs := (pcs s)[k := W_While]\<rparr>)"
    using assms(1) by (auto simp: tp_inv_def inv_shut_def dest!: set_update_mono)
  ultimately show ?thesis using assms(1) al
    by (simp add: tp_inv_def inv_pool_def inv_started_def inv_fifo_def)
qed

lemma inv_move:
  assumes "tp_inv s" "k < length (pcs s)" "pcs s ! k = W_Wait \<and> w = W_Relock \<or> pcs s ! k = W_Run t \<and> w = W_Lock"
  shows "tp_inv (s\<lparr>pcs := (pcs s)[k := w]\<rparr>)"
proof -
  have al: "length (filter alive ((pcs s)[k := w])) = length (filter alive (pcs s))"
    using length_filter_update [of k "pcs s" alive w] assms(2,3) by (auto simp: alive_def)
  have co: "length (filter contending (pcs s)) \<le> length (filter contending ((pcs s)[k := w]))"
    using length_filter_update [of k "pcs s" contending w] assms(2,3) by (auto simp: contending_def split: if_splits)
  have "inv_join (s\<lparr>pcs := (pcs s)[k := w]\<rparr>)"
    using assms(1,3) by (auto simp: tp_inv_def inv_join_def intro!: keep_done)
  moreover have "inv_lock (s\<lparr>pcs := (pcs s)[k := w]\<rparr>)"
    using assms by (auto simp: tp_inv_def inv_lock_def nth_list_update holds_lock_def)
  moreover have "inv_wake (s\<lparr>pcs := (pcs s)[k := w]\<rparr>)"
    using assms(1,3) co by (auto simp: tp_inv_def inv_wake_def dest!: set_update_mono)
  moreover have "inv_shut (s\<lparr>pcs := (pcs s)[k := w]\<rparr>)"
    using assms(1,3) by (auto simp: tp_inv_def inv_shut_def dest!: set_update_mono)
  ultimately show ?thesis using assms(1) al
    by (simp add: tp_inv_def inv_pool_def inv_started_def inv_fifo_def)
qed

lemma broadcast_parts:
  "length (broadcast ws) = length ws" "W_Wait \<notin> set (broadcast ws)"
  "length (filter alive (broadcast ws)) = length (filter alive ws)"
  "k < length ws \<Longrightarrow> holds_lock (broadcast ws ! k) = holds_lock (ws ! k)"
  "w \<noteq> W_Wait \<Longrightarrow> w \<noteq> W_Relock \<Longrightarrow> w \<in> set (broadcast ws) \<longleftrightarrow> w \<in> set ws"
proof -
  show "length (filter alive (broadcast ws)) = length (filter alive ws)"
    by (induction ws) (auto simp: broadcast_def alive_def)
qed (auto simp: broadcast_def holds_lock_def)

lemma destroy_cases:
  assumes "destroy_enter rc_ok p flags = (err, p', held)"
  obtains "shutdown p \<noteq> 0" "err = threadpool_shutdown" "p' = p" "held"
  | m where "shutdown p = 0" "m = immediate_shutdown \<or> m = graceful_shutdown" "err = 0"
      "p' = p\<lparr>shutdown := m\<rparr>" "\<not> held"
  using assms by (auto simp: destroy_enter_def rc_ok_def Let_def split: if_splits)

lemma tp_ok_shutdown [simp]: "tp_ok (p\<lparr>shutdown := m\<rparr>) = tp_ok p"
  and tp_tasks_shutdown [simp]: "tp_tasks (p\<lparr>shutdown := m\<rparr>) = tp_tasks p"
  and tp_ok_started [simp]: "tp_ok (p\<lparr>started := n\<rparr>) = tp_ok p"
  and tp_tasks_started [simp]: "tp_tasks (p\<lparr>started := n\<rparr>) = tp_tasks p"
  by (simp_all add: tp_ok_def tp_tasks_def)

lemma inv_Destroy:
  assumes "tp_inv s" "destroy_enter rc_ok (pool s) flags = (err, p', held)" "owner s = None" "\<not> released s"
  shows "tp_inv (s\<lparr>pool := p', owner := (if held then Some Destroyer else None),
       pcs := (if err = 0 then broadcast (pcs s) else pcs s),
       joining := (if err = 0 then Some 0 else joining s)\<rparr>)"
  using assms(2)
proof (cases rule: destroy_cases)
  case 1
  then show ?thesis using assms(1,3) by (auto simp: tp_inv_parts tp_codes)
next
  case (2 m)
  have m: "m \<noteq> 0" "m = immediate_shutdown \<or> m = graceful_shutdown" using 2 by (auto simp: tp_codes)
  have "inv_shut (s\<lparr>pool := p', pcs := broadcast (pcs s), joining := Some 0\<rparr>)"
    using assms(1) 2 m by (auto simp: tp_inv_def inv_shut_def broadcast_parts)
  moreover have "inv_join (s\<lparr>pool := p', pcs := broadcast (pcs s), joining := Some 0\<rparr>)"
    using assms(4) 2 m by (simp add: inv_join_def)
  moreover have "inv_lock (s\<lparr>pool := p', pcs := broadcast (pcs s), joining := Some 0\<rparr>)"
    using assms(1,3) by (simp add: tp_inv_def inv_lock_def broadcast_parts)
  ultimately show ?thesis using 2 assms(1,3) m
    by (auto simp: tp_inv_def inv_pool_def inv_started_def inv_fifo_def inv_wake_def
        inv_shut_def inv_join_def inv_lock_def broadcast_parts)
qed

text \<open>The three places where a worker holds the lock.\<close>

lemma lock_update:
  assumes "inv_lock s" "k < length (pcs s)" "owner s = Some (Worker k)"
  shows "inv_lock (s\<lparr>pool := p', owner := (if holds_lock w then Some (Worker k) else None),
       pcs := (pcs s)[k := w], taken := ts\<rparr>)"
  using assms by (auto simp: inv_lock_def nth_list_update)

lemma others_unlocked:
  assumes "inv_lock s" "owner s = Some (Worker k)" "\<not> holds_lock w" "holds_lock x"
  shows "x \<notin> set ((pcs s)[k := w])"
proof
  assume "x \<in> set ((pcs s)[k := w])"
  then obtain j where "j < length (pcs s)" "(pcs s)[k := w] ! j = x" by (auto simp: in_set_conv_nth)
  with assms show False by (cases "j = k") (auto simp: inv_lock_def)
qed

lemma join_update:
  "inv_join s \<Longrightarrow> pcs s ! k \<noteq> W_Done \<Longrightarrow> shutdown p' = shutdown (pool s) \<Longrightarrow>
     inv_join (s\<lparr>pool := p', owner := x, pcs := (pcs s)[k := w], taken := ts\<rparr>)"
  by (auto simp: inv_join_def intro!: keep_done)

lemma inv_While:
  assumes "tp_inv s" "k < length (pcs s)" "pcs s ! k = W_While" "owner s = Some (Worker k)"
    and w: "w = (if tp_count (pool s) = 0 \<and> shutdown (pool s) = 0 then W_Wait else W_Test)"
  shows "tp_inv (s\<lparr>pool := pool s, owner := (if holds_lock w then Some (Worker k) else None),
       pcs := (pcs s)[k := w], taken := taken s\<rparr>)" (is "tp_inv ?s")
proof -
  have "length (filter alive ((pcs s)[k := w])) = length (filter alive (pcs s))"
    using length_filter_update [of k "pcs s" alive w] assms(2,3) w by (auto simp: alive_def)
  then have "inv_started ?s" using assms(1) by (simp add: tp_inv_def inv_started_def)
  moreover have "inv_lock ?s" by (rule lock_update) (use assms in \<open>auto simp: tp_inv_def\<close>)
  moreover have "inv_join ?s" by (rule join_update) (use assms(1,3) in \<open>auto simp: tp_inv_def\<close>)
  moreover have "inv_shut ?s"
  proof -
    have m: "W_Exit \<in> set ((pcs s)[k := w]) \<Longrightarrow> W_Exit \<in> set (pcs s)"
      "W_Done \<in> set ((pcs s)[k := w]) \<Longrightarrow> W_Done \<in> set (pcs s)"
      "W_Test \<in> set ((pcs s)[k := w]) \<Longrightarrow> W_Test \<in> set (pcs s) \<or> tp_count (pool s) \<noteq> 0 \<or> shutdown (pool s) \<noteq> 0"
      unfolding w by (auto dest!: set_update_mono split: if_splits)
    have "inv_shut s" using assms(1) by (simp add: tp_inv_def)
    then show ?thesis using m unfolding inv_shut_def by simp blast
  qed
  moreover have "inv_wake ?s"
  proof (cases "tp_count (pool s) = 0 \<and> shutdown (pool s) = 0")
    case True
    then show ?thesis by (simp add: inv_wake_def)
  next
    case False
    have "length (filter contending ((pcs s)[k := W_Test])) = length (filter contending (pcs s))"
      using length_filter_update [of k "pcs s" contending W_Test] assms(2,3) by (simp add: contending_def)
    with False assms(1) w show ?thesis by (auto simp: tp_inv_def inv_wake_def dest!: set_update_mono)
  qed
  ultimately show ?thesis using assms(1) by (simp add: tp_inv_def inv_pool_def inv_fifo_def)
qed

lemma inv_Stop:
  assumes "tp_inv s" "k < length (pcs s)" "pcs s ! k = W_Test" "owner s = Some (Worker k)"
    and sh: "shutdown (pool s) = immediate_shutdown \<or> shutdown (pool s) = graceful_shutdown \<and> tp_count (pool s) = 0"
  shows "tp_inv (s\<lparr>pool := pool s, owner := (if holds_lock W_Exit then Some (Worker k) else None),
       pcs := (pcs s)[k := W_Exit], taken := taken s\<rparr>)" (is "tp_inv ?s")
proof -
  have "length (filter alive ((pcs s)[k := W_Exit])) = length (filter alive (pcs s))"
    using length_filter_update [of k "pcs s" alive W_Exit] assms(2,3) by (auto simp: alive_def)
  then have "inv_started ?s" using assms(1) by (simp add: tp_inv_def inv_started_def)
  moreover have "inv_lock ?s" by (rule lock_update) (use assms in \<open>auto simp: tp_inv_def\<close>)
  moreover have "inv_join ?s" by (rule join_update) (use assms(1,3) in \<open>auto simp: tp_inv_def\<close>)
  moreover have "inv_shut ?s" "inv_wake ?s"
    using assms(1) sh by (auto simp: tp_inv_def inv_shut_def inv_wake_def tp_codes dest!: set_update_mono)
  ultimately show ?thesis using assms(1) by (simp add: tp_inv_def inv_pool_def inv_fifo_def)
qed

lemma inv_Take:
  assumes "tp_inv s" "k < length (pcs s)" "pcs s ! k = W_Test" "owner s = Some (Worker k)"
    and sh: "\<not> (shutdown (pool s) = immediate_shutdown \<or> shutdown (pool s) = graceful_shutdown \<and> tp_count (pool s) = 0)"
    and t: "task_take (pool s) = (t, p')"
  shows "tp_inv (s\<lparr>pool := p', owner := (if holds_lock (W_Run t) then Some (Worker k) else None),
       pcs := (pcs s)[k := W_Run t], taken := taken s @ [t]\<rparr>)" (is "tp_inv ?s")
proof -
  have "W_Test \<in> set (pcs s)" using assms(2,3) by (metis nth_mem)
  then have c: "tp_count (pool s) \<noteq> 0" using assms(1) sh by (auto simp: tp_inv_def inv_shut_def inv_pool_def)
  have ok: "tp_ok (pool s)" using assms(1) by (simp add: tp_inv_def inv_pool_def)
  have ne: "tp_tasks (pool s) \<noteq> []" proof
    assume "tp_tasks (pool s) = []"
    then have "nat (tp_count (pool s)) = 0" by (metis length_tp_tasks list.size(3))
    with c ok show False by (simp add: tp_ok_def)
  qed
  have p': "t = hd (tp_tasks (pool s))" "tp_tasks p' = tl (tp_tasks (pool s))" "tp_ok p'"
    "thread_count p' = thread_count (pool s)" "shutdown p' = shutdown (pool s)"
    "started p' = started (pool s)" "tp_count p' = tp_count (pool s) - 1"
    using task_take_ok [OF ok ne] task_take_fields [of "pool s"] unfolding t by simp_all
  have "length (filter alive ((pcs s)[k := W_Run t])) = length (filter alive (pcs s))"
    using length_filter_update [of k "pcs s" alive "W_Run t"] assms(2,3) by (auto simp: alive_def)
  then have "inv_started ?s" using assms(1) p' by (simp add: tp_inv_def inv_started_def)
  moreover have "inv_lock ?s" by (rule lock_update) (use assms in \<open>auto simp: tp_inv_def\<close>)
  moreover have "inv_join ?s" by (rule join_update) (use assms(1,3) p' in \<open>auto simp: tp_inv_def\<close>)
  moreover have "W_Test \<notin> set ((pcs s)[k := W_Run t])"
    by (rule others_unlocked) (use assms in \<open>auto simp: tp_inv_def holds_lock_def\<close>)
  then have "inv_shut ?s"
    using assms(1) p' c by (auto simp: tp_inv_def inv_shut_def dest!: set_update_mono)
  moreover have "inv_wake ?s"
    using assms(1-3) p' length_filter_update [of k "pcs s" contending "W_Run t"]
    by (auto simp: tp_inv_def inv_wake_def contending_def dest!: set_update_mono)
  moreover have "inv_fifo ?s" using assms(1) p' ne by (simp add: tp_inv_def inv_fifo_def)
  ultimately show ?thesis using assms(1) p' by (simp add: tp_inv_def inv_pool_def)
qed

lemma inv_End:
  assumes "tp_inv s" "k < length (pcs s)" "pcs s ! k = W_Exit" "owner s = Some (Worker k)"
  shows "tp_inv (s\<lparr>pool := (pool s)\<lparr>started := started (pool s) - 1\<rparr>,
       owner := (if holds_lock W_Done then Some (Worker k) else None),
       pcs := (pcs s)[k := W_Done], taken := taken s\<rparr>)" (is "tp_inv ?s")
proof -
  have e: "W_Exit \<in> set (pcs s)" using assms(2,3) by (metis nth_mem)
  have "inv_started ?s"
    using assms(1-3) length_filter_update [of k "pcs s" alive W_Done]
    by (auto simp: tp_inv_def inv_started_def alive_def)
  moreover have "inv_lock ?s" by (rule lock_update) (use assms in \<open>auto simp: tp_inv_def\<close>)
  moreover have "inv_join ?s" by (rule join_update) (use assms(1,3) in \<open>auto simp: tp_inv_def\<close>)
  moreover have "inv_shut ?s" "inv_wake ?s"
    using assms(1) e by (auto simp: tp_inv_def inv_shut_def inv_wake_def dest!: set_update_mono)
  ultimately show ?thesis using assms(1) by (simp add: tp_inv_def inv_pool_def inv_fifo_def)
qed

lemma inv_Locked:
  assumes "tp_inv s" "k < length (pcs s)" "holds_lock (pcs s ! k)" "owner s = Some (Worker k)"
    "worker_locked (pcs s ! k) (pool s) = (w, p', ts)"
  shows "tp_inv (s\<lparr>pool := p', owner := (if holds_lock w then Some (Worker k) else None),
       pcs := (pcs s)[k := w], taken := taken s @ ts\<rparr>)"
proof -
  consider "pcs s ! k = W_While" | "pcs s ! k = W_Test" | "pcs s ! k = W_Exit"
    using assms(3) by (auto simp: holds_lock_def)
  then show ?thesis
  proof cases
    case 1
    then show ?thesis using assms(5) inv_While [OF assms(1,2) 1 assms(4), of w]
      by (auto simp: worker_locked_def)
  next
    case 2
    show ?thesis
    proof (cases "shutdown (pool s) = immediate_shutdown \<or> shutdown (pool s) = graceful_shutdown \<and> tp_count (pool s) = 0")
      case True
      then show ?thesis using assms(5) inv_Stop [OF assms(1,2) 2 assms(4)] by (auto simp: worker_locked_def 2)
    next
      case False
      obtain t q where "task_take (pool s) = (t, q)" by fastforce
      with False show ?thesis
        using assms(5) inv_Take [OF assms(1,2) 2 assms(4), of t q] by (auto simp: worker_locked_def 2)
    qed
  next
    case 3
    then show ?thesis using assms inv_End [OF assms(1,2) 3 assms(4)] by (simp add: worker_locked_def)
  qed
qed

lemma tp_inv_step: "tp_step s s' \<Longrightarrow> tp_inv s \<Longrightarrow> tp_inv s'"
proof (induction rule: tp_step.induct)
  case (Add s fn arg p' ws)
  then show ?case using inv_Add by blast
next
  case (Refuse s fn arg err p')
  then show ?case using add_refuses by (metis tp_sys.surjective tp_sys.update_convs(1))
next
  case (Acquire k s)
  then show ?case using inv_Acquire by blast
next
  case (Locked k s w p' ts)
  then show ?case using inv_Locked by blast
next
  case (Spurious k s)
  then show ?case using inv_move by blast
next
  case (Finish k s t)
  then show ?case using inv_move by blast
next
  case (Destroy s flags err p' held)
  then show ?case using inv_Destroy by blast
next
  case (Join s k)
  then show ?case by (auto simp: tp_inv_parts less_Suc_eq)
next
  case (Free_pool s k fr)
  then show ?case by (auto simp: tp_inv_parts)
qed

lemma tp_inv_start:
  assumes "0 < qs"
  shows "tp_inv (tp_start tc qs)"
  using assms by (auto simp: tp_start_def create_result tp_inv_parts tp_ok_def tp_tasks_def holds_lock_def alive_def)

lemma tp_inv_reach: "tp_reach s0 s \<Longrightarrow> tp_inv s0 \<Longrightarrow> tp_inv s"
  by (induction rule: tp_reach.induct) (auto intro: tp_inv_step)

section \<open>Running the relation\<close>

text \<open>An executable scheduler for concrete runs: every action it performs is a step.\<close>

datatype action = AAdd nat nat | AAcquire nat | ALocked nat | AFinish nat | ADestroy int | AJoin | AFree

fun wake_first :: "worker_pc list \<Rightarrow> worker_pc list" where
  "wake_first [] = []"
| "wake_first (w # ws) = (if w = W_Wait then W_Relock # ws else w # wake_first ws)"

fun perform :: "action \<Rightarrow> tp_sys \<Rightarrow> tp_sys option" where
  "perform (AAdd fn arg) s =
     (case threadpool_add rc_ok (Some (pool s)) fn arg of (err, p') \<Rightarrow>
        if err = 0 \<and> owner s = None \<and> \<not> released s \<and> p' \<noteq> None
        then Some (s\<lparr>pool := the p', pcs := wake_first (pcs s),
               accepted := accepted s @ [\<lparr>task_function = fn, task_argument = arg\<rparr>]\<rparr>)
        else None)"
| "perform (AAcquire k) s =
     (if k < length (pcs s) \<and> (pcs s ! k = W_Lock \<or> pcs s ! k = W_Relock) \<and> owner s = None
      then Some (s\<lparr>owner := Some (Worker k), pcs := (pcs s)[k := W_While]\<rparr>) else None)"
| "perform (ALocked k) s =
     (if k < length (pcs s) \<and> holds_lock (pcs s ! k) \<and> owner s = Some (Worker k)
      then (case worker_locked (pcs s ! k) (pool s) of (w, p', ts) \<Rightarrow>
        Some (s\<lparr>pool := p', owner := (if holds_lock w then Some (Worker k) else None),
          pcs := (pcs s)[k := w], taken := taken s @ ts\<rparr>))
      else None)"
| "perform (AFinish k) s =
     (if k < length (pcs s) then
        (case pcs s ! k of W_Run t \<Rightarrow> Some (s\<lparr>pcs := (pcs s)[k := W_Lock]\<rparr>) | _ \<Rightarrow> None) else None)"
| "perform (ADestroy flags) s =
     (case destroy_enter rc_ok (pool s) flags of (err, p', held) \<Rightarrow>
        if owner s = None \<and> \<not> released s
        then Some (s\<lparr>pool := p', owner := (if held then Some Destroyer else None),
           pcs := (if err = 0 then broadcast (pcs s) else pcs s),
           joining := (if err = 0 then Some 0 else joining s)\<rparr>)
        else None)"
| "perform AJoin s =
     (case joining s of None \<Rightarrow> None | Some k \<Rightarrow>
        if int k < thread_count (pool s) \<and> pcs s ! k = W_Done then Some (s\<lparr>joining := Some (Suc k)\<rparr>) else None)"
| "perform AFree s =
     (case joining s of None \<Rightarrow> None | Some k \<Rightarrow>
        if int k = thread_count (pool s) \<and> \<not> released s \<and> fst (threadpool_free (Some (pool s))) = 0
        then Some (s\<lparr>released := True\<rparr>) else None)"

fun perform_all :: "action list \<Rightarrow> tp_sys \<Rightarrow> tp_sys option" where
  "perform_all [] s = Some s"
| "perform_all (a # as) s = (case perform a s of None \<Rightarrow> None | Some s' \<Rightarrow> perform_all as s')"

lemma signalled_wake_first: "signalled ws (wake_first ws)"
proof (induction ws)
  case Nil
  then show ?case by (simp add: signalled_def)
next
  case (Cons w ws)
  show ?case
  proof (cases "w = W_Wait")
    case True
    then show ?thesis by (auto simp: signalled_def intro!: exI [of _ 0])
  next
    case False
    from Cons consider "W_Wait \<notin> set ws" "wake_first ws = ws"
      | k where "k < length ws" "ws ! k = W_Wait" "wake_first ws = ws[k := W_Relock]"
      by (auto simp: signalled_def)
    then show ?thesis
    proof cases
      case 1
      with False show ?thesis by (auto simp: signalled_def)
    next
      case (2 k)
      with False have "Suc k < length (w # ws)" "(w # ws) ! Suc k = W_Wait"
        "wake_first (w # ws) = (w # ws)[Suc k := W_Relock]" by simp_all
      then show ?thesis unfolding signalled_def by blast
    qed
  qed
qed

lemma perform_step: "perform a s = Some s' \<Longrightarrow> tp_step s s'"
proof (cases a)
  case (AAdd fn arg)
  assume "perform a s = Some s'"
  with AAdd show ?thesis
    by (auto split: prod.splits if_splits intro!: tp_step.Add signalled_wake_first)
next
  case (ALocked k)
  assume p: "perform a s = Some s'"
  obtain w p' ts where w: "worker_locked (pcs s ! k) (pool s) = (w, p', ts)" by (metis prod_cases3)
  have "k < length (pcs s) \<and> holds_lock (pcs s ! k) \<and> owner s = Some (Worker k)"
    using p ALocked by (simp split: if_split_asm)
  then show ?thesis using p ALocked tp_step.Locked [OF _ _ _ w] by (simp add: w)
next
  case (ADestroy flags)
  assume p: "perform a s = Some s'"
  obtain err p' held where d: "destroy_enter rc_ok (pool s) flags = (err, p', held)" by (metis prod_cases3)
  have "owner s = None \<and> \<not> released s"
    using p ADestroy by (simp add: d split: if_split_asm)
  then show ?thesis using p ADestroy tp_step.Destroy [OF d] by (simp add: d)
next
  case (AFree)
  assume "perform a s = Some s'"
  with AFree show ?thesis
    by (cases "threadpool_free (Some (pool s))") (auto split: option.splits if_splits intro!: tp_step.Free_pool)
qed (auto split: prod.splits if_splits worker_pc.splits option.splits
      intro: tp_step.Acquire tp_step.Finish tp_step.Join)

lemma reach_trans: "tp_reach s1 s2 \<Longrightarrow> tp_step s0 s1 \<Longrightarrow> tp_reach s0 s2"
  by (induction rule: tp_reach.induct) (auto intro: tp_reach.intros)

lemma perform_all_reach: "perform_all as s = Some s' \<Longrightarrow> tp_reach s s'"
  by (induction as arbitrary: s) (auto split: option.splits intro: reach_start reach_trans perform_step)

lemma perform_all_run:
  "case perform_all as s of None \<Rightarrow> False | Some s' \<Rightarrow> P s' \<Longrightarrow> \<exists>s'. tp_reach s s' \<and> P s'"
  by (auto split: option.splits dest: perform_all_reach)

text \<open>One worker, one slot: a task is added, the pool is shut down gracefully, the worker runs the
  task and ends, the pool is freed.\<close>

definition demo_run :: "action list" where
  "demo_run = [AAdd 7 1, ADestroy 1, AAcquire 0, ALocked 0, ALocked 0, AFinish 0, AAcquire 0, ALocked 0,
     ALocked 0, ALocked 0, AJoin, AFree]"

lemma demo_run_ends:
  "\<exists>s. tp_reach (tp_start 1 1) s \<and> released s \<and> shutdown (pool s) = graceful_shutdown
     \<and> accepted s = [\<lparr>task_function = 7, task_argument = 1\<rparr>]"
proof -
  have "case perform_all demo_run (tp_start 1 1) of None \<Rightarrow> False
    | Some s \<Rightarrow> released s \<and> shutdown (pool s) = graceful_shutdown
        \<and> accepted s = [\<lparr>task_function = 7, task_argument = 1\<rparr>]"
    by code_simp
  then show ?thesis by (auto split: option.splits dest: perform_all_reach)
qed

section \<open>Properties\<close>

text \<open>
  \<open>threadpool_add\<close> on a well-formed pool, every branch: a null function, a full queue and a pool
  that shuts down are refused with their codes and change nothing; otherwise the task is appended
  behind the queued ones.
\<close>

theorem add_bounded_fifo:
  assumes "tp_ok p"
  shows "case threadpool_add rc_ok (Some p) fn arg of
      (err, None) \<Rightarrow> False
    | (err, Some p') \<Rightarrow>
        (if fn = 0 then err = threadpool_invalid \<and> p' = p
         else if tp_count p = queue_size p then err = threadpool_queue_full \<and> p' = p
         else if shutdown p \<noteq> 0 then err = threadpool_shutdown \<and> p' = p
         else err = 0 \<and> tp_ok p' \<and> tp_tasks p' = tp_tasks p @ [\<lparr>task_function = fn, task_argument = arg\<rparr>])"
  using task_put_ok [OF assms, of "\<lparr>task_function = fn, task_argument = arg\<rparr>"] assms
  by (auto simp: threadpool_add_def rc_ok_def tp_fits_def tp_ok_def)

lemma add_bounded_fifo_witness:
  "case threadpool_add rc_ok (Some (pool (tp_start 2 4))) 7 1 of
      (err, None) \<Rightarrow> False
    | (err, Some p') \<Rightarrow>
        (if (7 :: nat) = 0 then err = threadpool_invalid \<and> p' = pool (tp_start 2 4)
         else if tp_count (pool (tp_start 2 4)) = queue_size (pool (tp_start 2 4))
           then err = threadpool_queue_full \<and> p' = pool (tp_start 2 4)
         else if shutdown (pool (tp_start 2 4)) \<noteq> 0 then err = threadpool_shutdown \<and> p' = pool (tp_start 2 4)
         else err = 0 \<and> tp_ok p'
           \<and> tp_tasks p' = tp_tasks (pool (tp_start 2 4)) @ [\<lparr>task_function = 7, task_argument = 1\<rparr>])"
  by (rule add_bounded_fifo) (use tp_inv_start [of 4 2] in \<open>simp add: tp_inv_def inv_pool_def\<close>)

text \<open>
  C6. In every reachable state the tasks accepted so far are the tasks taken by the workers followed by
  the queued ones: no task is lost, none is taken twice, and they are taken in the order of
  acceptance, whatever the interleaving.
\<close>

theorem tasks_taken_in_order:
  assumes "tp_reach (tp_start tc qs) s" "0 < qs"
  shows "accepted s = taken s @ tp_tasks (pool s)"
  using tp_inv_reach [OF assms(1) tp_inv_start [OF assms(2)]] by (simp add: tp_inv_def inv_fifo_def)

lemma tasks_taken_in_order_witness:
  "\<exists>s. tp_reach (tp_start 1 1) s \<and> accepted s \<noteq> [] \<and> accepted s = taken s @ tp_tasks (pool s)"
proof -
  obtain s where "tp_reach (tp_start 1 1) s" "accepted s \<noteq> []" using demo_run_ends by auto
  then show ?thesis using tasks_taken_in_order [of 1 1 s] by auto
qed



text \<open>
  C5. When the pool's memory is freed, every worker has ended: none can touch the freed pool.  After a
  graceful shutdown (of a pool with at least one worker) every accepted task has been run.
\<close>

theorem graceful_shutdown_runs_all:
  assumes "tp_reach (tp_start tc qs) s" "0 < qs" "0 < tc" "released s"
  shows "(\<forall>w \<in> set (pcs s). w = W_Done) \<and> (shutdown (pool s) = graceful_shutdown \<longrightarrow> taken s = accepted s)"
proof -
  have inv: "tp_inv s" by (rule tp_inv_reach [OF assms(1) tp_inv_start [OF assms(2)]])
  have len: "length (pcs s) = nat tc" using assms(1)
  proof (induction rule: tp_reach.induct)
    case reach_start
    then show ?case by (simp add: tp_start_def)
  next
    case (reach_step s s')
    from reach_step(2,3) show ?case
      by (cases rule: tp_step.cases) (auto simp: signalled_parts(1) broadcast_parts(1))
  qed
  have dn: "\<forall>i < length (pcs s). pcs s ! i = W_Done" using inv assms(4) by (simp add: tp_inv_def inv_join_def)
  then have all: "\<forall>w \<in> set (pcs s). w = W_Done" by (metis in_set_conv_nth)
  have "W_Done \<in> set (pcs s)" using dn len assms(3) by (metis nth_mem zero_less_nat_eq)
  then have "tp_count (pool s) = 0" if "shutdown (pool s) = graceful_shutdown"
    using inv that by (simp add: tp_inv_def inv_shut_def)
  then have "tp_tasks (pool s) = []" if "shutdown (pool s) = graceful_shutdown"
    using that by (simp add: tp_tasks_def)
  then show ?thesis using all inv by (auto simp: tp_inv_def inv_fifo_def)
qed

lemma graceful_shutdown_runs_all_witness:
  "\<exists>s. tp_reach (tp_start 1 1) s \<and> released s \<and> (\<forall>w \<in> set (pcs s). w = W_Done)
     \<and> taken s = [\<lparr>task_function = 7, task_argument = 1\<rparr>]"
proof -
  obtain s where s: "tp_reach (tp_start 1 1) s" "released s" "shutdown (pool s) = graceful_shutdown"
    "accepted s = [\<lparr>task_function = 7, task_argument = 1\<rparr>]" using demo_run_ends by auto
  show ?thesis using s graceful_shutdown_runs_all [OF s(1)] by auto
qed

definition runnable :: "tp_sys \<Rightarrow> nat \<Rightarrow> bool" where
  "runnable s k \<longleftrightarrow> k < length (pcs s) \<and>
     ((pcs s ! k = W_Lock \<or> pcs s ! k = W_Relock) \<and> owner s = None
      \<or> holds_lock (pcs s ! k) \<and> owner s = Some (Worker k)
      \<or> (\<exists>t. pcs s ! k = W_Run t))"

lemma runnable_if_contending:
  assumes "inv_lock s" "0 < length (filter contending (pcs s))" "owner s = None"
  shows "\<exists>k. runnable s k"
proof -
  from assms(2) obtain k where "k < length (pcs s)" "contending (pcs s ! k)"
    by (auto simp: filter_empty_conv in_set_conv_nth)
  then have "runnable s k" using assms(1,3) by (auto simp: runnable_def contending_def inv_lock_def holds_lock_def)
  then show ?thesis by blast
qed

text \<open>
  C16. No lost wake-up: while a task is queued and a worker is left, some worker can move (the lock is
  free and it wants it, it holds the lock, or it is running a task), unless a second
  \<open>threadpool_destroy\<close> has taken the lock for good.
\<close>

theorem no_lost_wakeup:
  assumes "tp_reach (tp_start tc qs) s" "0 < qs" "0 < tp_count (pool s)" "owner s \<noteq> Some Destroyer"
    and "k < length (pcs s)" "pcs s ! k \<noteq> W_Done"
  shows "\<exists>k. runnable s k"
proof -
  have inv: "tp_inv s" by (rule tp_inv_reach [OF assms(1) tp_inv_start [OF assms(2)]])
  show ?thesis
  proof (cases "owner s")
    case (Some x)
    then obtain j where "owner s = Some (Worker j)" using assms(4) by (cases x) auto
    then have "runnable s j" using inv by (auto simp: tp_inv_def inv_lock_def runnable_def)
    then show ?thesis by blast
  next
    case None
    show ?thesis
    proof (cases "pcs s ! k = W_Wait")
      case True
      then have "W_Wait \<in> set (pcs s)" using assms(5) by (metis nth_mem)
      then have "tp_count (pool s) \<le> int (length (filter contending (pcs s)))" using inv by (simp add: tp_inv_def inv_wake_def)
      then have "0 < length (filter contending (pcs s))" using assms(3) by linarith
      then show ?thesis using runnable_if_contending None inv by (simp add: tp_inv_def)
    next
      case False
      then have "runnable s k" using assms(5,6) None inv
        by (cases "pcs s ! k") (auto simp: runnable_def tp_inv_def inv_lock_def holds_lock_def)
      then show ?thesis by blast
    qed
  qed
qed

lemma no_lost_wakeup_witness:
  "\<exists>s. tp_reach (tp_start 1 1) s \<and> 0 < tp_count (pool s) \<and> (\<exists>k. runnable s k)"
proof -
  have "case perform_all [AAcquire 0, ALocked 0, AAdd 7 1] (tp_start 1 1) of None \<Rightarrow> False
    | Some s \<Rightarrow> 0 < tp_count (pool s) \<and> owner s \<noteq> Some Destroyer \<and> 0 < length (pcs s) \<and> pcs s ! 0 \<noteq> W_Done"
    by code_simp
  from perform_all_run [OF this]
  obtain s where s: "tp_reach (tp_start 1 1) s" "0 < tp_count (pool s)" "owner s \<noteq> Some Destroyer"
    "0 < length (pcs s)" "pcs s ! 0 \<noteq> W_Done" by blast
  then show ?thesis using no_lost_wakeup [OF s(1) _ s(2-5)] by auto
qed

lemma destroyer_keeps_lock:
  assumes "tp_reach s0 s" "owner s0 = Some Destroyer" "k < length (pcs s0)" "pcs s0 ! k \<noteq> W_Done"
  shows "owner s = Some Destroyer \<and> k < length (pcs s) \<and> pcs s ! k \<noteq> W_Done"
  using assms(1)
proof (induction rule: tp_reach.induct)
  case reach_start
  then show ?case using assms by simp
next
  case (reach_step s s')
  from reach_step(2,3) show ?case by (cases rule: tp_step.cases) (auto simp: nth_list_update)
qed

text \<open>
  C35. A second \<open>threadpool_destroy\<close> returns with the lock held (its break skips the unlock): from
  then on no worker that has not ended ever ends, so the first caller's join never returns.
\<close>

theorem second_destroy_blocks_for_ever:
  assumes "shutdown (pool s) \<noteq> 0" "owner s = None" "\<not> released s"
    and "k < length (pcs s)" "pcs s ! k \<noteq> W_Done"
  shows "tp_step s (s\<lparr>owner := Some Destroyer\<rparr>)
    \<and> (\<forall>s'. tp_reach (s\<lparr>owner := Some Destroyer\<rparr>) s' \<longrightarrow> pcs s' ! k \<noteq> W_Done \<and> owner s' = Some Destroyer)"
proof -
  have "destroy_enter rc_ok (pool s) 0 = (threadpool_shutdown, pool s, True)"
    using assms(1) by (simp add: destroy_enter_def)
  from tp_step.Destroy [OF this assms(2,3)] have "tp_step s (s\<lparr>owner := Some Destroyer\<rparr>)"
    by (simp add: tp_codes)
  then show ?thesis using destroyer_keeps_lock assms by auto
qed

lemma second_destroy_blocks_for_ever_witness:
  "\<exists>s. tp_reach (tp_start 1 1) s \<and> tp_step s (s\<lparr>owner := Some Destroyer\<rparr>)
    \<and> (\<forall>s'. tp_reach (s\<lparr>owner := Some Destroyer\<rparr>) s' \<longrightarrow> pcs s' ! 0 \<noteq> W_Done \<and> owner s' = Some Destroyer)"
proof -
  have "case perform_all [ADestroy 1] (tp_start 1 1) of None \<Rightarrow> False
    | Some s \<Rightarrow> shutdown (pool s) \<noteq> 0 \<and> owner s = None \<and> \<not> released s \<and> 0 < length (pcs s) \<and> pcs s ! 0 \<noteq> W_Done"
    by code_simp
  from perform_all_run [OF this]
  obtain s where s: "tp_reach (tp_start 1 1) s" "shutdown (pool s) \<noteq> 0" "owner s = None" "\<not> released s"
    "0 < length (pcs s)" "pcs s ! 0 \<noteq> W_Done" by blast
  show ?thesis using s(1) second_destroy_blocks_for_ever [OF s(2-6)] by auto
qed

lemma create_loop_objs: "create_loop rc i n p = (b, p') \<Longrightarrow> tp_objs p' = tp_objs p \<and> shutdown p' = shutdown p
    \<and> tp_threads p' = tp_threads p \<and> tp_queue p' = tp_queue p"
proof (induction rc i n p arbitrary: b p' rule: create_loop.induct)
  case (2 rc i n p)
  then show ?case by (auto simp: tp_objs_def split: if_splits)
qed auto

text \<open>
  A failing \<open>threadpool_create\<close> frees what it allocated, but for one case: when the thread array
  could not be allocated and the task array could, the task array is left behind.
\<close>

theorem create_failure_cleans_up:
  assumes "threadpool_create rc workers True mt mq tc qs = (None, objs)"
    and "rc_lock rc = 0" "rc_unlock rc = 0" "rc_broadcast rc = 0" "\<forall>k. rc_join rc k = 0"
    and "\<And>p. started (workers p) = 0 \<and> tp_threads (workers p) = tp_threads p \<and> tp_queue (workers p) = tp_queue p"
  shows "objs = (if mq \<and> \<not> mt then {QueueObj} else {})"
proof -
  let ?p = "\<lparr>tp_threads = mt, tp_queue = (if mq then Some (replicate (nat qs) \<lparr>task_function = 0, task_argument = 0\<rparr>)
      else None), thread_count = 0, queue_size = qs, tp_head = 0, tp_tail = 0, tp_count = 0,
      shutdown = 0, started = 0\<rparr>"
  show ?thesis
  proof (cases "rc_mutex_init rc \<noteq> 0 \<or> rc_cond_init rc \<noteq> 0 \<or> \<not> mt \<or> \<not> mq")
    case True
    then have "objs = tp_objs ?p - snd (threadpool_free (Some ?p))"
      using assms(1) by (simp add: threadpool_create_def Let_def)
    then show ?thesis by (auto simp: tp_objs_def threadpool_free_def)
  next
    case False
    obtain ok p' where l: "create_loop (rc_create rc) 0 (nat tc) ?p = (ok, p')" by fastforce
    have o: "tp_objs p' = {PoolObj, ThreadsObj, QueueObj}" "shutdown p' = 0" "tp_threads p'" "tp_queue p' \<noteq> None"
      using create_loop_objs [OF l] False by (auto simp: tp_objs_def)
    have "\<not> ok" and ob: "objs = tp_objs p' - snd (snd (snd (threadpool_destroy rc workers (Some p') 0)))"
      using assms(1) False l by (auto simp: threadpool_create_def Let_def case_prod_unfold split: if_splits)
    have "snd (snd (snd (threadpool_destroy rc workers (Some p') 0))) = {PoolObj, ThreadsObj, QueueObj}"
      using o assms(2-6)
      by (auto simp: threadpool_destroy_def destroy_enter_def Let_def join_loop_ok threadpool_free_def)
    then show ?thesis using ob o(1) False by simp
  qed
qed

lemma create_failure_cleans_up_witness:
  "snd (threadpool_create rc_ok (\<lambda>p. p\<lparr>started := 0\<rparr>) True False True 4 8) = {QueueObj}"
proof -
  obtain objs where c: "threadpool_create rc_ok (\<lambda>p. p\<lparr>started := 0\<rparr>) True False True 4 8 = (None, objs)"
    by (simp add: threadpool_create_def Let_def)
  from create_failure_cleans_up [OF this] have "objs = {QueueObj}" by (simp add: rc_ok_def)
  with c show ?thesis by simp
qed

end
