(* ===== verification/ProjectDfn.thy ===== *)
theory ProjectDfn
  imports MemPool
begin

text \<open>
  \<open>FULMemoryPool/CProjectDfn.h\<close> and \<open>CProjectDfn.c\<close>: the allocation counters of the debug mode, the
  path helpers and the arithmetic macros.  A path is the object that holds it (a list of bytes); an
  index outside of it is a \<open>Fault\<close>.  The macros over system calls (\<open>open\<close>, \<open>unlink\<close>, \<open>mkdir\<close>, ...) and the
  functions that only print are not modelled.
\<close>

section \<open>Translation\<close>

text \<open>The counters are 32-bit and wrap.\<close>

record mem_counters =
  allocateCount :: u32_t
  freeCount :: u32_t

definition my_malloc :: "allocator \<Rightarrow> u32_t \<Rightarrow> mem_counters \<times> mheap \<Rightarrow> addr option \<times> mem_counters \<times> mheap" where
  "my_malloc mal uSize s =
     (case sys_malloc mal (unat uSize) (snd s) of (p, h) \<Rightarrow>
        (p, (fst s)\<lparr>allocateCount := allocateCount (fst s) + 1\<rparr>, h))"

definition my_free :: "addr option \<Rightarrow> mem_counters \<times> mheap \<Rightarrow> (mem_counters \<times> mheap) run" where
  "my_free pPtr s =
     (let c = (fst s)\<lparr>freeCount := freeCount (fst s) + 1\<rparr> in
      case pPtr of None \<Rightarrow> Done (c, snd s) | Some a \<Rightarrow> run_bind (sys_free a (snd s)) (\<lambda>h. Done (c, h)))"

definition ResetMemoryCounter :: "mem_counters \<Rightarrow> mem_counters" where
  "ResetMemoryCounter c = c\<lparr>allocateCount := 0, freeCount := 0\<rparr>"

text \<open>The two numbers are printed; the counters start again.\<close>

definition PrintMemoryManagementInf :: "mem_counters \<Rightarrow> (u32_t \<times> u32_t) \<times> mem_counters" where
  "PrintMemoryManagementInf c = ((allocateCount c, freeCount c), ResetMemoryCounter c)"

text \<open>\<open>FREE (ptr)\<close> sets the pointer to NULL; \<open>SECURE_FREE\<close> does nothing for a null pointer.\<close>

definition FREE :: "addr option \<Rightarrow> mem_counters \<times> mheap \<Rightarrow> (addr option \<times> mem_counters \<times> mheap) run" where
  "FREE p s = run_bind (my_free p s) (\<lambda>s'. Done (None, s'))"

definition SECURE_FREE :: "addr option \<Rightarrow> mem_counters \<times> mheap \<Rightarrow> (addr option \<times> mem_counters \<times> mheap) run" where
  "SECURE_FREE p s = (if p \<noteq> None then FREE p s else Done (p, s))"

definition PATH_DIDIVDER :: u8_t where "PATH_DIDIVDER = 47"

definition AddSlashAtPathEnd :: "u8_t list \<Rightarrow> u8_t list run" where
  "AddSlashAtPathEnd path =
     (case strlen path of
        None \<Rightarrow> Fault
      | Some n \<Rightarrow>
          if n = 0 then Fault
          else if path ! (n - 1) \<noteq> PATH_DIDIVDER then
            (if n + 1 \<ge> length path then Fault
             else
               let path1 = path[n + 1 := 0] in
               case strlen path1 of None \<Rightarrow> Fault | Some m \<Rightarrow> Done (path1[m := PATH_DIDIVDER]))
          else Done path)"

definition RemoveSlashAtPathEnd :: "u8_t list \<Rightarrow> u8_t list run" where
  "RemoveSlashAtPathEnd path =
     (case strlen path of
        None \<Rightarrow> Fault
      | Some n \<Rightarrow>
          if n = 0 then Fault
          else if path ! (n - 1) = PATH_DIDIVDER then Done (path[n - 1 := 0])
          else Done path)"

text \<open>\<open>strcpy\<close> into an array of \<open>n\<close> bytes, \<open>strcat\<close>, and the comparison of two strings.\<close>

definition PATH_COPY :: "nat \<Rightarrow> u8_t list \<Rightarrow> u8_t list run" where
  "PATH_COPY n y = (case strlen y of None \<Rightarrow> Fault
     | Some m \<Rightarrow> if n < m + 1 then Fault else Done (take (m + 1) y @ replicate (n - (m + 1)) 0))"

definition strcat :: "u8_t list \<Rightarrow> u8_t list \<Rightarrow> u8_t list run" where
  "strcat x y =
     (case (strlen x, strlen y) of
        (Some n, Some m) \<Rightarrow>
          if n + m + 1 > length x then Fault else Done (take n x @ take (m + 1) y @ drop (n + m + 1) x)
      | _ \<Rightarrow> Fault)"

definition IS_SAME_STRING :: "u8_t list \<Rightarrow> u8_t list \<Rightarrow> bool run" where
  "IS_SAME_STRING x y =
     (case (strlen x, strlen y) of (Some _, Some _) \<Rightarrow> Done (cstr x = cstr y) | _ \<Rightarrow> Fault)"

definition PATH_CAT :: "u8_t list \<Rightarrow> u8_t list \<Rightarrow> u8_t list run" where
  "PATH_CAT x y = run_bind (AddSlashAtPathEnd x) (\<lambda>x'. strcat x' y)"

definition isSamePath :: "u8_t list \<Rightarrow> u8_t list \<Rightarrow> bool run" where
  "isSamePath path1 path2 =
     (case (strlen path1, strlen path2) of
        (Some n1, Some n2) \<Rightarrow>
          run_bind (PATH_COPY (n1 + 1) path1) (\<lambda>p1.
          run_bind (PATH_COPY (n2 + 1) path2) (\<lambda>p2.
          run_bind (RemoveSlashAtPathEnd p1) (\<lambda>p1.
          run_bind (RemoveSlashAtPathEnd p2) (\<lambda>p2.
            IS_SAME_STRING p1 p2))))
      | _ \<Rightarrow> Fault)"

definition IsDirNameSelfOrParent :: "u8_t list \<Rightarrow> bool run" where
  "IsDirNameSelfOrParent x =
     run_bind (IS_SAME_STRING x [46, 0]) (\<lambda>a. if a then Done True else IS_SAME_STRING x [46, 46, 0])"

text \<open>The arithmetic macros at 32 bits, signed.\<close>

definition swap :: "s32_t \<Rightarrow> s32_t \<Rightarrow> s32_t \<times> s32_t" where
  "swap x y = (let x1 = x + y; y1 = x1 - y; x2 = x1 - y1 in (x2, y1))"

definition MIN_macro :: "s32_t \<Rightarrow> s32_t \<Rightarrow> s32_t" where "MIN_macro x y = (if x <s y then x else y)"
definition MAX_macro :: "s32_t \<Rightarrow> s32_t \<Rightarrow> s32_t" where "MAX_macro x y = (if y <s x then x else y)"
definition ABS_macro :: "s32_t \<Rightarrow> s32_t" where "ABS_macro x = (if x <s 0 then - x else x)"
definition CLAMP :: "s32_t \<Rightarrow> s32_t \<Rightarrow> s32_t \<Rightarrow> s32_t" where
  "CLAMP x low high = (if high <s x then high else if x <s low then low else x)"
definition DEC_CHECK :: "u8_t \<Rightarrow> bool" where "DEC_CHECK x \<longleftrightarrow> x \<ge> 48 \<and> x \<le> 57"
definition SECUR_INC :: "u32_t \<Rightarrow> u32_t \<Rightarrow> u32_t" where
  "SECUR_INC val number = (if val + number > val then val + number else val)"

section \<open>Paths\<close>

text \<open>The path without one slash at its end.\<close>

definition strip_slash :: "u8_t list \<Rightarrow> u8_t list" where
  "strip_slash t = (if t \<noteq> [] \<and> last t = PATH_DIDIVDER then butlast t else t)"

lemma path_copy_own:
  assumes "0 \<notin> set t"
  shows "PATH_COPY (length t + 1) (t @ 0 # rest) = Done (t @ [0])"
  using assms by (simp add: PATH_COPY_def)

lemma remove_slash_text:
  assumes "0 \<notin> set t" "t \<noteq> []"
  shows "\<exists>rest. RemoveSlashAtPathEnd (t @ [0]) = Done (strip_slash t @ 0 # rest)"
proof -
  have l: "(t @ [0]) ! (length t - 1) = last t" using assms(2) by (simp add: nth_append last_conv_nth)
  have "(t @ [0])[length t - 1 := 0] = butlast t @ [0, 0]"
    using assms(2) by (cases t rule: rev_cases) auto
  then show ?thesis using assms l
    by (auto simp: RemoveSlashAtPathEnd_def strip_slash_def)
qed

lemma strip_slash_nonzero: "0 \<notin> set t \<Longrightarrow> 0 \<notin> set (strip_slash t)"
  by (auto simp: strip_slash_def dest: in_set_butlastD)

text \<open>
  \<open>isSamePath\<close> compares two non-empty paths up to one slash at the end of each, and it reads
  outside its local array when a path is empty.
\<close>

theorem same_path_modulo_slash:
  assumes "0 \<notin> set t" "0 \<notin> set u"
  shows "isSamePath (t @ 0 # r) (u @ 0 # q) =
    (if t = [] \<or> u = [] then Fault else Done (strip_slash t = strip_slash u))"
proof (cases "t = [] \<or> u = []")
  case True
  then show ?thesis using assms remove_slash_text [of t]
    by (cases "t = []") (auto simp: isSamePath_def path_copy_own RemoveSlashAtPathEnd_def PATH_COPY_def)
next
  case False
  obtain r1 r2 where "RemoveSlashAtPathEnd (t @ [0]) = Done (strip_slash t @ 0 # r1)"
    "RemoveSlashAtPathEnd (u @ [0]) = Done (strip_slash u @ 0 # r2)"
    using remove_slash_text [OF assms(1), of] remove_slash_text [OF assms(2), of] False by auto
  then show ?thesis using assms False strip_slash_nonzero
    by (simp add: isSamePath_def path_copy_own [simplified] IS_SAME_STRING_def)
qed

lemma same_path_modulo_slash_witness:
  "isSamePath ([97, 47] @ 0 # []) ([97] @ 0 # []) = Done True"
  using same_path_modulo_slash [of "[97, 47]" "[97]" "[]" "[]"] by (simp add: strip_slash_def PATH_DIDIVDER_def)

text \<open>
  \<open>AddSlashAtPathEnd\<close> on a non-empty path with room for one more character leaves the path ended by
  exactly one more slash when it had none, and unchanged otherwise.
\<close>

theorem add_slash_spec:
  assumes "0 \<notin> set t" "t \<noteq> []" "r \<noteq> []"
  shows "\<exists>r'. AddSlashAtPathEnd (t @ 0 # r) =
    Done ((if last t = PATH_DIDIVDER then t else t @ [PATH_DIDIVDER]) @ 0 # r')"
proof (cases "last t = PATH_DIDIVDER")
  case True
  have l: "(t @ 0 # r) ! (length t - 1) = last t" using assms(2) by (simp add: nth_append last_conv_nth)
  show ?thesis using assms True l by (auto simp: AddSlashAtPathEnd_def)
next
  case False
  obtain x r' where r: "r = x # r'" using assms(3) by (cases r) auto
  have l: "(t @ 0 # r) ! (length t - 1) = last t" using assms(2) by (simp add: nth_append last_conv_nth)
  have upd: "(t @ 0 # r)[length t + 1 := 0] = t @ 0 # 0 # r'" by (simp add: r list_update_append)
  have "AddSlashAtPathEnd (t @ 0 # r) = Done ((t @ [PATH_DIDIVDER]) @ 0 # r')"
    using assms False l upd by (simp add: AddSlashAtPathEnd_def r Let_def)
  then show ?thesis using False by auto
qed

lemma add_slash_spec_witness: "\<exists>r'. AddSlashAtPathEnd ([97] @ 0 # [0]) = Done ([97, 47] @ 0 # r')"
  using add_slash_spec [of "[97]" "[0]"] by (simp add: PATH_DIDIVDER_def)

text \<open>\<open>swap\<close> exchanges its arguments also when the sum wraps; \<open>SECUR_INC\<close> never wraps below.\<close>

lemma swap_exchanges: "swap x y = (y, x)"
  by (simp add: swap_def Let_def)

lemma secur_inc_mono: "SECUR_INC v n \<ge> v"
  by (simp add: SECUR_INC_def order_less_imp_le)

end
