(* ===== verification/EvTypes.thy ===== *)
theory EvTypes
  imports Prelude
begin

text \<open>
  \<open>libev-4.15/ev.h\<close>: event bits, priorities, watchers and the macros that set them up.

  Configuration: the default features of \<open>ev.h\<close> (\<open>EV_FEATURES\<close> 0x7f): five priorities, the 4-heap
  with cached times, all watcher types.  A watcher is known by its address (\<open>wid\<close>); the memory of
  the watchers is the map \<open>wt\<close> of the loop.  The watcher structs share their first members
  (\<open>ev_any_watcher\<close> forces the layouts to agree), so one record holds the members of all of them; a
  watcher of one type leaves the members of the others alone.  \<open>ev_tstamp\<close> (a \<open>double\<close>) is a real
  number: rounding is not modelled.  Event masks are 32-bit words.  Members of the loop are added
  theory by theory, each extending the record of the one before.
\<close>

section \<open>Constants\<close>

type_synonym ev_tstamp = real
type_synonym wid = nat
type_synonym evmask = "32 word"

definition EV_MINPRI :: int where "EV_MINPRI = -2"
definition EV_MAXPRI :: int where "EV_MAXPRI = 2"
definition NUMPRI :: nat where "NUMPRI = nat (EV_MAXPRI - EV_MINPRI + 1)"

definition EV_UNDEF :: evmask where "EV_UNDEF = 0xFFFFFFFF"
definition EV_NONE :: evmask where "EV_NONE = 0"
definition EV_READ :: evmask where "EV_READ = 1"
definition EV_WRITE :: evmask where "EV_WRITE = 2"
definition EV__IOFDSET :: evmask where "EV__IOFDSET = 0x80"
definition EV_TIMER :: evmask where "EV_TIMER = 0x100"
definition EV_PERIODIC :: evmask where "EV_PERIODIC = 0x200"
definition EV_SIGNAL :: evmask where "EV_SIGNAL = 0x400"
definition EV_CHILD :: evmask where "EV_CHILD = 0x800"
definition EV_STAT :: evmask where "EV_STAT = 0x1000"
definition EV_IDLE :: evmask where "EV_IDLE = 0x2000"
definition EV_PREPARE :: evmask where "EV_PREPARE = 0x4000"
definition EV_CHECK :: evmask where "EV_CHECK = 0x8000"
definition EV_EMBED :: evmask where "EV_EMBED = 0x10000"
definition EV_FORK :: evmask where "EV_FORK = 0x20000"
definition EV_CLEANUP :: evmask where "EV_CLEANUP = 0x40000"
definition EV_ASYNC :: evmask where "EV_ASYNC = 0x80000"
definition EV_CUSTOM :: evmask where "EV_CUSTOM = 0x1000000"
definition EV_ERROR :: evmask where "EV_ERROR = 0x80000000"

lemma NUMPRI_5 [simp]: "NUMPRI = 5"
  by (simp add: NUMPRI_def EV_MINPRI_def EV_MAXPRI_def)

section \<open>Watchers\<close>

record watcher =
  active :: int
  pending :: nat
  priority :: int
  cb :: nat
  w_next :: "wid option"
  io_fd :: int
  io_events :: evmask
  w_at :: ev_tstamp
  w_repeat :: ev_tstamp
  w_offset :: ev_tstamp
  w_interval :: ev_tstamp
  reschedule_cb :: "(ev_tstamp \<Rightarrow> ev_tstamp) option"
  signum :: int
  child_flags :: int
  child_pid :: int
  child_rpid :: int
  child_rstatus :: int
  async_sent :: bool

definition ev_set_priority :: "int \<Rightarrow> watcher \<Rightarrow> watcher" where
  "ev_set_priority pri w = w\<lparr>priority := pri\<rparr>"

definition ev_init :: "nat \<Rightarrow> watcher \<Rightarrow> watcher" where
  "ev_init c w = (ev_set_priority 0 (w\<lparr>active := 0, pending := 0\<rparr>))\<lparr>cb := c\<rparr>"

definition ev_io_set :: "int \<Rightarrow> evmask \<Rightarrow> watcher \<Rightarrow> watcher" where
  "ev_io_set fd ev w = w\<lparr>io_fd := fd, io_events := ev OR EV__IOFDSET\<rparr>"

definition ev_timer_set :: "ev_tstamp \<Rightarrow> ev_tstamp \<Rightarrow> watcher \<Rightarrow> watcher" where
  "ev_timer_set after rep w = w\<lparr>w_at := after, w_repeat := rep\<rparr>"

definition ev_periodic_set ::
    "ev_tstamp \<Rightarrow> ev_tstamp \<Rightarrow> (ev_tstamp \<Rightarrow> ev_tstamp) option \<Rightarrow> watcher \<Rightarrow> watcher" where
  "ev_periodic_set ofs ival rcb w = w\<lparr>w_offset := ofs, w_interval := ival, reschedule_cb := rcb\<rparr>"

definition ev_signal_set :: "int \<Rightarrow> watcher \<Rightarrow> watcher" where
  "ev_signal_set sg w = w\<lparr>signum := sg\<rparr>"

definition ev_child_set :: "int \<Rightarrow> int \<Rightarrow> watcher \<Rightarrow> watcher" where
  "ev_child_set p trace w = w\<lparr>child_pid := p, child_flags := (if trace \<noteq> 0 then 1 else 0)\<rparr>"

definition ev_io_init :: "nat \<Rightarrow> int \<Rightarrow> evmask \<Rightarrow> watcher \<Rightarrow> watcher" where
  "ev_io_init c fd ev w = ev_io_set fd ev (ev_init c w)"

definition ev_timer_init :: "nat \<Rightarrow> ev_tstamp \<Rightarrow> ev_tstamp \<Rightarrow> watcher \<Rightarrow> watcher" where
  "ev_timer_init c after rep w = ev_timer_set after rep (ev_init c w)"

definition ev_periodic_init ::
    "nat \<Rightarrow> ev_tstamp \<Rightarrow> ev_tstamp \<Rightarrow> (ev_tstamp \<Rightarrow> ev_tstamp) option \<Rightarrow> watcher \<Rightarrow> watcher" where
  "ev_periodic_init c ofs ival rcb w = ev_periodic_set ofs ival rcb (ev_init c w)"

definition ev_signal_init :: "nat \<Rightarrow> int \<Rightarrow> watcher \<Rightarrow> watcher" where
  "ev_signal_init c sg w = ev_signal_set sg (ev_init c w)"

definition ev_child_init :: "nat \<Rightarrow> int \<Rightarrow> int \<Rightarrow> watcher \<Rightarrow> watcher" where
  "ev_child_init c p trace w = ev_child_set p trace (ev_init c w)"

definition ev_is_pending :: "watcher \<Rightarrow> bool" where "ev_is_pending w \<longleftrightarrow> pending w \<noteq> 0"
definition ev_is_active :: "watcher \<Rightarrow> bool" where "ev_is_active w \<longleftrightarrow> active w \<noteq> 0"

section \<open>The loop: watchers, reference count and pending events\<close>

text \<open>
  The members every part of the loop uses.  \<open>pendings\<close> holds the used part of the arrays of
  \<open>ANPENDING\<close> (watcher and event set), one list per priority: \<open>pendingcnt[p]\<close> is its length.
\<close>

record ev_base =
  wt :: "wid \<Rightarrow> watcher"
  activecnt :: int
  pendings :: "nat \<Rightarrow> (wid \<times> evmask) list"
  pendingpri :: nat
  rfeeds :: "wid list"

text \<open>The dummy watcher \<open>pending_w\<close> of the loop.\<close>

definition pending_w :: wid where "pending_w = 0"

abbreviation upd_w :: "wid \<Rightarrow> (watcher \<Rightarrow> watcher) \<Rightarrow> 'a ev_base_scheme \<Rightarrow> 'a ev_base_scheme" where
  "upd_w w f s \<equiv> s\<lparr>wt := (wt s)(w := f (wt s w))\<rparr>"

definition ABSPRI :: "watcher \<Rightarrow> nat" where
  "ABSPRI w = nat (priority w - EV_MINPRI)"

section \<open>Lemmas\<close>

lemma ev_init_members [simp]:
  "active (ev_init c w) = 0" "pending (ev_init c w) = 0" "priority (ev_init c w) = 0" "cb (ev_init c w) = c"
  by (simp_all add: ev_init_def ev_set_priority_def)

lemma ev_io_init_members [simp]:
  "active (ev_io_init c fd ev w) = 0" "pending (ev_io_init c fd ev w) = 0"
  "io_fd (ev_io_init c fd ev w) = fd" "io_events (ev_io_init c fd ev w) = ev OR EV__IOFDSET"
  by (simp_all add: ev_io_init_def ev_io_set_def)

end
