(* ===== verification/EvHeap.thy ===== *)
theory EvHeap
  imports EvTypes "HOL-Library.Multiset"
begin

text \<open>
  The heaps of \<open>libev-4.15/ev.c\<close> (timers and periodics).  A heap is an array of \<open>ANHE\<close> (cached time
  and watcher) whose first element is at index \<open>HEAP0\<close>; every move of an element is recorded in the
  \<open>active\<close> member of its watcher.  Both compiled variants are translated: the 4-heap, which the
  default configuration uses (\<open>downheap\<close>, \<open>upheap\<close>, \<open>adjustheap\<close>, \<open>reheap\<close>), and the 2-heap
  (\<open>downheap2\<close>, \<open>upheap2\<close>).  The locale \<open>dheap\<close> holds the argument they share.
\<close>

section \<open>Translation\<close>

record ANHE =
  ANHE_at :: ev_tstamp
  ANHE_w :: wid

type_synonym heap = "nat \<Rightarrow> ANHE"

definition set_active :: "wid \<Rightarrow> int \<Rightarrow> (wid \<Rightarrow> watcher) \<Rightarrow> wid \<Rightarrow> watcher" where
  "set_active w k wm = wm(w := (wm w)\<lparr>active := k\<rparr>)"

definition DHEAP :: nat where "DHEAP = 4"
definition HEAP0 :: nat where "HEAP0 = DHEAP - 1"

text \<open>\<open>(k - HEAP0 - 1) / DHEAP + HEAP0\<close>: C division truncates towards 0, so the root is its own
  parent; the truncated subtraction of \<open>nat\<close> agrees for every \<open>k\<close> that is an index.\<close>

definition HPARENT :: "nat \<Rightarrow> nat" where "HPARENT k = (k - HEAP0 - 1) div DHEAP + HEAP0"

definition fast_pick :: "heap \<Rightarrow> nat \<Rightarrow> nat \<Rightarrow> nat" where
  "fast_pick heap m j = (if ANHE_at (heap j) < ANHE_at (heap m) then j else m)"

definition slow_pick :: "heap \<Rightarrow> nat \<Rightarrow> nat \<Rightarrow> nat \<Rightarrow> nat" where
  "slow_pick heap E m j = (if j < E \<and> ANHE_at (heap j) < ANHE_at (heap m) then j else m)"

definition min_child :: "heap \<Rightarrow> nat \<Rightarrow> nat \<Rightarrow> nat option" where
  "min_child heap E k =
     (let pos = DHEAP * (k - HEAP0) + HEAP0 + 1 in
      if pos + DHEAP - 1 < E then
        Some (fast_pick heap (fast_pick heap (fast_pick heap pos (pos + 1)) (pos + 2)) (pos + 3))
      else if pos < E then
        Some (slow_pick heap E (slow_pick heap E (slow_pick heap E pos (pos + 1)) (pos + 2)) (pos + 3))
      else None)"

lemma fast_pick_range: "fast_pick h m j \<in> {m, j}" and slow_pick_range: "slow_pick h E m j \<in> {m, j}"
  by (auto simp: fast_pick_def slow_pick_def)

lemma slow_pick_lt: "m < E \<Longrightarrow> slow_pick h E m j < E"
  by (simp add: slow_pick_def)

lemma min_child_pos:
  assumes "min_child heap E k = Some c"
  shows "DHEAP * (k - HEAP0) + HEAP0 + 1 \<le> c \<and> c \<le> DHEAP * (k - HEAP0) + HEAP0 + 4 \<and> c < E"
proof -
  obtain p where p: "p = DHEAP * (k - HEAP0) + HEAP0 + 1" by simp
  have "c \<in> {p, p + 1, p + 2, p + 3} \<and> c < E"
  proof (cases "p + DHEAP - 1 < E")
    case True
    obtain x y where x: "x = fast_pick heap p (p + 1)" and y: "y = fast_pick heap x (p + 2)" by simp
    have "c = fast_pick heap y (p + 3)"
      using assms True unfolding min_child_def p [symmetric] by (simp add: x y)
    then have "c \<in> {p, p + 1, p + 2, p + 3}"
      using fast_pick_range [of heap p "p + 1"] fast_pick_range [of heap x "p + 2"]
        fast_pick_range [of heap y "p + 3"] x y by auto
    with True show ?thesis by (auto simp: DHEAP_def)
  next
    case False
    obtain x y where x: "x = slow_pick heap E p (p + 1)" and y: "y = slow_pick heap E x (p + 2)" by simp
    have c: "c = slow_pick heap E y (p + 3)" and lt: "p < E"
      using assms False unfolding min_child_def p [symmetric] by (simp_all add: x y split: if_splits)
    have "c < E" unfolding c y x by (intro slow_pick_lt lt)
    then show ?thesis
      using slow_pick_range [of heap E p "p + 1"] slow_pick_range [of heap E x "p + 2"]
        slow_pick_range [of heap E y "p + 3"] x y c by auto
  qed
  then show ?thesis unfolding p by auto
qed

lemma min_child_range: "min_child heap E k = Some c \<Longrightarrow> k < c \<and> c < E"
  by (drule min_child_pos) (auto simp: DHEAP_def HEAP0_def)

text \<open>The loops carry the element \<open>he\<close> that was at the start index; it is stored at the end.\<close>

function downheap_loop :: "nat \<Rightarrow> nat \<Rightarrow> ANHE \<Rightarrow> heap \<times> (wid \<Rightarrow> watcher) \<Rightarrow> heap \<times> (wid \<Rightarrow> watcher)" where
  "downheap_loop N k he (heap, wm) =
     (case min_child heap (N + HEAP0) k of
        None \<Rightarrow> (heap(k := he), set_active (ANHE_w he) (int k) wm)
      | Some c \<Rightarrow>
          if ANHE_at he \<le> ANHE_at (heap c) then (heap(k := he), set_active (ANHE_w he) (int k) wm)
          else downheap_loop N c he (heap(k := heap c), set_active (ANHE_w (heap c)) (int k) wm))"
  by pat_completeness auto
termination
  by (relation "measure (\<lambda>(N, k, he, s). N + HEAP0 - k)") (auto dest: min_child_range)

definition downheap :: "nat \<Rightarrow> nat \<Rightarrow> heap \<times> (wid \<Rightarrow> watcher) \<Rightarrow> heap \<times> (wid \<Rightarrow> watcher)" where
  "downheap N k s = downheap_loop N k (fst s k) s"

function upheap_loop :: "nat \<Rightarrow> ANHE \<Rightarrow> heap \<times> (wid \<Rightarrow> watcher) \<Rightarrow> heap \<times> (wid \<Rightarrow> watcher)" where
  "upheap_loop k he (heap, wm) =
     (let p = HPARENT k in
      if p = k \<or> ANHE_at (heap p) \<le> ANHE_at he then (heap(k := he), set_active (ANHE_w he) (int k) wm)
      else upheap_loop p he (heap(k := heap p), set_active (ANHE_w (heap p)) (int k) wm))"
  by pat_completeness auto
termination
  by (relation "measure (\<lambda>(k, he, s). if k < HEAP0 then HEAP0 + 1 else k)")
    (auto simp: HPARENT_def HEAP0_def DHEAP_def)

definition upheap :: "nat \<Rightarrow> heap \<times> (wid \<Rightarrow> watcher) \<Rightarrow> heap \<times> (wid \<Rightarrow> watcher)" where
  "upheap k s = upheap_loop k (fst s k) s"

definition adjustheap :: "nat \<Rightarrow> nat \<Rightarrow> heap \<times> (wid \<Rightarrow> watcher) \<Rightarrow> heap \<times> (wid \<Rightarrow> watcher)" where
  "adjustheap N k s =
     (if k > HEAP0 \<and> ANHE_at (fst s k) \<le> ANHE_at (fst s (HPARENT k)) then upheap k s else downheap N k s)"

definition reheap :: "nat \<Rightarrow> heap \<times> (wid \<Rightarrow> watcher) \<Rightarrow> heap \<times> (wid \<Rightarrow> watcher)" where
  "reheap N s = fold (\<lambda>i. upheap (i + HEAP0)) [0..<N] s"

text \<open>The 2-heap.\<close>

definition HEAP0_2 :: nat where "HEAP0_2 = 1"
definition HPARENT_2 :: "nat \<Rightarrow> nat" where "HPARENT_2 k = drop_bit 1 k"

definition min_child2 :: "heap \<Rightarrow> nat \<Rightarrow> nat \<Rightarrow> nat option" where
  "min_child2 heap E k =
     (let c = push_bit 1 k in
      if c \<ge> E then None
      else Some (c + (if c + 1 < E \<and> ANHE_at (heap c) > ANHE_at (heap (c + 1)) then 1 else 0)))"

lemma min_child2_range: "0 < k \<Longrightarrow> min_child2 heap E k = Some c \<Longrightarrow> k < c \<and> c < E"
  by (auto simp: min_child2_def Let_def push_bit_eq_mult split: if_splits)

text \<open>Index 0 is not in use; the loop below is never called with it, so its branch only serves
  the termination proof.\<close>

function downheap2_loop :: "nat \<Rightarrow> nat \<Rightarrow> ANHE \<Rightarrow> heap \<times> (wid \<Rightarrow> watcher) \<Rightarrow> heap \<times> (wid \<Rightarrow> watcher)" where
  "downheap2_loop N k he (heap, wm) =
     (if k = 0 then (heap, wm) else
      case min_child2 heap (N + HEAP0_2) k of
        None \<Rightarrow> (heap(k := he), set_active (ANHE_w he) (int k) wm)
      | Some c \<Rightarrow>
          if ANHE_at he \<le> ANHE_at (heap c) then (heap(k := he), set_active (ANHE_w he) (int k) wm)
          else downheap2_loop N c he (heap(k := heap c), set_active (ANHE_w (heap c)) (int k) wm))"
  by pat_completeness auto
termination
  by (relation "measure (\<lambda>(N, k, he, s). N + HEAP0_2 - k)") (auto dest: min_child2_range)

definition downheap2 :: "nat \<Rightarrow> nat \<Rightarrow> heap \<times> (wid \<Rightarrow> watcher) \<Rightarrow> heap \<times> (wid \<Rightarrow> watcher)" where
  "downheap2 N k s = downheap2_loop N k (fst s k) s"

function upheap2_loop :: "nat \<Rightarrow> ANHE \<Rightarrow> heap \<times> (wid \<Rightarrow> watcher) \<Rightarrow> heap \<times> (wid \<Rightarrow> watcher)" where
  "upheap2_loop k he (heap, wm) =
     (let p = HPARENT_2 k in
      if p = 0 \<or> ANHE_at (heap p) \<le> ANHE_at he then (heap(k := he), set_active (ANHE_w he) (int k) wm)
      else upheap2_loop p he (heap(k := heap p), set_active (ANHE_w (heap p)) (int k) wm))"
  by pat_completeness auto
termination
  by (relation "measure (\<lambda>(k, he, s). k)") (auto simp: HPARENT_2_def drop_bit_eq_div)

definition upheap2 :: "nat \<Rightarrow> heap \<times> (wid \<Rightarrow> watcher) \<Rightarrow> heap \<times> (wid \<Rightarrow> watcher)" where
  "upheap2 k s = upheap2_loop k (fst s k) s"

section \<open>Heaps with a parent function\<close>

text \<open>
  The state of a loop is described by the array with \<open>he\<close> stored at the hole: one iteration then
  exchanges two elements.
\<close>

definition exchange :: "nat \<Rightarrow> nat \<Rightarrow> heap \<Rightarrow> heap" where
  "exchange i j h = h(i := h j, j := h i)"

definition elems :: "nat \<Rightarrow> nat \<Rightarrow> heap \<Rightarrow> ANHE list" where
  "elems rt N h = map h [rt..<rt + N]"

lemma map_upt_update:
  "a \<le> k \<Longrightarrow> k < b \<Longrightarrow> map (h(k := x)) [a..<b] = (map h [a..<b])[k - a := x]"
  by (auto intro!: nth_equalityI simp: nth_list_update)

lemma mset_exchange:
  assumes "rt \<le> i" "i < rt + N" "rt \<le> j" "j < rt + N"
  shows "mset (elems rt N (exchange i j h)) = mset (elems rt N h)"
proof -
  have "elems rt N (exchange i j h) = (elems rt N h)[i - rt := h j, j - rt := h i]"
    using assms by (simp add: elems_def exchange_def map_upt_update)
  also have "\<dots> = (elems rt N h)[i - rt := elems rt N h ! (j - rt), j - rt := elems rt N h ! (i - rt)]"
    using assms by (simp add: elems_def)
  finally have e: "elems rt N (exchange i j h) =
    (elems rt N h)[i - rt := elems rt N h ! (j - rt), j - rt := elems rt N h ! (i - rt)]" .
  show ?thesis unfolding e by (rule mset_swap) (use assms in \<open>auto simp: elems_def\<close>)
qed

text \<open>Every watcher of the heap knows its index, with an exception at the hole.\<close>

definition indexed_but :: "nat \<Rightarrow> nat \<Rightarrow> nat set \<Rightarrow> heap \<Rightarrow> (wid \<Rightarrow> watcher) \<Rightarrow> bool" where
  "indexed_but rt N K h wm \<longleftrightarrow>
     distinct (map ANHE_w (elems rt N h))
   \<and> (\<forall>j. rt \<le> j \<and> j < rt + N \<and> j \<notin> K \<longrightarrow> active (wm (ANHE_w (h j))) = int j)"

lemma distinct_elems_iff:
  "distinct (map ANHE_w (elems rt N h)) \<longleftrightarrow>
     (\<forall>i j. rt \<le> i \<and> i < rt + N \<and> rt \<le> j \<and> j < rt + N \<and> ANHE_w (h i) = ANHE_w (h j) \<longrightarrow> i = j)"
  by (auto simp: elems_def distinct_map inj_on_def comp_def)

lemma distinct_exchange:
  assumes "rt \<le> i" "i < rt + N" "rt \<le> j" "j < rt + N"
  shows "distinct (map ANHE_w (elems rt N (exchange i j h))) = distinct (map ANHE_w (elems rt N h))"
  using mset_exchange [OF assms, of h] by (metis mset_eq_imp_distinct_iff mset_map)

lemma indexed_exchange:
  assumes "indexed_but rt N {k} h wm" "rt \<le> k" "k < rt + N" "rt \<le> c" "c < rt + N" "c \<noteq> k"
  shows "indexed_but rt N {c} (exchange k c h) (set_active (ANHE_w (h c)) (int k) wm)"
proof -
  have d: "\<And>i j. rt \<le> i \<Longrightarrow> i < rt + N \<Longrightarrow> rt \<le> j \<Longrightarrow> j < rt + N \<Longrightarrow> ANHE_w (h i) = ANHE_w (h j) \<Longrightarrow> i = j"
    using assms(1) unfolding indexed_but_def distinct_elems_iff by blast
  show ?thesis
    using assms d [of _ c]
    by (auto simp: indexed_but_def distinct_exchange, auto simp: exchange_def set_active_def)
qed

lemma indexed_final:
  assumes "indexed_but rt N {k} h wm" "rt \<le> k" "k < rt + N"
  shows "indexed_but rt N {} h (set_active (ANHE_w (h k)) (int k) wm)"
proof -
  have "ANHE_w (h j) \<noteq> ANHE_w (h k)" if "rt \<le> j" "j < rt + N" "j \<noteq> k" for j
    using assms that unfolding indexed_but_def distinct_elems_iff by blast
  then show ?thesis using assms by (auto simp: indexed_but_def set_active_def)
qed

text \<open>Only the \<open>active\<close> members of the heap's watchers change.\<close>

definition only_active :: "wid set \<Rightarrow> (wid \<Rightarrow> watcher) \<Rightarrow> (wid \<Rightarrow> watcher) \<Rightarrow> bool" where
  "only_active W wm wm' \<longleftrightarrow> (\<forall>w. wm' w = (wm w)\<lparr>active := active (wm' w)\<rparr>) \<and> (\<forall>w. w \<notin> W \<longrightarrow> wm' w = wm w)"

lemma only_active_refl [simp]: "only_active W wm wm"
  by (simp add: only_active_def)

lemma only_active_set: "w \<in> W \<Longrightarrow> only_active W wm wm' \<Longrightarrow> only_active W wm (set_active w k wm')"
  by (auto simp: only_active_def set_active_def) (metis watcher.surjective watcher.update_convs(1))

lemma only_active_trans: "only_active W wm wt1 \<Longrightarrow> only_active W wt1 wt2 \<Longrightarrow> only_active W wm wt2"
  by (auto simp: only_active_def) (metis watcher.surjective watcher.update_convs(1))

locale dheap =
  fixes rt :: nat and parent :: "nat \<Rightarrow> nat"
  assumes parent_less: "rt < k \<Longrightarrow> rt \<le> parent k \<and> parent k < k"
begin

definition ordered :: "nat \<Rightarrow> heap \<Rightarrow> bool" where
  "ordered N h \<longleftrightarrow> (\<forall>j. rt < j \<and> j < rt + N \<longrightarrow> ANHE_at (h (parent j)) \<le> ANHE_at (h j))"

text \<open>Ordered, but for the element at \<open>k\<close>, which may be too large for its place.\<close>

definition down_ok :: "nat \<Rightarrow> nat \<Rightarrow> heap \<Rightarrow> bool" where
  "down_ok N k h \<longleftrightarrow>
     (\<forall>j. rt < j \<and> j < rt + N \<and> parent j \<noteq> k \<longrightarrow> ANHE_at (h (parent j)) \<le> ANHE_at (h j))
   \<and> (\<forall>j. rt < k \<and> rt < j \<and> j < rt + N \<and> parent j = k \<longrightarrow> ANHE_at (h (parent k)) \<le> ANHE_at (h j))"

text \<open>Ordered, but for the element at \<open>k\<close>, which may be too small for its place.\<close>

definition up_ok :: "nat \<Rightarrow> nat \<Rightarrow> heap \<Rightarrow> bool" where
  "up_ok N k h \<longleftrightarrow>
     (\<forall>j. rt < j \<and> j < rt + N \<and> j \<noteq> k \<longrightarrow> ANHE_at (h (parent j)) \<le> ANHE_at (h j))
   \<and> (\<forall>j. rt < k \<and> rt < j \<and> j < rt + N \<and> parent j = k \<longrightarrow> ANHE_at (h (parent k)) \<le> ANHE_at (h j))"

lemma down_done:
  "down_ok N k h \<Longrightarrow> (\<And>c. rt < c \<Longrightarrow> c < rt + N \<Longrightarrow> parent c = k \<Longrightarrow> ANHE_at (h k) \<le> ANHE_at (h c)) \<Longrightarrow> ordered N h"
  by (auto simp: down_ok_def ordered_def)

lemma down_step:
  assumes "down_ok N k h" "rt < c" "c < rt + N" "parent c = k" "rt \<le> k"
    and min: "\<And>d. rt < d \<Longrightarrow> d < rt + N \<Longrightarrow> parent d = k \<Longrightarrow> ANHE_at (h c) \<le> ANHE_at (h d)"
    and lt: "ANHE_at (h c) < ANHE_at (h k)"
  shows "down_ok N c (exchange k c h)"
proof -
  have kc: "k < c" using parent_less [OF assms(2)] assms(4) by simp
  have a: "ANHE_at (exchange k c h (parent j)) \<le> ANHE_at (exchange k c h j)"
    if j: "rt < j" "j < rt + N" "parent j \<noteq> c" for j
  proof (cases "parent j = k")
    case True
    then show ?thesis using min [OF j(1,2)] lt kc parent_less [OF j(1)]
      by (auto simp: exchange_def)
  next
    case False
    then have le: "ANHE_at (h (parent j)) \<le> ANHE_at (h j)" using assms(1) j by (auto simp: down_ok_def)
    show ?thesis
    proof (cases "j = k")
      case True
      then have "ANHE_at (h (parent k)) \<le> ANHE_at (h c)"
        using assms(1-4) j(1) by (auto simp: down_ok_def)
      then show ?thesis using True j False by (auto simp: exchange_def)
    next
      case jk: False
      then show ?thesis using le j False assms(4) by (auto simp: exchange_def)
    qed
  qed
  have b: "ANHE_at (exchange k c h (parent c)) \<le> ANHE_at (exchange k c h j)"
    if j: "rt < j" "j < rt + N" "parent j = c" for j
  proof -
    have "c < j" using parent_less [OF j(1)] j(3) by simp
    moreover have "ANHE_at (h c) \<le> ANHE_at (h j)" using assms(1) j kc by (auto simp: down_ok_def)
    ultimately show ?thesis using assms(4) kc by (auto simp: exchange_def)
  qed
  show ?thesis using a b by (auto simp: down_ok_def)
qed

lemma up_done:
  "up_ok N k h \<Longrightarrow> k = rt \<or> ANHE_at (h (parent k)) \<le> ANHE_at (h k) \<Longrightarrow> ordered N h"
  by (auto simp: up_ok_def ordered_def)

lemma up_step:
  assumes "up_ok N k h" "rt < k" "k < rt + N" and lt: "ANHE_at (h k) < ANHE_at (h (parent k))"
  shows "up_ok N (parent k) (exchange k (parent k) h)"
proof -
  let ?p = "parent k"
  have pk: "rt \<le> ?p" "?p < k" using parent_less [OF assms(2)] by auto
  have a: "ANHE_at (exchange k ?p h (parent j)) \<le> ANHE_at (exchange k ?p h j)"
    if j: "rt < j" "j < rt + N" "j \<noteq> ?p" for j
  proof (cases "j = k")
    case True
    then show ?thesis using lt pk by (auto simp: exchange_def)
  next
    case jk: False
    then have le: "ANHE_at (h (parent j)) \<le> ANHE_at (h j)" using assms(1) j by (auto simp: up_ok_def)
    show ?thesis
    proof (cases "parent j = k")
      case True
      then have "ANHE_at (h ?p) \<le> ANHE_at (h j)" using assms(1,2) j by (auto simp: up_ok_def)
      then show ?thesis using True jk j pk by (auto simp: exchange_def)
    next
      case False
      show ?thesis
      proof (cases "parent j = ?p")
        case True
        then show ?thesis using le lt jk j False by (auto simp: exchange_def)
      next
        case f2: False
        then show ?thesis using le jk j False by (auto simp: exchange_def)
      qed
    qed
  qed
  have b: "ANHE_at (exchange k ?p h (parent ?p)) \<le> ANHE_at (exchange k ?p h j)"
    if j: "rt < ?p" "rt < j" "j < rt + N" "parent j = ?p" for j
  proof -
    have pp: "parent ?p < ?p" using parent_less [OF j(1)] by simp
    have g: "ANHE_at (h (parent ?p)) \<le> ANHE_at (h ?p)" using assms(1-3) j(1) pk by (auto simp: up_ok_def)
    show ?thesis
    proof (cases "j = k")
      case True
      then show ?thesis using g pp pk by (auto simp: exchange_def)
    next
      case False
      have "ANHE_at (h ?p) \<le> ANHE_at (h j)" using assms(1) j False by (force simp: up_ok_def)
      moreover have "j \<noteq> ?p" using parent_less [OF j(2)] j(4) by auto
      ultimately show ?thesis using g pp pk False by (auto simp: exchange_def)
    qed
  qed
  show ?thesis using a b by (auto simp: up_ok_def)
qed

lemma ordered_root_min:
  "ordered N h \<Longrightarrow> rt \<le> j \<Longrightarrow> j < rt + N \<Longrightarrow> ANHE_at (h rt) \<le> ANHE_at (h j)"
proof (induction j rule: less_induct)
  case (less j)
  show ?case
  proof (cases "j = rt")
    case False
    then have j: "rt < j" using less.prems by simp
    then have "ANHE_at (h rt) \<le> ANHE_at (h (parent j))"
      using less parent_less [OF j] by simp
    also have "\<dots> \<le> ANHE_at (h j)" using less.prems j by (auto simp: ordered_def)
    finally show ?thesis .
  qed simp
qed

text \<open>
  What every heap routine promises: started on the array \<open>H\<close> it leaves an ordered heap of the same
  elements, every watcher knows its index, and nothing else changes.
\<close>

definition heap_result :: "nat \<Rightarrow> heap \<Rightarrow> (wid \<Rightarrow> watcher) \<Rightarrow> heap \<Rightarrow> (wid \<Rightarrow> watcher) \<Rightarrow> bool" where
  "heap_result N H wm h' wm' \<longleftrightarrow>
     ordered N h' \<and> indexed_but rt N {} h' wm' \<and> mset (elems rt N h') = mset (elems rt N H)
   \<and> only_active (ANHE_w ` set (elems rt N H)) wm wm'
   \<and> (\<forall>j. j < rt \<or> rt + N \<le> j \<longrightarrow> h' j = H j)"

lemma in_elems: "rt \<le> k \<Longrightarrow> k < rt + N \<Longrightarrow> H k \<in> set (elems rt N H)"
  by (simp add: elems_def)

lemma result_finish:
  assumes "ordered N H" "indexed_but rt N {k} H wm" "rt \<le> k" "k < rt + N"
  shows "heap_result N H wm H (set_active (ANHE_w (H k)) (int k) wm)"
  using assms indexed_final [OF assms(2-4)] in_elems [OF assms(3,4), of H]
  by (simp add: heap_result_def only_active_set)

lemma result_step:
  assumes "heap_result N (exchange k c H) (set_active (ANHE_w (H c)) i wm) h' wm'"
    and "rt \<le> k" "k < rt + N" "rt \<le> c" "c < rt + N"
  shows "heap_result N H wm h' wm'"
proof -
  have m: "mset (elems rt N (exchange k c H)) = mset (elems rt N H)" by (rule mset_exchange [OF assms(2-5)])
  then have st: "set (elems rt N (exchange k c H)) = set (elems rt N H)" by (metis set_mset_mset)
  have "only_active (ANHE_w ` set (elems rt N H)) wm (set_active (ANHE_w (H c)) i wm)"
    using in_elems [OF assms(4,5), of H] by (simp add: only_active_set)
  then show ?thesis
    using assms only_active_trans unfolding heap_result_def st m by (auto simp: exchange_def)
qed

end

lemma hole_moves: "c \<noteq> k \<Longrightarrow> (h(k := h c))(c := he) = exchange k c (h(k := he))"
  by (auto simp: exchange_def)

section \<open>The 4-heap\<close>

interpretation h4: dheap HEAP0 HPARENT
  by unfold_locales (auto simp: HPARENT_def HEAP0_def DHEAP_def)

lemma children4:
  "HEAP0 \<le> k \<Longrightarrow> HEAP0 < c \<Longrightarrow> HPARENT c = k \<longleftrightarrow>
     DHEAP * (k - HEAP0) + HEAP0 + 1 \<le> c \<and> c \<le> DHEAP * (k - HEAP0) + HEAP0 + 4"
  by (auto simp: HPARENT_def HEAP0_def DHEAP_def)

lemma min_child_None:
  assumes "min_child h (HEAP0 + N) k = None" "HEAP0 \<le> k" "HEAP0 < c" "c < HEAP0 + N"
  shows "HPARENT c \<noteq> k"
  using assms by (auto simp: children4 min_child_def Let_def split: if_splits)

lemma fast_pick_le: "ANHE_at (h (fast_pick h m j)) \<le> ANHE_at (h m)" "ANHE_at (h (fast_pick h m j)) \<le> ANHE_at (h j)"
  by (auto simp: fast_pick_def)

lemma slow_pick_le: "ANHE_at (h (slow_pick h E m j)) \<le> ANHE_at (h m)"
  "j < E \<Longrightarrow> ANHE_at (h (slow_pick h E m j)) \<le> ANHE_at (h j)"
  by (auto simp: slow_pick_def)

lemma min_child_least:
  assumes "min_child h E k = Some c" "d < E"
    and "DHEAP * (k - HEAP0) + HEAP0 + 1 \<le> d" "d \<le> DHEAP * (k - HEAP0) + HEAP0 + 4"
  shows "ANHE_at (h c) \<le> ANHE_at (h d)"
proof -
  obtain p where p: "p = DHEAP * (k - HEAP0) + HEAP0 + 1" by simp
  have d: "d = p \<or> d = p + 1 \<or> d = p + 2 \<or> d = p + 3" using assms(3,4) unfolding p by presburger
  show ?thesis
  proof (cases "p + DHEAP - 1 < E")
    case True
    obtain x y where x: "x = fast_pick h p (p + 1)" and y: "y = fast_pick h x (p + 2)" by simp
    have c: "c = fast_pick h y (p + 3)"
      using assms(1) True unfolding min_child_def p [symmetric] by (simp add: x y)
    have "ANHE_at (h c) \<le> ANHE_at (h y)" "ANHE_at (h c) \<le> ANHE_at (h (p + 3))"
      "ANHE_at (h y) \<le> ANHE_at (h x)" "ANHE_at (h y) \<le> ANHE_at (h (p + 2))"
      "ANHE_at (h x) \<le> ANHE_at (h p)" "ANHE_at (h x) \<le> ANHE_at (h (p + 1))"
      unfolding c y x by (rule fast_pick_le)+
    with d show ?thesis by (metis order_trans)
  next
    case False
    obtain x y where x: "x = slow_pick h E p (p + 1)" and y: "y = slow_pick h E x (p + 2)" by simp
    have c: "c = slow_pick h E y (p + 3)"
      using assms(1) False unfolding min_child_def p [symmetric] by (simp add: x y split: if_splits)
    have "ANHE_at (h c) \<le> ANHE_at (h y)" "ANHE_at (h y) \<le> ANHE_at (h x)" "ANHE_at (h x) \<le> ANHE_at (h p)"
      unfolding c y x by (rule slow_pick_le)+
    moreover have "p + 3 < E \<Longrightarrow> ANHE_at (h c) \<le> ANHE_at (h (p + 3))"
      "p + 2 < E \<Longrightarrow> ANHE_at (h y) \<le> ANHE_at (h (p + 2))"
      "p + 1 < E \<Longrightarrow> ANHE_at (h x) \<le> ANHE_at (h (p + 1))"
      unfolding c y x by (rule slow_pick_le, assumption)+
    ultimately show ?thesis using d assms(2) by (metis order_trans)
  qed
qed

lemma min_child_Some:
  assumes "min_child h (HEAP0 + N) k = Some c" "HEAP0 \<le> k"
  shows "HEAP0 < c \<and> c < HEAP0 + N \<and> HPARENT c = k"
    and "HEAP0 < d \<Longrightarrow> d < HEAP0 + N \<Longrightarrow> HPARENT d = k \<Longrightarrow> ANHE_at (h c) \<le> ANHE_at (h d)"
proof -
  have r: "DHEAP * (k - HEAP0) + HEAP0 + 1 \<le> c \<and> c \<le> DHEAP * (k - HEAP0) + HEAP0 + 4 \<and> c < HEAP0 + N"
    by (rule min_child_pos [OF assms(1)])
  moreover have "HEAP0 < c" using r by linarith
  ultimately show "HEAP0 < c \<and> c < HEAP0 + N \<and> HPARENT c = k"
    using children4 [OF assms(2), of c] by simp
  assume d: "HEAP0 < d" "d < HEAP0 + N" "HPARENT d = k"
  then show "ANHE_at (h c) \<le> ANHE_at (h d)"
    using min_child_least [OF assms(1) d(2)] children4 [OF assms(2) d(1)] by simp
qed

lemma picks_hole: "k \<noteq> m \<Longrightarrow> k \<noteq> j \<Longrightarrow> fast_pick (h(k := he)) m j = fast_pick h m j"
  "k \<noteq> m \<Longrightarrow> k \<noteq> j \<Longrightarrow> slow_pick (h(k := he)) E m j = slow_pick h E m j"
  by (simp_all add: fast_pick_def slow_pick_def)

lemma picks_above: "k < m \<Longrightarrow> k < j \<Longrightarrow> k \<noteq> fast_pick h m j" "k < m \<Longrightarrow> k < j \<Longrightarrow> k \<noteq> slow_pick h E m j"
  "k < m \<Longrightarrow> k < j \<Longrightarrow> k < fast_pick h m j" "k < m \<Longrightarrow> k < j \<Longrightarrow> k < slow_pick h E m j"
  by (simp_all add: fast_pick_def slow_pick_def)

lemma min_child_hole:
  assumes "HEAP0 \<le> k"
  shows "min_child (h(k := he)) E k = min_child h E k"
proof -
  obtain p where p: "p = DHEAP * (k - HEAP0) + HEAP0 + 1" by simp
  then have "k < p" using assms by (auto simp: DHEAP_def HEAP0_def)
  then show ?thesis unfolding min_child_def p [symmetric] Let_def by (simp add: picks_hole picks_above)
qed

lemma downheap_loop_spec:
  assumes "HEAP0 \<le> k" "k < HEAP0 + N" "h4.down_ok N k (h(k := he))" "indexed_but HEAP0 N {k} (h(k := he)) wm"
    and "downheap_loop N k he (h, wm) = (h', wm')"
  shows "h4.heap_result N (h(k := he)) wm h' wm'"
  using assms
proof (induction N k he "(h, wm)" arbitrary: h wm rule: downheap_loop.induct)
  case (1 N k he h wm)
  let ?H = "h(k := he)"
  note mc = min_child_hole [OF 1(2), of h he "HEAP0 + N"]
  show ?case
  proof (cases "min_child h (N + HEAP0) k")
    case None
    then have "h4.ordered N ?H"
      using h4.down_done [OF 1(4)] min_child_None [of ?H N k] 1(2) mc by (auto simp: add.commute)
    from h4.result_finish [OF this 1(5) 1(2,3)] show ?thesis using None 1(6) by simp
  next
    case (Some c)
    then have c': "min_child ?H (HEAP0 + N) k = Some c" using mc by (simp add: add.commute)
    note c = min_child_Some [OF c' 1(2)]
    have ck: "c \<noteq> k" using min_child_range [OF c'] by simp
    show ?thesis
    proof (cases "ANHE_at he \<le> ANHE_at (h c)")
      case True
      have "h4.ordered N ?H"
      proof (rule h4.down_done [OF 1(4)])
        fix d assume d: "HEAP0 < d" "d < HEAP0 + N" "HPARENT d = k"
        show "ANHE_at (?H k) \<le> ANHE_at (?H d)" using c(2) [OF d] True ck by simp
      qed
      from h4.result_finish [OF this 1(5) 1(2,3)] show ?thesis using Some True 1(6) by simp
    next
      case False
      have "h4.down_ok N c (exchange k c ?H)"
        using c(1) 1(2) ck False by (intro h4.down_step [OF 1(4)] c(2)) auto
      moreover have "indexed_but HEAP0 N {c} (exchange k c ?H) (set_active (ANHE_w (h c)) (int k) wm)"
        using indexed_exchange [OF 1(5) 1(2,3), of c] c(1) ck by simp
      ultimately have "h4.heap_result N (exchange k c ?H) (set_active (ANHE_w (h c)) (int k) wm) h' wm'"
        using 1(1) [OF Some False] c(1) 1(6) Some False by (simp add: hole_moves [OF ck])
      then show ?thesis
        using h4.result_step [of N k c ?H "int k" wm h' wm'] 1(2,3) c(1) ck by simp
    qed
  qed
qed

lemma upheap_loop_spec:
  assumes "HEAP0 \<le> k" "k < HEAP0 + N" "h4.up_ok N k (h(k := he))" "indexed_but HEAP0 N {k} (h(k := he)) wm"
    and "upheap_loop k he (h, wm) = (h', wm')"
  shows "h4.heap_result N (h(k := he)) wm h' wm'"
  using assms
proof (induction k he "(h, wm)" arbitrary: h wm rule: upheap_loop.induct)
  case (1 k he h wm)
  let ?H = "h(k := he)" let ?p = "HPARENT k"
  show ?case
  proof (cases "?p = k \<or> ANHE_at (h ?p) \<le> ANHE_at he")
    case True
    have "k = HEAP0 \<or> ANHE_at (?H ?p) \<le> ANHE_at (?H k)"
      using True h4.parent_less [of k] 1(2) by (cases "k = HEAP0") auto
    from h4.result_finish [OF h4.up_done [OF 1(4) this] 1(5) 1(2,3)]
    show ?thesis using True 1(6) by (simp add: Let_def)
  next
    case False
    then have k: "HEAP0 < k" using 1(2) by (cases "k = HEAP0") (auto simp: HPARENT_def HEAP0_def DHEAP_def)
    have p: "HEAP0 \<le> ?p" "?p < k" "?p < HEAP0 + N" using h4.parent_less [OF k] 1(3) by auto
    have "h4.up_ok N ?p (exchange k ?p ?H)"
      using False p by (intro h4.up_step [OF 1(4) k 1(3)]) auto
    moreover have "indexed_but HEAP0 N {?p} (exchange k ?p ?H) (set_active (ANHE_w (h ?p)) (int k) wm)"
      using indexed_exchange [OF 1(5) 1(2,3), of ?p] p by simp
    ultimately have "h4.heap_result N (exchange k ?p ?H) (set_active (ANHE_w (h ?p)) (int k) wm) h' wm'"
      using 1(1) [OF refl False] p 1(6) False hole_moves [of ?p k h he] by (simp add: Let_def)
    then show ?thesis using h4.result_step [of N k ?p ?H "int k" wm h' wm'] 1(2,3) p by simp
  qed
qed

text \<open>The four routines of the 4-heap.\<close>

definition heap_ok :: "nat \<Rightarrow> heap \<times> (wid \<Rightarrow> watcher) \<Rightarrow> bool" where
  "heap_ok N s \<longleftrightarrow>
     (\<forall>j. HEAP0 < j \<and> j < HEAP0 + N \<longrightarrow> ANHE_at (fst s (HPARENT j)) \<le> ANHE_at (fst s j))
   \<and> distinct (map ANHE_w (elems HEAP0 N (fst s)))
   \<and> (\<forall>j. HEAP0 \<le> j \<and> j < HEAP0 + N \<longrightarrow> active (snd s (ANHE_w (fst s j))) = int j)"

lemma heap_ok_iff: "heap_ok N (h, wm) \<longleftrightarrow> h4.ordered N h \<and> indexed_but HEAP0 N {} h wm"
  by (auto simp: heap_ok_def h4.ordered_def indexed_but_def)

lemma up_ok_replace:
  assumes "h4.ordered N h" "HEAP0 \<le> k" "k < HEAP0 + N" "k = HEAP0 \<or> ANHE_at he \<le> ANHE_at (h (HPARENT k))"
    "k = HEAP0 \<longrightarrow> (\<forall>c. HEAP0 < c \<and> c < HEAP0 + N \<and> HPARENT c = k \<longrightarrow> ANHE_at he \<le> ANHE_at (h c))"
  shows "h4.up_ok N k (h(k := he))"
proof -
  have le: "ANHE_at (h (HPARENT j)) \<le> ANHE_at (h j)" if "HEAP0 < j" "j < HEAP0 + N" for j
    using assms(1) that by (simp add: h4.ordered_def)
  have ch: "ANHE_at he \<le> ANHE_at (h j)" if j: "HEAP0 < j" "j < HEAP0 + N" "HPARENT j = k" for j
  proof (cases "k = HEAP0")
    case True
    then show ?thesis using assms(5) j by blast
  next
    case False
    then have "HEAP0 < k" using assms(2) by simp
    then have "ANHE_at he \<le> ANHE_at (h k)" using assms(3,4) False le by (meson order_trans)
    also have "\<dots> \<le> ANHE_at (h j)" using le [OF j(1,2)] j(3) by simp
    finally show ?thesis .
  qed
  have gp: "ANHE_at (h (HPARENT k)) \<le> ANHE_at (h j)" if "HEAP0 < k" "HEAP0 < j" "j < HEAP0 + N" "HPARENT j = k" for j
    using le [of k] le [of j] that assms(3) by simp
  have pk: "HPARENT k \<noteq> k" if "HEAP0 < k" using h4.parent_less [OF that] by simp
  show ?thesis unfolding h4.up_ok_def
  proof (intro conjI allI impI)
    fix j assume j: "HEAP0 < j \<and> j < HEAP0 + N \<and> j \<noteq> k"
    then show "ANHE_at ((h(k := he)) (HPARENT j)) \<le> ANHE_at ((h(k := he)) j)"
      using ch [of j] le [of j] by auto
  next
    fix j assume j: "HEAP0 < k \<and> HEAP0 < j \<and> j < HEAP0 + N \<and> HPARENT j = k"
    then have "j \<noteq> k" using h4.parent_less [of j] by auto
    then show "ANHE_at ((h(k := he)) (HPARENT k)) \<le> ANHE_at ((h(k := he)) j)"
      using gp [of j] pk j by auto
  qed
qed

lemma down_ok_replace:
  assumes "h4.ordered N h" "HEAP0 \<le> k" "k < HEAP0 + N" "k = HEAP0 \<or> ANHE_at (h (HPARENT k)) \<le> ANHE_at he"
  shows "h4.down_ok N k (h(k := he))"
proof -
  have le: "ANHE_at (h (HPARENT j)) \<le> ANHE_at (h j)" if "HEAP0 < j" "j < HEAP0 + N" for j
    using assms(1) that by (simp add: h4.ordered_def)
  show ?thesis unfolding h4.down_ok_def
  proof (intro conjI allI impI)
    fix j assume "HEAP0 < j \<and> j < HEAP0 + N \<and> HPARENT j \<noteq> k"
    then show "ANHE_at ((h(k := he)) (HPARENT j)) \<le> ANHE_at ((h(k := he)) j)"
      using le [of j] assms(4) by auto
  next
    fix j assume j: "HEAP0 < k \<and> HEAP0 < j \<and> j < HEAP0 + N \<and> HPARENT j = k"
    then have "j \<noteq> k" "HPARENT k \<noteq> k" using h4.parent_less [of j] h4.parent_less [of k] by auto
    then show "ANHE_at ((h(k := he)) (HPARENT k)) \<le> ANHE_at ((h(k := he)) j)"
      using le [of k] le [of j] j assms(3) by auto
  qed
qed

lemma adjustheap_result:
  assumes "h4.ordered N h" "HEAP0 \<le> k" "k < HEAP0 + N" "indexed_but HEAP0 N {k} (h(k := he)) wm"
    "adjustheap N k (h(k := he), wm) = (h', wm')"
  shows "h4.heap_result N (h(k := he)) wm h' wm'"
proof (cases "k > HEAP0 \<and> ANHE_at he \<le> ANHE_at (h (HPARENT k))")
  case True
  then have "HPARENT k \<noteq> k" using h4.parent_less [of k] by simp
  then have "upheap_loop k he (h(k := he), wm) = (h', wm')"
    using True assms(5) by (simp add: adjustheap_def upheap_def)
  then show ?thesis
    using upheap_loop_spec [of k N "h(k := he)" he wm h' wm'] up_ok_replace [OF assms(1-3)] True assms(2-4) by simp
next
  case False
  then have dk: "k = HEAP0 \<or> ANHE_at (h (HPARENT k)) \<le> ANHE_at he" using assms(2) by auto
  have "HPARENT k \<noteq> k" if "k > HEAP0" using h4.parent_less [OF that] by simp
  then have "downheap_loop N k he (h(k := he), wm) = (h', wm')"
    using False assms(5) by (auto simp: adjustheap_def downheap_def split: if_splits)
  then show ?thesis
    using downheap_loop_spec [of k N "h(k := he)" he wm h' wm'] down_ok_replace [OF assms(1-3) dk] assms(2-4) by simp
qed

text \<open>A new element at the end of the array, moved up to its place.\<close>

lemma upheap_push_result:
  assumes "h4.ordered N h" "indexed_but HEAP0 N {} h wm" "ANHE_w he \<notin> ANHE_w ` set (elems HEAP0 N h)"
    "upheap (HEAP0 + N) (h(HEAP0 + N := he), wm) = (h', wm')"
  shows "h4.heap_result (Suc N) (h(HEAP0 + N := he)) wm h' wm'"
proof -
  let ?k = "HEAP0 + N" let ?H = "h(?k := he)"
  have up: "h4.up_ok (Suc N) ?k ?H"
    unfolding h4.up_ok_def
  proof (intro conjI allI impI)
    fix j assume j: "HEAP0 < j \<and> j < HEAP0 + Suc N \<and> j \<noteq> ?k"
    then have "HPARENT j \<noteq> ?k" using h4.parent_less [of j] by auto
    then show "ANHE_at (?H (HPARENT j)) \<le> ANHE_at (?H j)"
      using j assms(1) by (auto simp: h4.ordered_def)
  next
    fix j assume "HEAP0 < ?k \<and> HEAP0 < j \<and> j < HEAP0 + Suc N \<and> HPARENT j = ?k"
    then show "ANHE_at (?H (HPARENT ?k)) \<le> ANHE_at (?H j)" using h4.parent_less [of j] by auto
  qed
  have el: "elems HEAP0 (Suc N) ?H = elems HEAP0 N h @ [he]" by (simp add: elems_def)
  then have "indexed_but HEAP0 (Suc N) {?k} ?H wm"
    using assms(2,3) by (auto simp: indexed_but_def)
  then show ?thesis
    using upheap_loop_spec [of ?k "Suc N" ?H he wm h' wm'] up assms(4) by (simp add: upheap_def)
qed

lemma reheap_result:
  assumes "distinct (map ANHE_w (elems HEAP0 N h))" "M \<le> N" "reheap M (h, wm) = (h', wm')"
  shows "h4.heap_result M h wm h' wm'"
  using assms(2,3)
proof (induction M arbitrary: h' wm')
  case 0
  then show ?case by (simp add: reheap_def h4.heap_result_def h4.ordered_def indexed_but_def elems_def)
next
  case (Suc M)
  obtain h1 wm1 where r: "reheap M (h, wm) = (h1, wm1)" by fastforce
  have u: "upheap (HEAP0 + M) (h1(HEAP0 + M := h1 (HEAP0 + M)), wm1) = (h', wm')"
    using Suc.prems(2) r by (simp add: reheap_def add.commute)
  have ih: "h4.heap_result M h wm h1 wm1" using Suc.IH [OF _ r] Suc.prems(1) by simp
  then have same: "h1 (HEAP0 + M) = h (HEAP0 + M)" and m: "mset (elems HEAP0 M h1) = mset (elems HEAP0 M h)"
    by (simp_all add: h4.heap_result_def)
  then have st: "set (elems HEAP0 M h1) = set (elems HEAP0 M h)" by (metis set_mset_mset)
  have "[HEAP0..<HEAP0 + N] = [HEAP0..<HEAP0 + Suc M] @ [HEAP0 + Suc M..<HEAP0 + N]"
    using upt_add_eq_append [of HEAP0 "HEAP0 + Suc M" "N - Suc M"] Suc.prems(1) by simp
  then have "distinct (map ANHE_w (elems HEAP0 (Suc M) h))"
    using assms(1) by (simp add: elems_def)
  then have nin: "ANHE_w (h1 (HEAP0 + M)) \<notin> ANHE_w ` set (elems HEAP0 M h1)"
    unfolding st same by (simp add: elems_def image_image)
  have res: "h4.heap_result (Suc M) h1 wm1 h' wm'"
    using upheap_push_result [OF _ _ nin u] ih by (simp add: h4.heap_result_def)
  have "mset (elems HEAP0 (Suc M) h1) = mset (elems HEAP0 (Suc M) h)"
    using m same by (simp add: elems_def)
  then have st2: "set (elems HEAP0 (Suc M) h1) = set (elems HEAP0 (Suc M) h)"
    and m2: "mset (elems HEAP0 (Suc M) h1) = mset (elems HEAP0 (Suc M) h)" by (metis set_mset_mset)+
  have "only_active (ANHE_w ` set (elems HEAP0 (Suc M) h)) wm wm1"
    using ih by (auto simp: h4.heap_result_def only_active_def elems_def)
  then show ?case
    using res ih m2 only_active_trans unfolding h4.heap_result_def st2 by auto
qed

section \<open>Properties of the 4-heap\<close>

text \<open>
  C26. \<open>adjustheap\<close> repairs a heap one of whose elements was replaced by any other: the result is a heap
  of the elements of the array it was called on, with the earliest time at \<open>HEAP0\<close>, every watcher's
  \<open>active\<close> member is its index, and nothing but those members and the order of the elements changes.
\<close>

theorem adjustheap_restores_heap:
  assumes "heap_ok N (h, wm)" "HEAP0 \<le> k" "k < HEAP0 + N"
    and "ANHE_w he \<notin> ANHE_w ` (set (elems HEAP0 N h) - {h k})"
    and "adjustheap N k (h(k := he), wm) = (h', wm')"
  shows "heap_ok N (h', wm') \<and> mset (elems HEAP0 N h') = mset (elems HEAP0 N (h(k := he)))
    \<and> (\<forall>j. HEAP0 \<le> j \<and> j < HEAP0 + N \<longrightarrow> ANHE_at (h' HEAP0) \<le> ANHE_at (h' j))
    \<and> (\<forall>w. wm' w = (wm w)\<lparr>active := active (wm' w)\<rparr>)"
proof -
  have o: "h4.ordered N h" and i: "indexed_but HEAP0 N {} h wm" using assms(1) by (simp_all add: heap_ok_iff)
  have d: "\<And>i j. HEAP0 \<le> i \<Longrightarrow> i < HEAP0 + N \<Longrightarrow> HEAP0 \<le> j \<Longrightarrow> j < HEAP0 + N \<Longrightarrow> ANHE_w (h i) = ANHE_w (h j) \<Longrightarrow> i = j"
    using i unfolding indexed_but_def distinct_elems_iff by blast
  have ne: "ANHE_w (h j) \<noteq> ANHE_w he" if "HEAP0 \<le> j" "j < HEAP0 + N" "j \<noteq> k" for j
  proof
    assume e: "ANHE_w (h j) = ANHE_w he"
    have "h j \<noteq> h k" using d [OF that(1,2) assms(2,3)] that(3) by auto
    then have "h j \<in> set (elems HEAP0 N h) - {h k}" using that by (auto simp: elems_def)
    then have "ANHE_w he \<in> ANHE_w ` (set (elems HEAP0 N h) - {h k})" using e imageI [of "h j" _ ANHE_w] by simp
    with assms(4) show False by simp
  qed
  have "indexed_but HEAP0 N {k} (h(k := he)) wm"
    unfolding indexed_but_def distinct_elems_iff
  proof (intro conjI allI impI)
    fix x y
    assume "HEAP0 \<le> x \<and> x < HEAP0 + N \<and> HEAP0 \<le> y \<and> y < HEAP0 + N \<and> ANHE_w ((h(k := he)) x) = ANHE_w ((h(k := he)) y)"
    then show "x = y" using d [of x y] ne [of x] ne [of y] by (auto split: if_splits)
  next
    fix j assume "HEAP0 \<le> j \<and> j < HEAP0 + N \<and> j \<notin> {k}"
    then show "active (wm (ANHE_w ((h(k := he)) j))) = int j" using i by (simp add: indexed_but_def)
  qed
  from adjustheap_result [OF o assms(2,3) this assms(5)]
  have "h4.heap_result N (h(k := he)) wm h' wm'" .
  then show ?thesis using h4.ordered_root_min [of N h']
    by (auto simp: h4.heap_result_def heap_ok_iff only_active_def)
qed

text \<open>
  \<open>reheap\<close> makes a heap of any array of distinct watchers.
\<close>

theorem reheap_builds_heap:
  assumes "distinct (map ANHE_w (elems HEAP0 N h))" "reheap N (h, wm) = (h', wm')"
  shows "heap_ok N (h', wm') \<and> mset (elems HEAP0 N h') = mset (elems HEAP0 N h)"
  using reheap_result [OF assms(1) order_refl assms(2)] by (simp add: h4.heap_result_def heap_ok_iff)

text \<open>Concrete heaps for the witnesses.\<close>

definition demo_heap :: heap where
  "demo_heap k = \<lparr>ANHE_at = of_nat ((7 * k) mod 5), ANHE_w = k\<rparr>"

definition demo_watcher :: watcher where
  "demo_watcher = \<lparr>active = 0, pending = 0, priority = 0, cb = 0, w_next = None, io_fd = 0, io_events = 0,
     w_at = 0, w_repeat = 0, w_offset = 0, w_interval = 0, reschedule_cb = None, signum = 0, child_flags = 0,
     child_pid = 0, child_rpid = 0, child_rstatus = 0, async_sent = False\<rparr>"

lemma demo_distinct: "distinct (map ANHE_w (elems HEAP0 N demo_heap))"
  by (simp add: distinct_elems_iff demo_heap_def)

lemma reheap_builds_heap_witness:
  "heap_ok 6 (reheap 6 (demo_heap, \<lambda>_. demo_watcher))"
  using reheap_builds_heap [OF demo_distinct, of 6 "\<lambda>_. demo_watcher"]
  by (cases "reheap 6 (demo_heap, \<lambda>_. demo_watcher)") simp

definition sorted_heap :: heap where
  "sorted_heap k = \<lparr>ANHE_at = of_nat k, ANHE_w = k\<rparr>"

lemma sorted_heap_ok: "heap_ok N (sorted_heap, \<lambda>w. demo_watcher\<lparr>active := int w\<rparr>)"
  using h4.parent_less by (fastforce simp: heap_ok_def distinct_elems_iff sorted_heap_def)

lemma adjustheap_restores_heap_witness:
  "heap_ok 6 (adjustheap 6 3 (sorted_heap(3 := \<lparr>ANHE_at = 100, ANHE_w = 3\<rparr>), \<lambda>w. demo_watcher\<lparr>active := int w\<rparr>))"
proof -
  obtain h' wm' where a: "adjustheap 6 3 (sorted_heap(3 := \<lparr>ANHE_at = 100, ANHE_w = 3\<rparr>),
      \<lambda>w. demo_watcher\<lparr>active := int w\<rparr>) = (h', wm')" by fastforce
  have "ANHE_w \<lparr>ANHE_at = 100, ANHE_w = 3\<rparr> \<notin> ANHE_w ` (set (elems HEAP0 6 sorted_heap) - {sorted_heap 3})"
    by (auto simp: elems_def sorted_heap_def)
  from adjustheap_restores_heap [OF sorted_heap_ok _ _ this a] show ?thesis
    unfolding a by (simp add: HEAP0_def DHEAP_def)
qed

section \<open>The 2-heap\<close>

interpretation h2: dheap HEAP0_2 HPARENT_2
  by unfold_locales (auto simp: HPARENT_2_def HEAP0_2_def drop_bit_eq_div)

lemma children2: "0 < c \<Longrightarrow> HPARENT_2 c = k \<longleftrightarrow> c = k * 2 \<or> c = k * 2 + 1"
  by (auto simp: HPARENT_2_def drop_bit_eq_div)

lemma min_child2_None:
  "min_child2 h (HEAP0_2 + N) k = None \<Longrightarrow> HEAP0_2 < c \<Longrightarrow> c < HEAP0_2 + N \<Longrightarrow> HPARENT_2 c \<noteq> k"
  by (auto simp: min_child2_def Let_def children2 push_bit_eq_mult split: if_splits)

lemma min_child2_Some:
  assumes "min_child2 h (HEAP0_2 + N) k = Some c" "HEAP0_2 \<le> k"
  shows "HEAP0_2 < c \<and> c < HEAP0_2 + N \<and> HPARENT_2 c = k"
    and "HEAP0_2 < d \<Longrightarrow> d < HEAP0_2 + N \<Longrightarrow> HPARENT_2 d = k \<Longrightarrow> ANHE_at (h c) \<le> ANHE_at (h d)"
  using assms by (auto simp: min_child2_def Let_def children2 HEAP0_2_def push_bit_eq_mult split: if_splits)

lemma min_child2_hole: "HEAP0_2 \<le> k \<Longrightarrow> min_child2 (h(k := he)) E k = min_child2 h E k"
  by (auto simp: min_child2_def Let_def HEAP0_2_def push_bit_eq_mult)

lemma downheap2_loop_spec:
  assumes "HEAP0_2 \<le> k" "k < HEAP0_2 + N" "h2.down_ok N k (h(k := he))" "indexed_but HEAP0_2 N {k} (h(k := he)) wm"
    and "downheap2_loop N k he (h, wm) = (h', wm')"
  shows "h2.heap_result N (h(k := he)) wm h' wm'"
  using assms
proof (induction N k he "(h, wm)" arbitrary: h wm rule: downheap2_loop.induct)
  case (1 N k he h wm)
  let ?H = "h(k := he)"
  have k0: "k \<noteq> 0" using 1(2) by (simp add: HEAP0_2_def)
  note mc = min_child2_hole [OF 1(2), of h he "HEAP0_2 + N"]
  show ?case
  proof (cases "min_child2 h (N + HEAP0_2) k")
    case None
    then have "h2.ordered N ?H"
      using h2.down_done [OF 1(4)] min_child2_None [of ?H N k] 1(2) mc by (auto simp: add.commute)
    from h2.result_finish [OF this 1(5) 1(2,3)] show ?thesis using None 1(6) k0 by simp
  next
    case (Some c)
    then have c': "min_child2 ?H (HEAP0_2 + N) k = Some c" using mc by (simp add: add.commute)
    note c = min_child2_Some [OF c' 1(2)]
    have ck: "c \<noteq> k" using min_child2_range [OF _ c'] k0 by simp
    show ?thesis
    proof (cases "ANHE_at he \<le> ANHE_at (h c)")
      case True
      have "h2.ordered N ?H"
      proof (rule h2.down_done [OF 1(4)])
        fix d assume d: "HEAP0_2 < d" "d < HEAP0_2 + N" "HPARENT_2 d = k"
        show "ANHE_at (?H k) \<le> ANHE_at (?H d)" using c(2) [OF d] True ck by simp
      qed
      from h2.result_finish [OF this 1(5) 1(2,3)] show ?thesis using Some True 1(6) k0 by simp
    next
      case False
      have "h2.down_ok N c (exchange k c ?H)"
        using c(1) 1(2) ck False by (intro h2.down_step [OF 1(4)] c(2)) auto
      moreover have "indexed_but HEAP0_2 N {c} (exchange k c ?H) (set_active (ANHE_w (h c)) (int k) wm)"
        using indexed_exchange [OF 1(5) 1(2,3), of c] c(1) ck by simp
      ultimately have "h2.heap_result N (exchange k c ?H) (set_active (ANHE_w (h c)) (int k) wm) h' wm'"
        using 1(1) [OF k0 Some False] c(1) 1(6) Some False k0 by (simp add: hole_moves [OF ck])
      then show ?thesis
        using h2.result_step [of N k c ?H "int k" wm h' wm'] 1(2,3) c(1) ck by simp
    qed
  qed
qed

lemma upheap2_loop_spec:
  assumes "HEAP0_2 \<le> k" "k < HEAP0_2 + N" "h2.up_ok N k (h(k := he))" "indexed_but HEAP0_2 N {k} (h(k := he)) wm"
    and "upheap2_loop k he (h, wm) = (h', wm')"
  shows "h2.heap_result N (h(k := he)) wm h' wm'"
  using assms
proof (induction k he "(h, wm)" arbitrary: h wm rule: upheap2_loop.induct)
  case (1 k he h wm)
  let ?H = "h(k := he)" let ?p = "HPARENT_2 k"
  have p0: "?p = 0 \<longleftrightarrow> k = HEAP0_2" using 1(2) by (auto simp: HPARENT_2_def HEAP0_2_def drop_bit_eq_div)
  show ?case
  proof (cases "?p = 0 \<or> ANHE_at (h ?p) \<le> ANHE_at he")
    case True
    have "k = HEAP0_2 \<or> ANHE_at (?H ?p) \<le> ANHE_at (?H k)"
      using True h2.parent_less [of k] 1(2) p0 by (cases "k = HEAP0_2") auto
    from h2.result_finish [OF h2.up_done [OF 1(4) this] 1(5) 1(2,3)]
    show ?thesis using True 1(6) by (simp add: Let_def)
  next
    case False
    then have k: "HEAP0_2 < k" using 1(2) p0 by auto
    have p: "HEAP0_2 \<le> ?p" "?p < k" "?p < HEAP0_2 + N" using h2.parent_less [OF k] 1(3) by auto
    have "h2.up_ok N ?p (exchange k ?p ?H)"
      using False p by (intro h2.up_step [OF 1(4) k 1(3)]) auto
    moreover have "indexed_but HEAP0_2 N {?p} (exchange k ?p ?H) (set_active (ANHE_w (h ?p)) (int k) wm)"
      using indexed_exchange [OF 1(5) 1(2,3), of ?p] p by simp
    ultimately have "h2.heap_result N (exchange k ?p ?H) (set_active (ANHE_w (h ?p)) (int k) wm) h' wm'"
      using 1(1) [OF refl False] p 1(6) False hole_moves [of ?p k h he] by (simp add: Let_def)
    then show ?thesis using h2.result_step [of N k ?p ?H "int k" wm h' wm'] 1(2,3) p by simp
  qed
qed

definition heap2_ok :: "nat \<Rightarrow> heap \<times> (wid \<Rightarrow> watcher) \<Rightarrow> bool" where
  "heap2_ok N s \<longleftrightarrow>
     (\<forall>j. HEAP0_2 < j \<and> j < HEAP0_2 + N \<longrightarrow> ANHE_at (fst s (HPARENT_2 j)) \<le> ANHE_at (fst s j))
   \<and> distinct (map ANHE_w (elems HEAP0_2 N (fst s)))
   \<and> (\<forall>j. HEAP0_2 \<le> j \<and> j < HEAP0_2 + N \<longrightarrow> active (snd s (ANHE_w (fst s j))) = int j)"

lemma heap2_ok_iff: "heap2_ok N (h, wm) \<longleftrightarrow> h2.ordered N h \<and> indexed_but HEAP0_2 N {} h wm"
  by (auto simp: heap2_ok_def h2.ordered_def indexed_but_def)

text \<open>
  The 2-heap variant meets the same contract: taking the root away (the last element takes its
  place and \<open>downheap\<close> moves it down) leaves a heap of the other elements.
\<close>

theorem downheap2_removes_root:
  assumes "heap2_ok (Suc N) (h, wm)" "0 < N"
    and "downheap2 N HEAP0_2 (h(HEAP0_2 := h (HEAP0_2 + N)), wm) = (h', wm')"
  shows "heap2_ok N (h', wm') \<and> add_mset (h HEAP0_2) (mset (elems HEAP0_2 N h')) = mset (elems HEAP0_2 (Suc N) h)"
proof -
  let ?H = "h(HEAP0_2 := h (HEAP0_2 + N))"
  have o: "h2.ordered (Suc N) h" and i: "indexed_but HEAP0_2 (Suc N) {} h wm"
    using assms(1) by (simp_all add: heap2_ok_iff)
  have d: "\<And>i j. HEAP0_2 \<le> i \<Longrightarrow> i < HEAP0_2 + Suc N \<Longrightarrow> HEAP0_2 \<le> j \<Longrightarrow> j < HEAP0_2 + Suc N \<Longrightarrow>
      ANHE_w (h i) = ANHE_w (h j) \<Longrightarrow> i = j"
    using i unfolding indexed_but_def distinct_elems_iff by blast
  have "h2.down_ok N HEAP0_2 ?H"
    using o h2.parent_less by (auto simp: h2.down_ok_def h2.ordered_def)
  moreover have "indexed_but HEAP0_2 N {HEAP0_2} ?H wm"
    unfolding indexed_but_def distinct_elems_iff
  proof (intro conjI allI impI)
    fix x y
    assume "HEAP0_2 \<le> x \<and> x < HEAP0_2 + N \<and> HEAP0_2 \<le> y \<and> y < HEAP0_2 + N \<and> ANHE_w (?H x) = ANHE_w (?H y)"
    then show "x = y" using d [of x y] d [of x "HEAP0_2 + N"] d [of y "HEAP0_2 + N"] by (auto split: if_splits)
  next
    fix j assume "HEAP0_2 \<le> j \<and> j < HEAP0_2 + N \<and> j \<notin> {HEAP0_2}"
    then show "active (wm (ANHE_w (?H j))) = int j" using i by (simp add: indexed_but_def)
  qed
  moreover have "downheap2_loop N HEAP0_2 (h (HEAP0_2 + N)) (?H, wm) = (h', wm')"
    using assms(3) by (simp add: downheap2_def)
  ultimately have res: "h2.heap_result N ?H wm h' wm'"
    using downheap2_loop_spec [of HEAP0_2 N ?H "h (HEAP0_2 + N)" wm h' wm'] assms(2) by simp
  have "[HEAP0_2..<HEAP0_2 + N] = HEAP0_2 # [Suc HEAP0_2..<HEAP0_2 + N]" using assms(2) by (simp add: upt_conv_Cons)
  then have "add_mset (h HEAP0_2) (mset (elems HEAP0_2 N ?H)) = mset (elems HEAP0_2 (Suc N) h)"
    by (simp add: elems_def)
  then show ?thesis using res by (simp add: h2.heap_result_def heap2_ok_iff)
qed

lemma downheap2_removes_root_witness:
  "heap2_ok 4 (downheap2 4 HEAP0_2 (sorted_heap(HEAP0_2 := sorted_heap (HEAP0_2 + 4)), \<lambda>w. demo_watcher\<lparr>active := int w\<rparr>))"
proof -
  have "heap2_ok (Suc 4) (sorted_heap, \<lambda>w. demo_watcher\<lparr>active := int w\<rparr>)"
    using h2.parent_less by (fastforce simp: heap2_ok_def distinct_elems_iff sorted_heap_def)
  from downheap2_removes_root [OF this] show ?thesis
    by (cases "downheap2 4 HEAP0_2 (sorted_heap(HEAP0_2 := sorted_heap (HEAP0_2 + 4)), \<lambda>w. demo_watcher\<lparr>active := int w\<rparr>)") simp
qed

end
