(* ===== verification/EvPending.thy ===== *)
theory EvPending
  imports EvTypes
begin

text \<open>
  \<open>libev-4.15/ev.c\<close>: growing of arrays, the queues of pending events (\<open>ev_feed_event\<close>,
  \<open>ev_invoke_pending\<close>, \<open>ev_clear_pending\<close>, \<open>feed_reverse\<close>), and the common part of starting and
  stopping a watcher.  Callbacks are a parameter: \<open>cb w revents\<close> transforms the loop.
\<close>

section \<open>Growing an array\<close>

definition MALLOC_ROUND :: int where "MALLOC_ROUND = 4096"
definition sizeof_ptr :: int where "sizeof_ptr = 8"

function double_until :: "int \<Rightarrow> int \<Rightarrow> int" where
  "double_until cnt ncur = (let n = push_bit 1 ncur in if 0 < ncur \<and> cnt > n then double_until cnt n else n)"
  by pat_completeness auto
termination
  by (relation "measure (\<lambda>(cnt, ncur). nat (cnt - ncur))") (auto simp: push_bit_eq_mult)

definition array_nextsize :: "int \<Rightarrow> int \<Rightarrow> int \<Rightarrow> int" where
  "array_nextsize elem cur cnt =
     (let ncur = double_until cnt (cur + 1) in
      if elem * ncur > MALLOC_ROUND - sizeof_ptr * 4 then
        let ncur = ncur * elem;
            ncur = (ncur + elem + (MALLOC_ROUND - 1) + sizeof_ptr * 4) AND NOT (MALLOC_ROUND - 1);
            ncur = ncur - sizeof_ptr * 4
        in ncur div elem
      else ncur)"

text \<open>\<open>array_needsize\<close> with \<open>array_init_zero\<close> on an array of known length: it grows with zeroed
  elements when \<open>cnt\<close> exceeds its length.\<close>

definition array_needsize :: "int \<Rightarrow> 'x \<Rightarrow> nat \<Rightarrow> 'x list \<Rightarrow> 'x list" where
  "array_needsize elem zero cnt xs =
     (if cnt > length xs
      then xs @ replicate (nat (array_nextsize elem (int (length xs)) (int cnt)) - length xs) zero
      else xs)"

section \<open>Feeding events\<close>

definition ev_feed_event :: "wid \<Rightarrow> evmask \<Rightarrow> 'a ev_base_scheme \<Rightarrow> 'a ev_base_scheme" where
  "ev_feed_event w revents s =
     (let pri = ABSPRI (wt s w); p = pending (wt s w); q = pendings s pri;
          s1 = (if p \<noteq> 0
                then s\<lparr>pendings := (pendings s)(pri := q[p - 1 := (fst (q ! (p - 1)), snd (q ! (p - 1)) OR revents)])\<rparr>
                else (upd_w w (\<lambda>x. x\<lparr>pending := length q + 1\<rparr>) s)
                       \<lparr>pendings := (pendings s)(pri := q @ [(w, revents)])\<rparr>)
      in s1\<lparr>pendingpri := NUMPRI - 1\<rparr>)"

definition feed_reverse :: "wid \<Rightarrow> 'a ev_base_scheme \<Rightarrow> 'a ev_base_scheme" where
  "feed_reverse w s = s\<lparr>rfeeds := rfeeds s @ [w]\<rparr>"

text \<open>A \<open>do ... while\<close> loop: it is only called with a non-empty \<open>rfeeds\<close>.\<close>

definition feed_reverse_done :: "evmask \<Rightarrow> 'a ev_base_scheme \<Rightarrow> 'a ev_base_scheme" where
  "feed_reverse_done revents s = (fold (\<lambda>w. ev_feed_event w revents) (rev (rfeeds s)) s)\<lparr>rfeeds := []\<rparr>"

definition queue_events :: "wid list \<Rightarrow> evmask \<Rightarrow> 'a ev_base_scheme \<Rightarrow> 'a ev_base_scheme" where
  "queue_events ws type s = fold (\<lambda>w. ev_feed_event w type) ws s"

definition clear_pending :: "wid \<Rightarrow> 'a ev_base_scheme \<Rightarrow> 'a ev_base_scheme" where
  "clear_pending w s =
     (let pri = ABSPRI (wt s w); p = pending (wt s w); q = pendings s pri in
      if p \<noteq> 0
      then (upd_w w (\<lambda>x. x\<lparr>pending := 0\<rparr>) s)\<lparr>pendings := (pendings s)(pri := q[p - 1 := (pending_w, snd (q ! (p - 1)))])\<rparr>
      else s)"

definition ev_clear_pending :: "wid \<Rightarrow> 'a ev_base_scheme \<Rightarrow> evmask \<times> 'a ev_base_scheme" where
  "ev_clear_pending w s =
     (let pri = ABSPRI (wt s w); p = pending (wt s w); q = pendings s pri in
      if p \<noteq> 0
      then (snd (q ! (p - 1)),
        (upd_w w (\<lambda>x. x\<lparr>pending := 0\<rparr>) s)\<lparr>pendings := (pendings s)(pri := q[p - 1 := (pending_w, snd (q ! (p - 1)))])\<rparr>)
      else (0, s))"

definition ev_pending_count :: "'a ev_base_scheme \<Rightarrow> nat" where
  "ev_pending_count s = sum_list (map (\<lambda>pri. length (pendings s pri)) (rev [0..<NUMPRI]))"

text \<open>\<open>ev_invoke\<close> calls the callback of a watcher.\<close>

type_synonym 'a callback = "wid \<Rightarrow> evmask \<Rightarrow> 'a ev_base_scheme \<Rightarrow> 'a ev_base_scheme"

definition ev_invoke :: "'a callback \<Rightarrow> wid \<Rightarrow> evmask \<Rightarrow> 'a ev_base_scheme \<Rightarrow> 'a ev_base_scheme" where
  "ev_invoke f w revents s = f w revents s"

text \<open>The callback of the dummy watcher does nothing.\<close>

definition pendingcb :: "'a ev_base_scheme \<Rightarrow> 'a ev_base_scheme" where
  "pendingcb s = s"

definition EV_CB_INVOKE :: "'a callback \<Rightarrow> wid \<Rightarrow> evmask \<Rightarrow> 'a ev_base_scheme \<Rightarrow> 'a ev_base_scheme" where
  "EV_CB_INVOKE f w revents s = (if w = pending_w then pendingcb s else f w revents s)"

text \<open>
  The two nested loops of \<open>ev_invoke_pending\<close>: the inner one looks at \<open>pendingpri\<close> again after every
  callback, which may have raised it.  The result also lists the events delivered, for the
  statements; \<open>None\<close> is running out of fuel.
\<close>

fun invoke_loop :: "nat \<Rightarrow> 'a callback \<Rightarrow> 'a ev_base_scheme \<Rightarrow> ((wid \<times> evmask) list \<times> 'a ev_base_scheme) option" where
  "invoke_loop 0 f s = None"
| "invoke_loop (Suc n) f s =
     (let q = pendings s (pendingpri s) in
      if q \<noteq> [] then
        (let (w, ev) = last q;
             s1 = (upd_w w (\<lambda>x. x\<lparr>pending := 0\<rparr>) s)\<lparr>pendings := (pendings s)(pendingpri s := butlast q)\<rparr>
         in map_option (\<lambda>(tr, s'). ((w, ev) # tr, s')) (invoke_loop n f (EV_CB_INVOKE f w ev s1)))
      else if pendingpri s = 0 then Some ([], s)
      else invoke_loop n f (s\<lparr>pendingpri := pendingpri s - 1\<rparr>))"

definition ev_invoke_pending ::
    "nat \<Rightarrow> 'a callback \<Rightarrow> 'a ev_base_scheme \<Rightarrow> ((wid \<times> evmask) list \<times> 'a ev_base_scheme) option" where
  "ev_invoke_pending n f s = invoke_loop n f (s\<lparr>pendingpri := NUMPRI - 1\<rparr>)"

section \<open>Starting and stopping\<close>

definition pri_adjust :: "wid \<Rightarrow> 'a ev_base_scheme \<Rightarrow> 'a ev_base_scheme" where
  "pri_adjust w s =
     (let pri = priority (wt s w);
          pri = (if pri < EV_MINPRI then EV_MINPRI else pri);
          pri = (if pri > EV_MAXPRI then EV_MAXPRI else pri)
      in upd_w w (ev_set_priority pri) s)"

definition ev_ref :: "'a ev_base_scheme \<Rightarrow> 'a ev_base_scheme" where
  "ev_ref s = s\<lparr>activecnt := activecnt s + 1\<rparr>"

definition ev_unref :: "'a ev_base_scheme \<Rightarrow> 'a ev_base_scheme" where
  "ev_unref s = s\<lparr>activecnt := activecnt s - 1\<rparr>"

definition ev_start :: "wid \<Rightarrow> int \<Rightarrow> 'a ev_base_scheme \<Rightarrow> 'a ev_base_scheme" where
  "ev_start w act s = ev_ref (upd_w w (\<lambda>x. x\<lparr>active := act\<rparr>) (pri_adjust w s))"

definition ev_stop :: "wid \<Rightarrow> 'a ev_base_scheme \<Rightarrow> 'a ev_base_scheme" where
  "ev_stop w s = upd_w w (\<lambda>x. x\<lparr>active := 0\<rparr>) (ev_unref s)"

section \<open>Array sizes\<close>

declare double_until.simps [simp del]

lemma double_until_bounds:
  "0 < ncur \<Longrightarrow> cnt \<le> double_until cnt ncur \<and> 2 * ncur \<le> double_until cnt ncur"
proof (induction cnt ncur rule: double_until.induct)
  case (1 cnt ncur)
  show ?case
  proof (cases "cnt > push_bit 1 ncur")
    case True
    have "double_until cnt ncur = double_until cnt (push_bit 1 ncur)"
      using True "1.prems" by (subst double_until.simps) (simp add: Let_def)
    moreover have "0 < push_bit 1 ncur" using "1.prems" by (simp add: push_bit_eq_mult)
    ultimately show ?thesis using "1.IH" [OF refl] True "1.prems" by (simp add: push_bit_eq_mult)
  next
    case False
    have "double_until cnt ncur = push_bit 1 ncur"
      using False by (subst double_until.simps) (simp add: Let_def)
    then show ?thesis using False "1.prems" by (simp add: push_bit_eq_mult)
  qed
qed

lemma round_down_page: "(x :: int) AND - 4096 = x - x mod 4096"
proof -
  have "x AND NOT (mask 12) = push_bit 12 (drop_bit 12 x)"
    by (rule bit_eqI) (auto simp: bit_simps)
  then show ?thesis
    by (simp add: mask_eq_exp_minus_1 push_bit_eq_mult drop_bit_eq_div minus_mod_eq_div_mult)
qed

lemma nextsize_bounds:
  assumes "0 < elem" "0 \<le> cur"
  shows "cnt \<le> array_nextsize elem cur cnt \<and> 2 * (cur + 1) \<le> array_nextsize elem cur cnt"
proof -
  let ?n = "double_until cnt (cur + 1)"
  have n: "cnt \<le> ?n" "2 * (cur + 1) \<le> ?n" using double_until_bounds [of "cur + 1" cnt] assms by simp_all
  let ?y = "?n * elem + elem + 4095 + 32"
  have "?y - ?y mod 4096 - 32 \<ge> ?n * elem"
    using assms(1) pos_mod_bound [of 4096 ?y] by linarith
  then have "?n \<le> (?y - ?y mod 4096 - 32) div elem"
    using assms(1) zdiv_mono1 [of "?n * elem" "?y - ?y mod 4096 - 32" elem] by simp
  then show ?thesis
    using n by (auto simp: array_nextsize_def Let_def MALLOC_ROUND_def sizeof_ptr_def round_down_page)
qed

text \<open>
  \<open>array_nextsize\<close> always makes room: the new size holds the requested number of elements, and it
  is at least twice the old one, so growing is amortised.
\<close>

theorem array_nextsize_enough:
  assumes "0 < elem" "0 \<le> cur"
  shows "cnt \<le> array_nextsize elem cur cnt \<and> 2 * (cur + 1) \<le> array_nextsize elem cur cnt"
  using assms by (rule nextsize_bounds)

lemma array_nextsize_enough_witness: "1000 \<le> array_nextsize 16 10 1000 \<and> 2 * (10 + 1) \<le> array_nextsize 16 10 1000"
  by (rule array_nextsize_enough) simp_all

lemma length_array_needsize: "0 < elem \<Longrightarrow> cnt \<le> length (array_needsize elem z cnt xs)"
  using nextsize_bounds [of elem "int (length xs)" "int cnt"] by (auto simp: array_needsize_def)

section \<open>The pending queues are consistent\<close>

text \<open>
  Every entry is either the dummy or names a watcher that knows its place; every watcher marked as
  pending has its entry; priorities are in range.
\<close>

definition pend_ok :: "'a ev_base_scheme \<Rightarrow> bool" where
  "pend_ok s \<longleftrightarrow>
     (\<forall>p i. i < length (pendings s p) \<and> fst (pendings s p ! i) \<noteq> pending_w \<longrightarrow>
        pending (wt s (fst (pendings s p ! i))) = i + 1 \<and> ABSPRI (wt s (fst (pendings s p ! i))) = p)
   \<and> (\<forall>w. w \<noteq> pending_w \<and> pending (wt s w) \<noteq> 0 \<longrightarrow>
        pending (wt s w) \<le> length (pendings s (ABSPRI (wt s w)))
        \<and> fst (pendings s (ABSPRI (wt s w)) ! (pending (wt s w) - 1)) = w)
   \<and> pending (wt s pending_w) = 0
   \<and> (\<forall>p. NUMPRI \<le> p \<longrightarrow> pendings s p = [])"

text \<open>The event set a watcher is waiting to receive; 0 when it is not pending.\<close>

definition pending_events :: "'a ev_base_scheme \<Rightarrow> wid \<Rightarrow> evmask" where
  "pending_events s w =
     (if pending (wt s w) = 0 then 0 else snd (pendings s (ABSPRI (wt s w)) ! (pending (wt s w) - 1)))"

lemma pend_okD:
  assumes "pend_ok s" "w \<noteq> pending_w" "pending (wt s w) \<noteq> 0"
  shows "pending (wt s w) - 1 < length (pendings s (ABSPRI (wt s w)))"
    and "fst (pendings s (ABSPRI (wt s w)) ! (pending (wt s w) - 1)) = w"
  using assms by (auto simp: pend_ok_def)

lemma pend_ok_entry:
  assumes "pend_ok s" "i < length (pendings s p)" "fst (pendings s p ! i) \<noteq> pending_w"
  shows "pending (wt s (fst (pendings s p ! i))) = i + 1" "ABSPRI (wt s (fst (pendings s p ! i))) = p"
  using assms by (auto simp: pend_ok_def)

lemma pend_ok_distinct:
  assumes "pend_ok s" "pending (wt s v) \<noteq> 0" "pending (wt s w) \<noteq> 0" "v \<noteq> w" "ABSPRI (wt s v) = ABSPRI (wt s w)"
  shows "pending (wt s v) - 1 \<noteq> pending (wt s w) - 1"
proof
  assume e: "pending (wt s v) - 1 = pending (wt s w) - 1"
  have "v \<noteq> pending_w" "w \<noteq> pending_w" using assms(1-3) by (auto simp: pend_ok_def)
  then show False
    using pend_okD(2) [OF assms(1) _ assms(2)] pend_okD(2) [OF assms(1) _ assms(3)] e assms(4,5) by simp
qed

lemma pend_ok_cong:
  assumes "pendings s' = pendings s" "\<And>v. pending (wt s' v) = pending (wt s v)" "\<And>v. priority (wt s' v) = priority (wt s v)"
  shows "pend_ok s' = pend_ok s" "pending_events s' = pending_events s"
  using assms by (auto simp: pend_ok_def pending_events_def ABSPRI_def fun_eq_iff)

lemma ABSPRI_pending [simp]: "ABSPRI (x\<lparr>pending := n\<rparr>) = ABSPRI x"
  by (simp add: ABSPRI_def)

text \<open>Feeding a watcher.\<close>

lemma feed_pending:
  assumes "pending (wt s w) \<noteq> 0"
  shows "ev_feed_event w ev s =
    s\<lparr>pendings := (pendings s)(ABSPRI (wt s w) :=
        (pendings s (ABSPRI (wt s w)))[pending (wt s w) - 1 :=
          (fst (pendings s (ABSPRI (wt s w)) ! (pending (wt s w) - 1)),
           snd (pendings s (ABSPRI (wt s w)) ! (pending (wt s w) - 1)) OR ev)]),
      pendingpri := NUMPRI - 1\<rparr>"
  using assms by (simp add: ev_feed_event_def Let_def)

lemma feed_new:
  assumes "pending (wt s w) = 0"
  shows "ev_feed_event w ev s =
    s\<lparr>wt := (wt s)(w := (wt s w)\<lparr>pending := length (pendings s (ABSPRI (wt s w))) + 1\<rparr>),
      pendings := (pendings s)(ABSPRI (wt s w) := pendings s (ABSPRI (wt s w)) @ [(w, ev)]),
      pendingpri := NUMPRI - 1\<rparr>"
  using assms by (simp add: ev_feed_event_def Let_def)

lemma feed_pend_ok:
  assumes "pend_ok s" "w \<noteq> pending_w" "ABSPRI (wt s w) < NUMPRI"
  shows "pend_ok (ev_feed_event w ev s)"
proof (cases "pending (wt s w) = 0")
  case True
  let ?p = "ABSPRI (wt s w)"
  have other: "fst (pendings s q ! i) \<noteq> w" if "i < length (pendings s q)" for q i
    using pend_ok_entry [OF assms(1) that] True assms(2) by auto
  show ?thesis
    unfolding feed_new [OF True] using assms other
    by (auto simp: pend_ok_def nth_append)
next
  case False
  have i: "pending (wt s w) - 1 < length (pendings s (ABSPRI (wt s w)))"
    by (rule pend_okD [OF assms(1,2) False])
  show ?thesis
    unfolding feed_pending [OF False] using assms i by (auto simp: pend_ok_def nth_list_update)
qed

lemma feed_events:
  assumes "pend_ok s" "w \<noteq> pending_w" "ABSPRI (wt s w) < NUMPRI"
  shows "pending_events (ev_feed_event w ev s) = (pending_events s)(w := pending_events s w OR ev)"
proof (rule ext)
  fix v
  show "pending_events (ev_feed_event w ev s) v = ((pending_events s)(w := pending_events s w OR ev)) v"
  proof (cases "pending (wt s w) = 0")
    case True
    have v: "pending (wt s v) - 1 < length (pendings s (ABSPRI (wt s v)))" if "pending (wt s v) \<noteq> 0"
      using pend_okD(1) [OF assms(1) _ that] assms(1) that by (cases "v = pending_w") (auto simp: pend_ok_def)
    show ?thesis
      unfolding feed_new [OF True] using True v assms(2)
      by (cases "v = w") (auto simp: pending_events_def nth_append)
  next
    case False
    note i = pend_okD [OF assms(1,2) False]
    have ne: "pending (wt s v) - 1 \<noteq> pending (wt s w) - 1"
      if "pending (wt s v) \<noteq> 0" "v \<noteq> w" "ABSPRI (wt s v) = ABSPRI (wt s w)"
      using pend_ok_distinct [OF assms(1) that(1) False that(2,3)] .
    show ?thesis
      unfolding feed_pending [OF False]
      using i False ne by (cases "v = w") (auto simp: pending_events_def nth_list_update)
  qed
qed

text \<open>Taking the pending state of a watcher away.\<close>

lemma ev_clear_pending_eq: "ev_clear_pending w s = (pending_events s w, clear_pending w s)"
  by (simp add: ev_clear_pending_def clear_pending_def pending_events_def Let_def)

lemma clear_pend_ok:
  assumes "pend_ok s"
  shows "pend_ok (clear_pending w s)"
proof (cases "pending (wt s w) = 0")
  case True
  then show ?thesis using assms by (simp add: clear_pending_def)
next
  case False
  then have "w \<noteq> pending_w" using assms by (auto simp: pend_ok_def)
  note i = pend_okD [OF assms this False]
  have ne: "v = w"
    if "0 < pending (wt s v)" "ABSPRI (wt s v) = ABSPRI (wt s w)" "pending (wt s w) - Suc 0 = pending (wt s v) - Suc 0" for v
    using pend_ok_distinct [OF assms _ False, of v] that by auto
  have own: "fst (pendings s p ! j) = w \<longleftrightarrow> p = ABSPRI (wt s w) \<and> j = pending (wt s w) - 1" if "j < length (pendings s p)" for p j
    using pend_ok_entry [OF assms that] i \<open>w \<noteq> pending_w\<close> by fastforce
  show ?thesis
    using assms False i own
    by (auto simp: pend_ok_def clear_pending_def Let_def nth_list_update dest: ne)
qed

lemma clear_events: "pend_ok s \<Longrightarrow> pending_events (clear_pending w s) = (pending_events s)(w := 0)"
proof (rule ext)
  fix v
  assume ok: "pend_ok s"
  show "pending_events (clear_pending w s) v = ((pending_events s)(w := 0)) v"
  proof (cases "pending (wt s w) = 0")
    case True
    then show ?thesis by (simp add: clear_pending_def pending_events_def)
  next
    case False
    have "pending (wt s v) - 1 \<noteq> pending (wt s w) - 1"
      if "pending (wt s v) \<noteq> 0" "v \<noteq> w" "ABSPRI (wt s v) = ABSPRI (wt s w)"
      using pend_ok_distinct [OF ok that(1) False that(2,3)] .
    then show ?thesis using False
      by (cases "v = w") (auto simp: clear_pending_def pending_events_def Let_def nth_list_update)
  qed
qed

lemma clear_members [simp]:
  "active (wt (clear_pending w s) v) = active (wt s v)" "priority (wt (clear_pending w s) v) = priority (wt s v)"
  "w_next (wt (clear_pending w s) v) = w_next (wt s v)" "io_fd (wt (clear_pending w s) v) = io_fd (wt s v)"
  "io_events (wt (clear_pending w s) v) = io_events (wt s v)" "activecnt (clear_pending w s) = activecnt s"
  "ABSPRI (wt (clear_pending w s) v) = ABSPRI (wt s v)"
  by (auto simp: clear_pending_def Let_def ABSPRI_def)

lemma clear_pending_zero: "pending (wt (clear_pending w s) w) = 0"
  by (simp add: clear_pending_def Let_def)

section \<open>Delivery\<close>

text \<open>Nothing above the current priority is pending.\<close>

definition deliver_ok :: "'a ev_base_scheme \<Rightarrow> bool" where
  "deliver_ok s \<longleftrightarrow> pend_ok s \<and> (\<forall>p > pendingpri s. pendings s p = [])"

lemma take_last_ok:
  assumes "deliver_ok s" "pendings s (pendingpri s) \<noteq> []" "last (pendings s (pendingpri s)) = (w, ev)"
  shows "deliver_ok ((upd_w w (\<lambda>x. x\<lparr>pending := 0\<rparr>) s)\<lparr>pendings := (pendings s)(pendingpri s := butlast (pendings s (pendingpri s)))\<rparr>)"
proof -
  let ?p = "pendingpri s" let ?q = "pendings s ?p" let ?n = "length ?q - 1"
  have ok: "pend_ok s" using assms(1) by (simp add: deliver_ok_def)
  have w: "fst (?q ! ?n) = w" "?n < length ?q" using assms(2,3) last_conv_nth [OF assms(2)] by simp_all
  have mine: "pending (wt s w) = length ?q \<and> ABSPRI (wt s w) = ?p" if "w \<noteq> pending_w"
    using pend_ok_entry [OF ok w(2)] w that by simp
  have own: "j = ?n \<and> p = ?p" if "j < length (pendings s p)" "fst (pendings s p ! j) = w" "w \<noteq> pending_w" for p j
    using pend_ok_entry [OF ok that(1)] that mine by auto
  have others: "pending (wt s v) \<noteq> length ?q" if "pending (wt s v) \<noteq> 0" "v \<noteq> w" "ABSPRI (wt s v) = ?p" for v
  proof
    assume e: "pending (wt s v) = length ?q"
    have "v \<noteq> pending_w" using ok that(1) by (auto simp: pend_ok_def)
    from pend_okD(2) [OF ok this that(1)] e that(2,3) w(1) show False by simp
  qed
  have wok: "w = pending_w \<Longrightarrow> pending (wt s w) = 0" using ok by (simp add: pend_ok_def)
  have small: "pending (wt s v) \<le> ?n" if "pending (wt s v) \<noteq> 0" "v \<noteq> w" "ABSPRI (wt s v) = ?p" for v
  proof -
    have "v \<noteq> pending_w" using ok that(1) by (auto simp: pend_ok_def)
    then show ?thesis using others [OF that] pend_okD(1) [OF ok _ that(1)] that(3) by simp
  qed
  let ?s1 = "(upd_w w (\<lambda>x. x\<lparr>pending := 0\<rparr>) s)\<lparr>pendings := (pendings s)(?p := butlast ?q)\<rparr>"
  have entry: "i < length (pendings s p) \<and> (p = ?p \<longrightarrow> i < ?n) \<and> pendings ?s1 p ! i = pendings s p ! i"
    if "i < length (pendings ?s1 p)" for p i
    using that by (auto simp: nth_butlast)
  have "pend_ok ?s1" unfolding pend_ok_def
  proof (intro conjI allI impI)
    fix p i
    assume a: "i < length (pendings ?s1 p) \<and> fst (pendings ?s1 p ! i) \<noteq> pending_w"
    let ?x = "fst (pendings s p ! i)"
    have e: "i < length (pendings s p)" "p = ?p \<longrightarrow> i < ?n" "pendings ?s1 p ! i = pendings s p ! i" "?x \<noteq> pending_w"
      using a entry [of i p] by auto
    then have "?x \<noteq> w" using own [OF e(1)] by auto
    then show "pending (wt ?s1 (fst (pendings ?s1 p ! i))) = i + 1" "ABSPRI (wt ?s1 (fst (pendings ?s1 p ! i))) = p"
      using pend_ok_entry [OF ok e(1) e(4)] unfolding e(3) by simp_all
  next
    fix v assume a: "v \<noteq> pending_w \<and> pending (wt ?s1 v) \<noteq> 0"
    then have v: "v \<noteq> pending_w" "v \<noteq> w" "pending (wt s v) \<noteq> 0" by (auto split: if_splits)
    note d = pend_okD [OF ok v(1,3)]
    have l: "pending (wt s v) - 1 < length (pendings ?s1 (ABSPRI (wt s v)))"
      using d(1) small [OF v(3,2)] v(3) by auto
    then show "pending (wt ?s1 v) \<le> length (pendings ?s1 (ABSPRI (wt ?s1 v)))" using v by auto
    show "fst (pendings ?s1 (ABSPRI (wt ?s1 v)) ! (pending (wt ?s1 v) - 1)) = v"
      using entry [OF l] d(2) v(2) by simp
  next
    show "pending (wt ?s1 pending_w) = 0" using ok by (simp add: pend_ok_def)
  next
    fix p assume "NUMPRI \<le> p"
    then show "pendings ?s1 p = []" using ok by (auto simp: pend_ok_def)
  qed
  then show ?thesis using assms(1) by (simp add: deliver_ok_def)
qed

lemma invoke_loop_drains:
  assumes "\<And>w ev s. deliver_ok s \<Longrightarrow> deliver_ok (f w ev s)" "deliver_ok s" "invoke_loop n f s = Some (tr, s')"
  shows "pend_ok s' \<and> (\<forall>p. pendings s' p = [])"
  using assms(2,3)
proof (induction n arbitrary: s tr)
  case 0
  then show ?case by simp
next
  case (Suc n)
  let ?q = "pendings s (pendingpri s)"
  show ?case
  proof (cases "?q = []")
    case False
    obtain w ev where l: "last ?q = (w, ev)" by fastforce
    let ?s1 = "(upd_w w (\<lambda>x. x\<lparr>pending := 0\<rparr>) s)\<lparr>pendings := (pendings s)(pendingpri s := butlast ?q)\<rparr>"
    have "deliver_ok (EV_CB_INVOKE f w ev ?s1)"
      using take_last_ok [OF Suc.prems(1) False l] assms(1) by (auto simp: EV_CB_INVOKE_def pendingcb_def)
    then show ?thesis using Suc.IH Suc.prems(2) False l by (auto simp: Let_def)
  next
    case True
    show ?thesis
    proof (cases "pendingpri s = 0")
      case z: True
      have "pendings s p = []" for p using Suc.prems(1) True z by (cases "p = 0") (auto simp: deliver_ok_def)
      then show ?thesis using Suc.prems True z by (auto simp: deliver_ok_def)
    next
      case nz: False
      have "deliver_ok (s\<lparr>pendingpri := pendingpri s - 1\<rparr>)"
        using Suc.prems(1) True by (auto simp: deliver_ok_def pend_ok_def)
          (metis Suc_pred linorder_neqE_nat neq0_conv not_less_eq nz)
      then show ?thesis using Suc.IH Suc.prems(2) True nz by simp
    qed
  qed
qed

lemma feed_deliver_ok:
  "deliver_ok s \<Longrightarrow> w \<noteq> pending_w \<Longrightarrow> ABSPRI (wt s w) < NUMPRI \<Longrightarrow> deliver_ok (ev_feed_event w ev s)"
  using feed_pend_ok [of s w ev]
  by (auto simp: deliver_ok_def ev_feed_event_def Let_def pend_ok_def split: if_splits)

text \<open>Callbacks that leave the queues alone.\<close>

definition quiet :: "'a callback \<Rightarrow> bool" where
  "quiet f \<longleftrightarrow> (\<forall>w ev s. pendings (f w ev s) = pendings s \<and> pendingpri (f w ev s) = pendingpri s
     \<and> (\<forall>v. pending (wt (f w ev s) v) = pending (wt s v) \<and> priority (wt (f w ev s) v) = priority (wt s v)))"

fun deliveries :: "'a ev_base_scheme \<Rightarrow> nat \<Rightarrow> (wid \<times> evmask) list" where
  "deliveries s 0 = rev (pendings s 0)"
| "deliveries s (Suc p) = rev (pendings s (Suc p)) @ deliveries s p"

lemma deliveries_cong: "(\<And>p. p \<le> n \<Longrightarrow> pendings s p = pendings s' p) \<Longrightarrow> deliveries s n = deliveries s' n"
  by (induction n) auto

lemma deliveries_pop:
  "pendings s n \<noteq> [] \<Longrightarrow> pendings s' = (pendings s)(n := butlast (pendings s n)) \<Longrightarrow>
     deliveries s n = last (pendings s n) # deliveries s' n"
proof (cases n)
  case 0
  assume "pendings s n \<noteq> []" "pendings s' = (pendings s)(n := butlast (pendings s n))"
  with 0 show ?thesis by (cases "pendings s n" rule: rev_cases) simp_all
next
  case (Suc m)
  assume a: "pendings s n \<noteq> []" "pendings s' = (pendings s)(n := butlast (pendings s n))"
  then have "deliveries s m = deliveries s' m" by (intro deliveries_cong) (auto simp: Suc)
  with a Suc show ?thesis by (cases "pendings s n" rule: rev_cases) simp_all
qed

lemma quietD:
  assumes "quiet f"
  shows "pendings (EV_CB_INVOKE f w ev s) = pendings s" "pendingpri (EV_CB_INVOKE f w ev s) = pendingpri s"
  using assms by (auto simp: quiet_def EV_CB_INVOKE_def pendingcb_def)

lemma invoke_loop_quiet:
  assumes "quiet f" "(\<Sum>p \<le> pendingpri s. length (pendings s p) + 1) \<le> n"
  shows "\<exists>s'. invoke_loop n f s = Some (deliveries s (pendingpri s), s')"
  using assms(2)
proof (induction n arbitrary: s)
  case 0
  then show ?case by (auto simp: sum_eq_0_iff dest: spec [of _ 0])
next
  case (Suc n)
  let ?p = "pendingpri s" let ?q = "pendings s ?p"
  show ?case
  proof (cases "?q = []")
    case False
    obtain w ev where l: "last ?q = (w, ev)" by fastforce
    let ?s1 = "(upd_w w (\<lambda>x. x\<lparr>pending := 0\<rparr>) s)\<lparr>pendings := (pendings s)(?p := butlast ?q)\<rparr>"
    let ?s2 = "EV_CB_INVOKE f w ev ?s1"
    have s2: "pendings ?s2 = (pendings s)(?p := butlast ?q)" "pendingpri ?s2 = ?p"
      using quietD [OF assms(1), of w ev ?s1] by simp_all
    have "(\<Sum>p \<le> ?p. length (pendings ?s2 p) + 1) + 1 = (\<Sum>p \<le> ?p. length (pendings s p) + 1)"
    proof -
      have "length ?q = length (butlast ?q) + 1" using False by (cases ?q rule: rev_cases) auto
      moreover have "{..?p} = insert ?p {..<?p}" by auto
      moreover have "(\<Sum>p < ?p. length (pendings ?s2 p) + 1) = (\<Sum>p < ?p. length (pendings s p) + 1)"
        unfolding s2 by (rule sum.cong) auto
      ultimately show ?thesis by (simp add: s2(1))
    qed
    then have "(\<Sum>p \<le> pendingpri ?s2. length (pendings ?s2 p) + 1) \<le> n" using Suc.prems s2(2) by simp
    from Suc.IH [OF this] obtain s' where "invoke_loop n f ?s2 = Some (deliveries ?s2 ?p, s')"
      using s2(2) by auto
    then show ?thesis using False l deliveries_pop [OF False s2(1)] by (simp add: Let_def)
  next
    case True
    show ?thesis
    proof (cases ?p)
      case 0
      then show ?thesis using True by simp
    next
      case (Suc m)
      have "(\<Sum>p \<le> m. length (pendings s p) + 1) \<le> n" using Suc.prems True unfolding Suc by simp
      with Suc.IH [of "s\<lparr>pendingpri := m\<rparr>"] obtain s' where
        "invoke_loop n f (s\<lparr>pendingpri := m\<rparr>) = Some (deliveries (s\<lparr>pendingpri := m\<rparr>) m, s')" by auto
      moreover have "deliveries (s\<lparr>pendingpri := m\<rparr>) m = deliveries s m" by (rule deliveries_cong) simp
      ultimately show ?thesis using True Suc by simp
    qed
  qed
qed

section \<open>Properties\<close>

text \<open>A loop with two pending watchers, for the witnesses.\<close>

definition idle_watcher :: "int \<Rightarrow> watcher" where
  "idle_watcher pri = \<lparr>active = 0, pending = 0, priority = pri, cb = 0, w_next = None, io_fd = 0, io_events = 0,
     w_at = 0, w_repeat = 0, w_offset = 0, w_interval = 0, reschedule_cb = None, signum = 0, child_flags = 0,
     child_pid = 0, child_rpid = 0, child_rstatus = 0, async_sent = False\<rparr>"

definition base_init :: "(wid \<Rightarrow> watcher) \<Rightarrow> ev_base" where
  "base_init ws = \<lparr>wt = ws, activecnt = 0, pendings = (\<lambda>_. []), pendingpri = 0, rfeeds = []\<rparr>"

definition base_demo :: ev_base where
  "base_demo = ev_feed_event 2 EV_WRITE (ev_feed_event 1 EV_READ (base_init (\<lambda>w. idle_watcher (if w = 2 then 1 else 0))))"

lemma base_init_ok: "(\<And>w. pending (ws w) = 0) \<Longrightarrow> deliver_ok (base_init ws)"
  by (simp add: deliver_ok_def pend_ok_def base_init_def)

lemma base_demo_ok: "deliver_ok base_demo"
  unfolding base_demo_def
  by (intro feed_deliver_ok base_init_ok)
    (auto simp: base_init_def idle_watcher_def pending_w_def ABSPRI_def EV_MINPRI_def ev_feed_event_def Let_def)

text \<open>
  \<open>ev_feed_event\<close> keeps the queues consistent and adds the events to what that watcher alone is
  waiting to receive: feeding a pending watcher again merges the two sets into one delivery.
\<close>

theorem feed_event_accumulates:
  assumes "pend_ok s" "w \<noteq> pending_w" "ABSPRI (wt s w) < NUMPRI"
  shows "pend_ok (ev_feed_event w ev s)
    \<and> pending_events (ev_feed_event w ev s) = (pending_events s)(w := pending_events s w OR ev)"
  using feed_pend_ok [OF assms] feed_events [OF assms] by simp

lemma feed_event_accumulates_witness:
  "pend_ok (ev_feed_event 1 EV_WRITE base_demo)
    \<and> pending_events (ev_feed_event 1 EV_WRITE base_demo) = (pending_events base_demo)(1 := pending_events base_demo 1 OR EV_WRITE)"
  using base_demo_ok
  by (intro feed_event_accumulates)
    (auto simp: deliver_ok_def pending_w_def base_demo_def base_init_def idle_watcher_def ABSPRI_def EV_MINPRI_def
      ev_feed_event_def Let_def)

text \<open>
  \<open>ev_clear_pending\<close> returns the events a watcher was waiting to receive and takes the watcher,
  and no other, off the queue, which stays consistent.
\<close>

theorem clear_pending_forgets:
  assumes "pend_ok s" "ev_clear_pending w s = (ev, s')"
  shows "ev = pending_events s w \<and> pend_ok s' \<and> pending (wt s' w) = 0
    \<and> pending_events s' = (pending_events s)(w := 0)"
  using assms clear_pend_ok [OF assms(1), of w] clear_events [OF assms(1), of w] clear_pending_zero [of w s]
  by (auto simp: ev_clear_pending_eq)

lemma clear_pending_forgets_witness:
  "pend_ok (snd (ev_clear_pending 1 base_demo)) \<and> fst (ev_clear_pending 1 base_demo) = pending_events base_demo 1"
  using clear_pending_forgets [of base_demo 1 "fst (ev_clear_pending 1 base_demo)" "snd (ev_clear_pending 1 base_demo)"]
    base_demo_ok by (simp add: deliver_ok_def)

text \<open>
  C25. \<open>ev_invoke_pending\<close> with callbacks that queue nothing delivers every entry exactly once, higher
  priorities first and the entry queued last first within a priority, and it returns after as many
  rounds as there are entries and priorities.
\<close>

theorem invoke_pending_by_priority:
  assumes "quiet f" "(\<Sum>p \<le> NUMPRI - 1. length (pendings s p) + 1) \<le> n"
  shows "\<exists>s'. ev_invoke_pending n f s
    = Some (rev (pendings s 4) @ rev (pendings s 3) @ rev (pendings s 2) @ rev (pendings s 1) @ rev (pendings s 0), s')"
proof -
  let ?s = "s\<lparr>pendingpri := NUMPRI - 1\<rparr>"
  have "deliveries ?s 4 = rev (pendings s 4) @ rev (pendings s 3) @ rev (pendings s 2) @ rev (pendings s 1) @ rev (pendings s 0)"
    by (simp add: eval_nat_numeral)
  then show ?thesis
    using invoke_loop_quiet [OF assms(1), of ?s n] assms(2) by (simp add: ev_invoke_pending_def)
qed

lemma invoke_pending_by_priority_witness:
  "\<exists>s'. ev_invoke_pending 7 (\<lambda>w ev s. s) base_demo = Some ([(2, EV_WRITE), (1, EV_READ)], s')"
proof -
  have p: "pendings base_demo = (\<lambda>_. [])(2 := [(1, EV_READ)], 3 := [(2, EV_WRITE)])"
    by (auto simp: base_demo_def base_init_def idle_watcher_def ABSPRI_def EV_MINPRI_def ev_feed_event_def Let_def)
  have "(\<Sum>p \<le> NUMPRI - 1. length (pendings base_demo p) + 1) \<le> 7"
    by (simp add: p eval_nat_numeral)
  from invoke_pending_by_priority [OF _ this, of "\<lambda>w ev s. s"] show ?thesis by (simp add: quiet_def p)
qed

text \<open>
  When \<open>ev_invoke_pending\<close> returns, nothing is pending any more, whatever the callbacks did with
  the queues through the library's own operations (each of which keeps the queues consistent and
  nothing pending above the current priority).
\<close>

theorem invoke_pending_drains:
  assumes "\<And>w ev s. deliver_ok s \<Longrightarrow> deliver_ok (f w ev s)" "pend_ok s"
    and "ev_invoke_pending n f s = Some (tr, s')"
  shows "ev_pending_count s' = 0 \<and> (\<forall>w. pending (wt s' w) = 0)"
proof -
  have "deliver_ok (s\<lparr>pendingpri := NUMPRI - 1\<rparr>)" using assms(2) by (auto simp: deliver_ok_def pend_ok_def)
  from invoke_loop_drains [OF assms(1) this] assms(3)
  have ok: "pend_ok s'" "\<And>p. pendings s' p = []" by (auto simp: ev_invoke_pending_def)
  have "pending (wt s' w) = 0" if "w \<noteq> pending_w" for w
    using pend_okD(1) [OF ok(1) that] ok(2) by auto
  then have "pending (wt s' w) = 0" for w using ok(1) by (cases "w = pending_w") (simp_all add: pend_ok_def)
  then show ?thesis using ok(2) by (simp add: ev_pending_count_def)
qed

definition feeding_cb :: "unit callback" where
  "feeding_cb w ev s = (if w = 1 \<and> ABSPRI (wt s 2) < NUMPRI then ev_feed_event 2 EV_READ s else s)"

lemma invoke_pending_drains_witness:
  "\<exists>tr s'. ev_invoke_pending 20 feeding_cb base_demo = Some (tr, s') \<and> ev_pending_count s' = 0"
proof -
  have "\<not> Option.is_none (ev_invoke_pending 20 feeding_cb base_demo)" by code_simp
  then obtain tr s' where r: "ev_invoke_pending 20 feeding_cb base_demo = Some (tr, s')"
    by (cases "ev_invoke_pending 20 feeding_cb base_demo") auto
  have "deliver_ok (feeding_cb w ev s)" if "deliver_ok s" for w ev s
    using feed_deliver_ok [OF that, of 2 EV_READ] that by (simp add: pending_w_def feeding_cb_def)
  from invoke_pending_drains [OF this _ r] base_demo_ok r show ?thesis by (auto simp: deliver_ok_def)
qed

text \<open>
  \<open>ev_start\<close> always leaves a priority in the range the queues have, whatever the client set, and
  counts one reference; \<open>ev_stop\<close> gives the reference back and marks the watcher inactive.
\<close>

theorem start_stop_reference:
  "EV_MINPRI \<le> priority (wt (ev_start w k s) w) \<and> priority (wt (ev_start w k s) w) \<le> EV_MAXPRI
   \<and> ABSPRI (wt (ev_start w k s) w) < NUMPRI \<and> active (wt (ev_start w k s) w) = k
   \<and> activecnt (ev_start w k s) = activecnt s + 1
   \<and> activecnt (ev_stop w (ev_start w k s)) = activecnt s \<and> active (wt (ev_stop w (ev_start w k s)) w) = 0"
  by (auto simp: ev_start_def ev_stop_def ev_ref_def ev_unref_def pri_adjust_def Let_def ev_set_priority_def
      EV_MINPRI_def EV_MAXPRI_def ABSPRI_def)

end
