(* ===== verification/EvFd.thy ===== *)
theory EvFd
  imports EvPending
begin

text \<open>
  \<open>libev-4.15/ev.c\<close>: file descriptors.  \<open>anfds\<close> maps a descriptor to the list of its \<open>ev_io\<close>
  watchers (linked through \<open>w_next\<close>), the events the kernel watches for and a mark that the kernel
  has to be told about a change; \<open>fdchanges\<close> lists the marked descriptors until \<open>fd_reify\<close> hands them
  to the backend.  The backend's \<open>backend_modify\<close> is a parameter of \<open>fd_reify\<close>.

  Functions that contain an \<open>assert\<close>, or walk a list, return an option: \<open>None\<close> is a failing assertion
  or a walk along a cyclic list, which does not end.  Descriptors are array indices (\<open>nat\<close>) once the
  assertions have been passed.
\<close>

section \<open>Translation\<close>

definition EV_ANFD_REIFY :: u8_t where "EV_ANFD_REIFY = 1"

record ANFD =
  head :: "wid option"
  af_events :: u8_t
  reify :: u8_t
  emask :: u8_t
  egen :: u32_t

definition anfd_zero :: ANFD where
  "anfd_zero = \<lparr>head = None, af_events = 0, reify = 0, emask = 0, egen = 0\<rparr>"

definition sizeof_ANFD :: int where "sizeof_ANFD = 16"

record ev_fds = ev_base +
  anfds :: "ANFD list"
  fdchanges :: "nat list"

definition upd_anfd :: "nat \<Rightarrow> (ANFD \<Rightarrow> ANFD) \<Rightarrow> 'a ev_fds_scheme \<Rightarrow> 'a ev_fds_scheme" where
  "upd_anfd fd f s = s\<lparr>anfds := (anfds s)[fd := f (anfds s ! fd)]\<rparr>"

text \<open>The singly linked lists.  A reference is where a pointer is stored: in the list head, or in the
  \<open>next\<close> member of a watcher.\<close>

type_synonym wl_state = "wid option \<times> (wid \<Rightarrow> watcher)"

datatype wl_ref = HeadRef | NextRef wid

fun wl_read :: "wl_ref \<Rightarrow> wl_state \<Rightarrow> wid option" where
  "wl_read HeadRef st = fst st"
| "wl_read (NextRef w) st = w_next (snd st w)"

fun wl_write :: "wl_ref \<Rightarrow> wid option \<Rightarrow> wl_state \<Rightarrow> wl_state" where
  "wl_write HeadRef p st = (p, snd st)"
| "wl_write (NextRef w) p st = (fst st, (snd st)(w := (snd st w)\<lparr>w_next := p\<rparr>))"

definition wlist_add :: "wid \<Rightarrow> wl_state \<Rightarrow> wl_state" where
  "wlist_add el st = wl_write HeadRef (Some el) (wl_write (NextRef el) (wl_read HeadRef st) st)"

partial_function (option) wlist_del_from :: "wl_ref \<Rightarrow> wid \<Rightarrow> wl_state \<Rightarrow> wl_state option" where
  "wlist_del_from r el st =
     (case wl_read r st of
        None \<Rightarrow> Some st
      | Some x \<Rightarrow>
          if x = el then Some (wl_write r (w_next (snd st el)) st)
          else wlist_del_from (NextRef x) el st)"

definition wlist_del :: "wid \<Rightarrow> wl_state \<Rightarrow> wl_state option" where
  "wlist_del el st = wlist_del_from HeadRef el st"

text \<open>Events on a descriptor.\<close>

partial_function (option) fd_event_loop :: "wid option \<Rightarrow> evmask \<Rightarrow> 'a ev_fds_scheme \<Rightarrow> 'a ev_fds_scheme option" where
  "fd_event_loop p revents s =
     (case p of
        None \<Rightarrow> Some s
      | Some w \<Rightarrow>
          (let ev = io_events (wt s w) AND revents;
               s' = (if ev \<noteq> 0 then ev_feed_event w ev s else s)
           in fd_event_loop (w_next (wt s' w)) revents s'))"

definition fd_event_nocheck :: "nat \<Rightarrow> evmask \<Rightarrow> 'a ev_fds_scheme \<Rightarrow> 'a ev_fds_scheme option" where
  "fd_event_nocheck fd revents s = fd_event_loop (head (anfds s ! fd)) revents s"

definition fd_event :: "nat \<Rightarrow> evmask \<Rightarrow> 'a ev_fds_scheme \<Rightarrow> 'a ev_fds_scheme option" where
  "fd_event fd revents s = (if reify (anfds s ! fd) = 0 then fd_event_nocheck fd revents s else Some s)"

definition ev_feed_fd_event :: "int \<Rightarrow> evmask \<Rightarrow> 'a ev_fds_scheme \<Rightarrow> 'a ev_fds_scheme option" where
  "ev_feed_fd_event fd revents s =
     (if fd \<ge> 0 \<and> fd < int (length (anfds s)) then fd_event_nocheck (nat fd) revents s else Some s)"

text \<open>Telling the backend.\<close>

partial_function (option) or_events :: "wid option \<Rightarrow> (wid \<Rightarrow> watcher) \<Rightarrow> u8_t \<Rightarrow> u8_t option" where
  "or_events p wm acc =
     (case p of
        None \<Rightarrow> Some acc
      | Some w \<Rightarrow> or_events (w_next (wm w)) wm (acc OR ucast (io_events (wm w))))"

type_synonym 's backend_modify = "nat \<Rightarrow> u8_t \<Rightarrow> u8_t \<Rightarrow> 's \<Rightarrow> 's option"

definition fd_reify_one :: "'a ev_fds_scheme backend_modify \<Rightarrow> nat \<Rightarrow> 'a ev_fds_scheme \<Rightarrow> 'a ev_fds_scheme option" where
  "fd_reify_one bm fd s =
     (let o_events = af_events (anfds s ! fd); o_reify = reify (anfds s ! fd) in
      case or_events (head (anfds s ! fd)) (wt s) 0 of
        None \<Rightarrow> None
      | Some n_events \<Rightarrow>
          (let s1 = upd_anfd fd (\<lambda>a. a\<lparr>reify := 0, af_events := n_events\<rparr>) s;
               o_reify = (if o_events \<noteq> n_events then ucast EV__IOFDSET else o_reify)
           in if o_reify AND ucast EV__IOFDSET \<noteq> 0 then bm fd o_events n_events s1 else Some s1))"

partial_function (option) fd_reify_loop ::
    "'a ev_fds_scheme backend_modify \<Rightarrow> nat \<Rightarrow> 'a ev_fds_scheme \<Rightarrow> 'a ev_fds_scheme option" where
  "fd_reify_loop bm i s =
     (if i < length (fdchanges s)
      then (case fd_reify_one bm (fdchanges s ! i) s of None \<Rightarrow> None | Some s' \<Rightarrow> fd_reify_loop bm (Suc i) s')
      else Some s)"

definition fd_reify :: "'a ev_fds_scheme backend_modify \<Rightarrow> 'a ev_fds_scheme \<Rightarrow> 'a ev_fds_scheme option" where
  "fd_reify bm s = map_option (\<lambda>s'. s'\<lparr>fdchanges := []\<rparr>) (fd_reify_loop bm 0 s)"

definition fd_change :: "nat \<Rightarrow> u8_t \<Rightarrow> 'a ev_fds_scheme \<Rightarrow> 'a ev_fds_scheme" where
  "fd_change fd flags s =
     (let r = reify (anfds s ! fd);
          s1 = upd_anfd fd (\<lambda>a. a\<lparr>reify := r OR flags\<rparr>) s
      in if r = 0 then s1\<lparr>fdchanges := fdchanges s @ [fd]\<rparr> else s1)"

section \<open>Starting and stopping an ev-io watcher\<close>

definition ev_io_start :: "wid \<Rightarrow> 'a ev_fds_scheme \<Rightarrow> 'a ev_fds_scheme option" where
  "ev_io_start w s =
     (let fd = io_fd (wt s w) in
      if active (wt s w) \<noteq> 0 then Some s
      else if \<not> fd \<ge> 0 then None
      else if io_events (wt s w) AND NOT (EV__IOFDSET OR EV_READ OR EV_WRITE) \<noteq> 0 then None
      else
        let s1 = ev_start w 1 s;
            s2 = s1\<lparr>anfds := array_needsize sizeof_ANFD anfd_zero (nat fd + 1) (anfds s1)\<rparr>;
            (h, wm) = wlist_add w (head (anfds s2 ! nat fd), wt s2);
            s3 = upd_anfd (nat fd) (\<lambda>a. a\<lparr>head := h\<rparr>) (s2\<lparr>wt := wm\<rparr>)
        in if w_next (wt s3 w) = Some w then None
           else
             let s4 = fd_change (nat fd) (ucast (io_events (wt s3 w) AND EV__IOFDSET) OR EV_ANFD_REIFY) s3
             in Some (upd_w w (\<lambda>x. x\<lparr>io_events := io_events x AND NOT EV__IOFDSET\<rparr>) s4))"

definition ev_io_stop :: "wid \<Rightarrow> 'a ev_fds_scheme \<Rightarrow> 'a ev_fds_scheme option" where
  "ev_io_stop w s =
     (let s1 = clear_pending w s; fd = io_fd (wt s1 w) in
      if active (wt s1 w) = 0 then Some s1
      else if \<not> (fd \<ge> 0 \<and> fd < int (length (anfds s1))) then None
      else
        (case wlist_del w (head (anfds s1 ! nat fd), wt s1) of
           None \<Rightarrow> None
         | Some (h, wm) \<Rightarrow>
             let s2 = upd_anfd (nat fd) (\<lambda>a. a\<lparr>head := h\<rparr>) (s1\<lparr>wt := wm\<rparr>)
             in Some (fd_change (nat fd) EV_ANFD_REIFY (ev_stop w s2))))"

section \<open>Error recovery\<close>

partial_function (option) fd_kill :: "nat \<Rightarrow> 'a ev_fds_scheme \<Rightarrow> 'a ev_fds_scheme option" where
  "fd_kill fd s =
     (case head (anfds s ! fd) of
        None \<Rightarrow> Some s
      | Some w \<Rightarrow>
          (case ev_io_stop w s of
             None \<Rightarrow> None
           | Some s1 \<Rightarrow> fd_kill fd (ev_feed_event w (EV_ERROR OR EV_READ OR EV_WRITE) s1)))"

text \<open>\<open>bad fd\<close> is the outcome of \<open>fcntl\<close> (\<open>fd_valid\<close>) together with \<open>errno\<close>.\<close>

fun fd_ebadf_loop :: "(nat \<Rightarrow> bool) \<Rightarrow> nat list \<Rightarrow> 'a ev_fds_scheme \<Rightarrow> 'a ev_fds_scheme option" where
  "fd_ebadf_loop bad [] s = Some s"
| "fd_ebadf_loop bad (fd # fds) s =
     (if af_events (anfds s ! fd) \<noteq> 0 \<and> bad fd
      then (case fd_kill fd s of None \<Rightarrow> None | Some s' \<Rightarrow> fd_ebadf_loop bad fds s')
      else fd_ebadf_loop bad fds s)"

definition fd_ebadf :: "(nat \<Rightarrow> bool) \<Rightarrow> 'a ev_fds_scheme \<Rightarrow> 'a ev_fds_scheme option" where
  "fd_ebadf bad s = fd_ebadf_loop bad [0..<length (anfds s)] s"

fun fd_enomem_loop :: "nat \<Rightarrow> 'a ev_fds_scheme \<Rightarrow> 'a ev_fds_scheme option" where
  "fd_enomem_loop 0 s = Some s"
| "fd_enomem_loop (Suc fd) s = (if af_events (anfds s ! fd) \<noteq> 0 then fd_kill fd s else fd_enomem_loop fd s)"

definition fd_enomem :: "'a ev_fds_scheme \<Rightarrow> 'a ev_fds_scheme option" where
  "fd_enomem s = fd_enomem_loop (length (anfds s)) s"

definition fd_rearm_all :: "'a ev_fds_scheme \<Rightarrow> 'a ev_fds_scheme" where
  "fd_rearm_all s = fold (\<lambda>fd s.
     if af_events (anfds s ! fd) \<noteq> 0
     then fd_change fd (ucast EV__IOFDSET OR EV_ANFD_REIFY) (upd_anfd fd (\<lambda>a. a\<lparr>af_events := 0, emask := 0\<rparr>) s)
     else s) [0..<length (anfds s)] s"

section \<open>The lists\<close>

abbreviation nexts :: "(wid \<Rightarrow> watcher) \<Rightarrow> wid \<Rightarrow> wid option" where
  "nexts wm \<equiv> (\<lambda>w. w_next (wm w))"

definition only_next :: "wid set \<Rightarrow> (wid \<Rightarrow> watcher) \<Rightarrow> (wid \<Rightarrow> watcher) \<Rightarrow> bool" where
  "only_next W wm wm' \<longleftrightarrow> (\<forall>w. wm' w = (wm w)\<lparr>w_next := w_next (wm' w)\<rparr>) \<and> (\<forall>w. w \<notin> W \<longrightarrow> wm' w = wm w)"

lemma only_next_members:
  assumes "only_next W wm wm'"
  shows "active (wm' v) = active (wm v)" "pending (wm' v) = pending (wm v)" "priority (wm' v) = priority (wm v)"
    "io_fd (wm' v) = io_fd (wm v)" "io_events (wm' v) = io_events (wm v)" "ABSPRI (wm' v) = ABSPRI (wm v)"
proof -
  have e: "wm' v = (wm v)\<lparr>w_next := w_next (wm' v)\<rparr>" using assms by (auto simp: only_next_def)
  show "active (wm' v) = active (wm v)" "pending (wm' v) = pending (wm v)" "priority (wm' v) = priority (wm v)"
    "io_fd (wm' v) = io_fd (wm v)" "io_events (wm' v) = io_events (wm v)" "ABSPRI (wm' v) = ABSPRI (wm v)"
    by (subst e, simp add: ABSPRI_def)+
qed

lemma chain_only_next:
  "only_next W wm wm' \<Longrightarrow> W \<inter> set xs = {} \<Longrightarrow> chain (nexts wm') p xs = chain (nexts wm) p xs"
  by (rule chain_cong) (auto simp: only_next_def)

lemma only_next_write: "only_next {v} wm (wm(v := (wm v)\<lparr>w_next := p\<rparr>))"
  by (simp add: only_next_def)

lemma wlist_add_spec:
  assumes "chain (nexts wm) h xs" "el \<notin> set xs" "wlist_add el (h, wm) = (h', wm')"
  shows "chain (nexts wm') h' (el # xs)" "only_next {el} wm wm'"
proof -
  have e: "h' = Some el" "wm' = wm(el := (wm el)\<lparr>w_next := h\<rparr>)" using assms(3) by (auto simp: wlist_add_def)
  have "chain (nexts wm') h xs"
    unfolding e using assms(1,2) chain_only_next [OF only_next_write, of el xs wm h h] by simp
  then show "chain (nexts wm') h' (el # xs)" using e by simp
  show "only_next {el} wm wm'" unfolding e by (simp add: only_next_def)
qed

lemma wlist_del_from_spec:
  assumes "chain (nexts (snd st)) (wl_read r st) xs" "distinct xs" "\<And>v. r = NextRef v \<Longrightarrow> v \<notin> set xs"
  shows "\<exists>st'. wlist_del_from r el st = Some st' \<and> chain (nexts (snd st')) (wl_read r st') (remove1 el xs)
    \<and> only_next (set xs \<union> {v. r = NextRef v}) (snd st) (snd st') \<and> (r \<noteq> HeadRef \<longrightarrow> fst st' = fst st)"
  using assms
proof (induction xs arbitrary: r)
  case Nil
  then show ?case by (subst wlist_del_from.simps) (simp add: only_next_def)
next
  case (Cons x xs)
  then have rd: "wl_read r st = Some x" and ch: "chain (nexts (snd st)) (w_next (snd st x)) xs" by auto
  show ?case
  proof (cases "x = el")
    case True
    let ?st' = "wl_write r (w_next (snd st el)) st"
    have "wlist_del_from r el st = Some ?st'" using rd True by (subst wlist_del_from.simps) simp
    moreover have "chain (nexts (snd ?st')) (w_next (snd st x)) xs"
    proof (cases r)
      case (NextRef v)
      then have "v \<notin> set xs" using Cons.prems(3) by simp
      then show ?thesis
        using ch chain_only_next [OF only_next_write, of v xs "snd st" "w_next (snd st el)" "w_next (snd st x)"] NextRef
        by simp
    qed (use ch in simp)
    moreover have "wl_read r ?st' = w_next (snd st x)" using True by (cases r) auto
    moreover have "only_next (set (x # xs) \<union> {v. r = NextRef v}) (snd st) (snd ?st')"
      by (cases r) (auto simp: only_next_def)
    moreover have "r \<noteq> HeadRef \<longrightarrow> fst ?st' = fst st" by (cases r) auto
    ultimately show ?thesis using True by auto
  next
    case False
    have eq: "wlist_del_from r el st = wlist_del_from (NextRef x) el st"
      using rd False by (subst wlist_del_from.simps) simp
    have "x \<notin> set xs" "distinct xs" using Cons.prems(2) by auto
    then obtain st' where st': "wlist_del_from (NextRef x) el st = Some st'"
      "chain (nexts (snd st')) (wl_read (NextRef x) st') (remove1 el xs)"
      "only_next (set xs \<union> {x}) (snd st) (snd st')" "fst st' = fst st"
      using Cons.IH [of "NextRef x"] ch by auto
    have "wl_read r st' = Some x"
    proof (cases r)
      case HeadRef
      then show ?thesis using rd st'(4) by simp
    next
      case (NextRef v)
      then have "v \<notin> set (x # xs)" using Cons.prems(3) by blast
      then have "snd st' v = snd st v" using st'(3) by (auto simp: only_next_def)
      then show ?thesis using rd NextRef by simp
    qed
    then show ?thesis using eq st' False by (auto simp: only_next_def)
  qed
qed

lemma wlist_del_spec:
  assumes "chain (nexts wm) h xs" "distinct xs"
  shows "\<exists>h' wm'. wlist_del el (h, wm) = Some (h', wm') \<and> chain (nexts wm') h' (remove1 el xs)
    \<and> only_next (set xs) wm wm'"
  using wlist_del_from_spec [of "(h, wm)" HeadRef xs el] assms by (auto simp: wlist_del_def)

section \<open>The invariant of the descriptors\<close>

text \<open>
  \<open>L fd\<close> is the list of the watchers started on \<open>fd\<close>, the youngest first.  Watchers of a list are
  active and watch that descriptor; \<open>fdchanges\<close> holds the marked descriptors, once each; on an
  unmarked descriptor the recorded mask is the union of what its watchers ask for.
\<close>

definition mask_of :: "(wid \<Rightarrow> watcher) \<Rightarrow> wid list \<Rightarrow> u8_t" where
  "mask_of wm xs = fold (\<lambda>w acc. acc OR ucast (io_events (wm w))) xs 0"

definition fd_lists :: "(nat \<Rightarrow> wid list) \<Rightarrow> 'a ev_fds_scheme \<Rightarrow> bool" where
  "fd_lists L s \<longleftrightarrow>
     (\<forall>fd < length (anfds s). chain (nexts (wt s)) (head (anfds s ! fd)) (L fd) \<and> distinct (L fd))
   \<and> (\<forall>fd. length (anfds s) \<le> fd \<longrightarrow> L fd = [])
   \<and> (\<forall>fd w. w \<in> set (L fd) \<longrightarrow> io_fd (wt s w) = int fd \<and> active (wt s w) = 1 \<and> w \<noteq> pending_w
        \<and> ABSPRI (wt s w) < NUMPRI)"

definition changes_ok :: "'a ev_fds_scheme \<Rightarrow> bool" where
  "changes_ok s \<longleftrightarrow> distinct (fdchanges s)
     \<and> (\<forall>fd. fd \<in> set (fdchanges s) \<longleftrightarrow> fd < length (anfds s) \<and> reify (anfds s ! fd) \<noteq> 0)"

definition synced :: "(nat \<Rightarrow> wid list) \<Rightarrow> 'a ev_fds_scheme \<Rightarrow> bool" where
  "synced L s \<longleftrightarrow> (\<forall>fd < length (anfds s). reify (anfds s ! fd) = 0 \<longrightarrow> af_events (anfds s ! fd) = mask_of (wt s) (L fd))"

definition fd_ok :: "(nat \<Rightarrow> wid list) \<Rightarrow> 'a ev_fds_scheme \<Rightarrow> bool" where
  "fd_ok L s \<longleftrightarrow> fd_lists L s \<and> changes_ok s \<and> synced L s"

lemma mask_of_cong: "(\<And>w. w \<in> set xs \<Longrightarrow> io_events (wm w) = io_events (wm' w)) \<Longrightarrow> mask_of wm xs = mask_of wm' xs"
  unfolding mask_of_def by (rule fold_cong) auto

lemma fd_listsD:
  assumes "fd_lists L s" "w \<in> set (L fd)"
  shows "io_fd (wt s w) = int fd" "active (wt s w) = 1" "w \<noteq> pending_w" "fd < length (anfds s)"
    "ABSPRI (wt s w) < NUMPRI"
  using assms by (auto simp: fd_lists_def) (metis emptyE empty_set not_le)

lemma fd_lists_disjoint: "fd_lists L s \<Longrightarrow> fd \<noteq> fd' \<Longrightarrow> set (L fd) \<inter> set (L fd') = {}"
  by (metis disjoint_iff fd_listsD(1) of_nat_eq_iff)

text \<open>States that agree on what the invariant looks at.\<close>

lemma fd_ok_cong:
  assumes "fd_ok L s" "anfds s' = anfds s" "fdchanges s' = fdchanges s"
    and "\<And>fd w. w \<in> set (L fd) \<Longrightarrow> w_next (wt s' w) = w_next (wt s w) \<and> io_fd (wt s' w) = io_fd (wt s w)
      \<and> active (wt s' w) = active (wt s w) \<and> io_events (wt s' w) = io_events (wt s w) \<and> ABSPRI (wt s' w) = ABSPRI (wt s w)"
  shows "fd_ok L s'"
proof -
  have "chain (nexts (wt s')) p (L fd) = chain (nexts (wt s)) p (L fd)" for p fd
    using assms(4) by (intro chain_cong) auto
  moreover have "mask_of (wt s') (L fd) = mask_of (wt s) (L fd)" for fd
    using assms(4) by (intro mask_of_cong) auto
  ultimately show ?thesis using assms by (auto simp: fd_ok_def fd_lists_def changes_ok_def synced_def)
qed

lemma nth_array_needsize:
  "0 < e \<Longrightarrow> i < length (array_needsize e z cnt xs) \<Longrightarrow>
     array_needsize e z cnt xs ! i = (if i < length xs then xs ! i else z)"
  by (auto simp: array_needsize_def nth_append split: if_splits)

lemma array_needsize_mono: "length xs \<le> length (array_needsize e z cnt xs)"
  by (simp add: array_needsize_def)

lemma anfd_zero_members [simp]: "head anfd_zero = None" "af_events anfd_zero = 0" "reify anfd_zero = 0"
  by (simp_all add: anfd_zero_def)

lemma mask_of_Nil [simp]: "mask_of wm [] = 0"
  by (simp add: mask_of_def)

lemma fd_ok_grow:
  assumes "fd_ok L s"
  shows "fd_ok L (s\<lparr>anfds := array_needsize sizeof_ANFD anfd_zero cnt (anfds s)\<rparr>)"
proof -
  let ?xs = "array_needsize sizeof_ANFD anfd_zero cnt (anfds s)"
  have n: "i < length ?xs \<Longrightarrow> ?xs ! i = (if i < length (anfds s) then anfds s ! i else anfd_zero)" for i
    by (rule nth_array_needsize) (simp add: sizeof_ANFD_def)
  have "L i = []" if "\<not> i < length (anfds s)" for i using assms that by (auto simp: fd_ok_def fd_lists_def)
  moreover have "length (anfds s) \<le> length ?xs" by (rule array_needsize_mono)
  ultimately show ?thesis using assms n
    by (auto simp: fd_ok_def fd_lists_def changes_ok_def synced_def split: if_splits)
qed

lemma anfds_upd_anfd [simp]:
  "length (anfds (upd_anfd fd f s)) = length (anfds s)" "wt (upd_anfd fd f s) = wt s"
  "fdchanges (upd_anfd fd f s) = fdchanges s" "pendings (upd_anfd fd f s) = pendings s"
  "activecnt (upd_anfd fd f s) = activecnt s"
  by (simp_all add: upd_anfd_def)

lemma nth_upd_anfd:
  "i < length (anfds s) \<Longrightarrow> anfds (upd_anfd fd f s) ! i = (if i = fd then f (anfds s ! fd) else anfds s ! i)"
  by (simp add: upd_anfd_def nth_list_update)

lemma fd_change_members [simp]:
  "length (anfds (fd_change fd fl s)) = length (anfds s)" "wt (fd_change fd fl s) = wt s"
  "pendings (fd_change fd fl s) = pendings s" "activecnt (fd_change fd fl s) = activecnt s"
  by (simp_all add: fd_change_def Let_def)

lemma nth_fd_change:
  "i < length (anfds s) \<Longrightarrow> anfds (fd_change fd fl s) ! i =
     (if i = fd then (anfds s ! fd)\<lparr>reify := reify (anfds s ! fd) OR fl\<rparr> else anfds s ! i)"
  by (simp add: fd_change_def Let_def nth_upd_anfd)

lemma changes_ok_cong:
  assumes "fdchanges s' = fdchanges s" "length (anfds s') = length (anfds s)"
    and "\<And>i. i < length (anfds s) \<Longrightarrow> reify (anfds s' ! i) = reify (anfds s ! i)"
  shows "changes_ok s' = changes_ok s"
proof -
  have "(i < length (anfds s) \<and> reify (anfds s' ! i) \<noteq> 0) = (i < length (anfds s) \<and> reify (anfds s ! i) \<noteq> 0)" for i
    using assms(3) [of i] by auto
  then show ?thesis by (simp add: changes_ok_def assms(1,2))
qed

lemma changes_ok_change:
  assumes "changes_ok s" "fd < length (anfds s)" "fl \<noteq> 0"
  shows "changes_ok (fd_change fd fl s)"
proof -
  have "fd \<in> set (fdchanges s) \<longleftrightarrow> reify (anfds s ! fd) \<noteq> 0" using assms by (simp add: changes_ok_def)
  then have "set (fdchanges (fd_change fd fl s)) = insert fd (set (fdchanges s)) \<and> distinct (fdchanges (fd_change fd fl s))"
    using assms(1) by (auto simp: fd_change_def Let_def changes_ok_def)
  then show ?thesis
    using assms by (auto simp: changes_ok_def nth_fd_change or_eq_0_iff split: if_splits)
qed

text \<open>A change of the list of one descriptor, marked.\<close>

lemma fd_ok_relist:
  assumes "fd_ok L s" "fd < length (anfds s)" "fl \<noteq> 0"
    and "chain (nexts wm) h xs" "distinct xs"
    and "\<And>w. w \<in> set xs \<Longrightarrow> io_fd (wm w) = int fd \<and> active (wm w) = 1 \<and> w \<noteq> pending_w \<and> ABSPRI (wm w) < NUMPRI"
    and "\<And>fd' w. fd' \<noteq> fd \<Longrightarrow> w \<in> set (L fd') \<Longrightarrow> wm w = wt s w"
  shows "fd_ok (L(fd := xs)) (fd_change fd fl (upd_anfd fd (\<lambda>a. a\<lparr>head := h\<rparr>) (s\<lparr>wt := wm\<rparr>)))"
    (is "fd_ok ?L ?s")
proof -
  have at: "anfds ?s ! i = (if i = fd then (anfds s ! fd)\<lparr>head := h, reify := reify (anfds s ! fd) OR fl\<rparr> else anfds s ! i)"
    if "i < length (anfds s)" for i
    using that by (simp add: nth_fd_change nth_upd_anfd)
  have same: "chain (nexts wm) p (L fd') = chain (nexts (wt s)) p (L fd')" "mask_of wm (L fd') = mask_of (wt s) (L fd')"
    if "fd' \<noteq> fd" for p fd'
    using assms(7) [OF that] by (auto intro!: chain_cong mask_of_cong)
  have old: "fd_lists L s" "synced L s" using assms(1) by (simp_all add: fd_ok_def)
  have "fd_lists ?L ?s" unfolding fd_lists_def
  proof (intro conjI allI impI)
    fix i assume "i < length (anfds ?s)"
    then have i: "i < length (anfds s)" by simp
    show "chain (nexts (wt ?s)) (head (anfds ?s ! i)) (?L i)"
      using assms(4) at [OF i] same(1) [of i] old(1) i by (simp add: fd_lists_def)
    show "distinct (?L i)" using assms(5) old(1) i by (simp add: fd_lists_def)
  next
    fix i assume "length (anfds ?s) \<le> i"
    then show "?L i = []" using assms(2) old(1) by (simp add: fd_lists_def)
  next
    fix i w assume w: "w \<in> set (?L i)"
    have "io_fd (wm w) = int i \<and> active (wm w) = 1 \<and> w \<noteq> pending_w \<and> ABSPRI (wm w) < NUMPRI"
    proof (cases "i = fd")
      case True
      then show ?thesis using assms(6) w by simp
    next
      case False
      then have w': "w \<in> set (L i)" using w by simp
      show ?thesis using fd_listsD [OF old(1) w'] assms(7) [OF False w'] by simp
    qed
    then show "io_fd (wt ?s w) = int i" "active (wt ?s w) = 1" "w \<noteq> pending_w" "ABSPRI (wt ?s w) < NUMPRI" by simp_all
  qed
  moreover have "synced ?L ?s" unfolding synced_def
  proof (intro allI impI)
    fix i assume i: "i < length (anfds ?s)" "reify (anfds ?s ! i) = 0"
    then have i': "i < length (anfds s)" by simp
    have "i \<noteq> fd" using i(2) at [OF i'] assms(3) by (auto simp: or_eq_0_iff)
    then show "af_events (anfds ?s ! i) = mask_of (wt ?s) (?L i)"
      using i(2) at [OF i'] same(2) [of i] old(2) i' by (simp add: synced_def)
  qed
  moreover have "changes_ok s" using assms(1) by (simp add: fd_ok_def)
  then have "changes_ok (upd_anfd fd (\<lambda>a. a\<lparr>head := h\<rparr>) (s\<lparr>wt := wm\<rparr>))"
    by (subst changes_ok_cong [of _ s]) (simp_all add: nth_upd_anfd)
  then have "changes_ok ?s" using assms(2,3) by (intro changes_ok_change) simp_all
  ultimately show ?thesis by (simp add: fd_ok_def)
qed

lemma ev_start_wt:
  "wt (ev_start w k s) = (wt s)(w := (wt s w)\<lparr>priority := (if priority (wt s w) < EV_MINPRI then EV_MINPRI
      else if priority (wt s w) > EV_MAXPRI then EV_MAXPRI else priority (wt s w)), active := k\<rparr>)"
  by (auto simp: ev_start_def ev_ref_def pri_adjust_def Let_def ev_set_priority_def EV_MINPRI_def EV_MAXPRI_def)

lemma ev_start_fields [simp]:
  "activecnt (ev_start w k s) = activecnt s + 1" "pendings (ev_start w k s) = pendings s"
  "anfds (ev_start w k s) = anfds (s :: 'a ev_fds_scheme)" "fdchanges (ev_start w k s) = fdchanges s"
  by (simp_all add: ev_start_def ev_ref_def pri_adjust_def Let_def)

lemma ev_stop_fields [simp]:
  "activecnt (ev_stop w s) = activecnt s - 1" "pendings (ev_stop w s) = pendings s"
  "wt (ev_stop w s) = (wt s)(w := (wt s w)\<lparr>active := 0\<rparr>)"
  "anfds (ev_stop w s) = anfds (s :: 'a ev_fds_scheme)" "fdchanges (ev_stop w s) = fdchanges s"
  by (simp_all add: ev_stop_def ev_unref_def)

lemma clear_pending_fds [simp]:
  "anfds (clear_pending w s) = anfds (s :: 'a ev_fds_scheme)" "fdchanges (clear_pending w s) = fdchanges s"
  by (simp_all add: clear_pending_def Let_def)

lemma ABSPRI_start: "ABSPRI (wt (ev_start w k s) w) < NUMPRI"
  by (auto simp: ev_start_wt ABSPRI_def EV_MINPRI_def EV_MAXPRI_def)

lemma wt_update_change [simp]:
  "(fd_change fd fl s)\<lparr>wt := m\<rparr> = fd_change fd fl (s\<lparr>wt := m\<rparr>)"
  "(upd_anfd fd g s)\<lparr>wt := m\<rparr> = upd_anfd fd g (s\<lparr>wt := m\<rparr>)"
  by (simp_all add: fd_change_def upd_anfd_def Let_def)

definition legal_io :: "watcher \<Rightarrow> bool" where
  "legal_io x \<longleftrightarrow> io_fd x \<ge> 0 \<and> io_events x AND NOT (EV__IOFDSET OR EV_READ OR EV_WRITE) = 0"

lemma io_start_spec:
  assumes ok: "fd_ok L s" and w: "active (wt s w) = 0" "w \<noteq> pending_w" "legal_io (wt s w)"
  shows "\<exists>s'. ev_io_start w s = Some s' \<and> fd_ok (L(nat (io_fd (wt s w)) := w # L (nat (io_fd (wt s w))))) s'
    \<and> nat (io_fd (wt s w)) \<in> set (fdchanges s') \<and> activecnt s' = activecnt s + 1
    \<and> active (wt s' w) = 1 \<and> pendings s' = pendings s
    \<and> (\<forall>v. pending (wt s' v) = pending (wt s v) \<and> io_fd (wt s' v) = io_fd (wt s v))
    \<and> (\<forall>v. v \<noteq> w \<longrightarrow> wt s' v = wt s v)"
proof -
  let ?fd = "nat (io_fd (wt s w))"
  let ?s1 = "ev_start w 1 s"
  let ?s2 = "?s1\<lparr>anfds := array_needsize sizeof_ANFD anfd_zero (?fd + 1) (anfds ?s1)\<rparr>"
  let ?fl = "ucast (io_events (wt s w) AND EV__IOFDSET) OR EV_ANFD_REIFY :: u8_t"
  have fresh: "w \<notin> set (L i)" for i using ok w(1) fd_listsD(2) [of L s w i] by (auto simp: fd_ok_def)
  have "fd_ok L ?s1"
    by (rule fd_ok_cong [OF ok]) (use fresh in \<open>auto simp: ev_start_wt ABSPRI_def\<close>)
  then have ok2: "fd_ok L ?s2" by (rule fd_ok_grow)
  have len: "?fd < length (anfds ?s2)"
    using length_array_needsize [of sizeof_ANFD "?fd + 1" anfd_zero "anfds ?s1"] by (simp add: sizeof_ANFD_def)
  obtain h wm where a: "wlist_add w (head (anfds ?s2 ! ?fd), wt ?s2) = (h, wm)" by fastforce
  have ch: "chain (nexts (wt ?s2)) (head (anfds ?s2 ! ?fd)) (L ?fd)"
    using ok2 len by (simp add: fd_ok_def fd_lists_def)
  note add = wlist_add_spec [OF ch fresh a]
  have mem: "wm v = wt s v" if "v \<noteq> w" for v using add(2) that by (auto simp: only_next_def ev_start_wt)
  have wmw: "active (wm w) = 1" "io_fd (wm w) = io_fd (wt s w)" "io_events (wm w) = io_events (wt s w)"
    "pending (wm w) = pending (wt s w)" "ABSPRI (wm w) < NUMPRI"
    using only_next_members [OF add(2), of w] ABSPRI_start [of w 1 s] by (simp_all add: ev_start_wt)
  have "w_next (wm w) = head (anfds ?s2 ! ?fd)" using a by (auto simp: wlist_add_def)
  moreover have "head (anfds ?s2 ! ?fd) \<noteq> Some w" using ch fresh [of ?fd] by (cases "L ?fd") auto
  ultimately have nself: "w_next (wm w) \<noteq> Some w" by simp
  let ?f = "\<lambda>x. x\<lparr>io_events := io_events x AND NOT EV__IOFDSET\<rparr>"
  let ?wm = "wm(w := ?f (wm w))"
  let ?s' = "fd_change ?fd ?fl (upd_anfd ?fd (\<lambda>a. a\<lparr>head := h\<rparr>) (?s2\<lparr>wt := ?wm\<rparr>))"
  have "chain (nexts ?wm) h (w # L ?fd)" using add(1) chain_cong [of "w # L ?fd" "nexts ?wm" "nexts wm" h] by auto
  moreover have "distinct (w # L ?fd)" using ok2 len fresh by (simp add: fd_ok_def fd_lists_def)
  moreover have "io_fd (?wm v) = int ?fd \<and> active (?wm v) = 1 \<and> v \<noteq> pending_w \<and> ABSPRI (?wm v) < NUMPRI"
    if "v \<in> set (w # L ?fd)" for v
  proof (cases "v = w")
    case True
    then show ?thesis using wmw w(2,3) by (simp add: legal_io_def ABSPRI_def)
  next
    case False
    then have "v \<in> set (L ?fd)" using that by simp
    then show ?thesis using fd_listsD [of L s v ?fd] ok False mem [OF False] by (simp add: fd_ok_def)
  qed
  moreover have "?wm v = wt ?s2 v" if "i \<noteq> ?fd" "v \<in> set (L i)" for i v
    using fresh [of i] that mem [of v] by (auto simp: ev_start_wt)
  moreover have "?fl \<noteq> 0" by (simp add: or_eq_0_iff EV_ANFD_REIFY_def)
  ultimately have ok': "fd_ok (L(?fd := w # L ?fd)) ?s'"
    using fd_ok_relist [OF ok2 len, of ?fl ?wm h "w # L ?fd"] by blast
  have r: "ev_io_start w s = Some ?s'"
    using w a nself wmw(3)
    by (simp add: ev_io_start_def Let_def legal_io_def)
  have "reify (anfds ?s' ! ?fd) \<noteq> 0" using len by (simp add: nth_fd_change or_eq_0_iff EV_ANFD_REIFY_def)
  then have "?fd \<in> set (fdchanges ?s')" using ok' len by (simp add: fd_ok_def changes_ok_def)
  then show ?thesis using r ok' wmw mem by auto
qed

lemma io_stop_spec:
  assumes ok: "fd_ok L s" and w: "w \<in> set (L fd)"
  shows "\<exists>s'. ev_io_stop w s = Some s' \<and> fd_ok (L(fd := remove1 w (L fd))) s'
    \<and> fd \<in> set (fdchanges s') \<and> activecnt s' = activecnt s - 1 \<and> active (wt s' w) = 0
    \<and> pendings s' = pendings (clear_pending w s) \<and> length (anfds s') = length (anfds s)
    \<and> (\<forall>v. pending (wt s' v) = pending (wt (clear_pending w s) v) \<and> priority (wt s' v) = priority (wt s v)
        \<and> io_fd (wt s' v) = io_fd (wt s v) \<and> io_events (wt s' v) = io_events (wt s v)
        \<and> (v \<noteq> w \<longrightarrow> active (wt s' v) = active (wt s v)))"
proof -
  let ?s1 = "clear_pending w s"
  have l: "fd_lists L s" using ok by (simp add: fd_ok_def)
  note m = fd_listsD [OF l w]
  have ok1: "fd_ok L ?s1" by (rule fd_ok_cong [OF ok]) simp_all
  have ch: "chain (nexts (wt ?s1)) (head (anfds ?s1 ! fd)) (L fd)" and dist: "distinct (L fd)"
    using ok1 m(4) by (simp_all add: fd_ok_def fd_lists_def)
  obtain h wm where d: "wlist_del w (head (anfds ?s1 ! fd), wt ?s1) = Some (h, wm)"
    and ch': "chain (nexts wm) h (remove1 w (L fd))" and on: "only_next (set (L fd)) (wt ?s1) wm"
    using wlist_del_spec [OF ch dist, of w] by blast
  let ?wm = "wm(w := (wm w)\<lparr>active := 0\<rparr>)"
  let ?s2 = "upd_anfd fd (\<lambda>a. a\<lparr>head := h\<rparr>) (?s1\<lparr>wt := wm\<rparr>)"
  let ?s' = "fd_change fd EV_ANFD_REIFY (ev_stop w ?s2)"
  have wnot: "w \<notin> set (remove1 w (L fd))" using dist by simp
  have eq: "?s' = (fd_change fd EV_ANFD_REIFY (upd_anfd fd (\<lambda>a. a\<lparr>head := h\<rparr>) (?s1\<lparr>activecnt := activecnt s - 1, wt := ?wm\<rparr>)))"
    by (simp add: fd_change_def upd_anfd_def Let_def ev_stop_def ev_unref_def)
  have ok1': "fd_ok L (?s1\<lparr>activecnt := activecnt s - 1\<rparr>)" by (rule fd_ok_cong [OF ok1]) simp_all
  have "chain (nexts ?wm) h (remove1 w (L fd))"
    using ch' chain_cong [of "remove1 w (L fd)" "nexts ?wm" "nexts wm" h] by auto
  moreover have "io_fd (?wm v) = int fd \<and> active (?wm v) = 1 \<and> v \<noteq> pending_w \<and> ABSPRI (?wm v) < NUMPRI"
    if "v \<in> set (remove1 w (L fd))" for v
  proof -
    have "v \<in> set (L fd)" "v \<noteq> w" using that wnot set_remove1_subset [of w "L fd"] by auto
    then show ?thesis using fd_listsD [OF l, of v fd] only_next_members [OF on, of v] by simp
  qed
  moreover have "?wm v = wt ?s1 v" if "i \<noteq> fd" "v \<in> set (L i)" for i v
  proof -
    have "v \<notin> set (L fd)" using fd_lists_disjoint [OF l that(1)] that(2) by blast
    then show ?thesis using on w by (auto simp: only_next_def)
  qed
  ultimately have "fd_ok (L(fd := remove1 w (L fd))) ?s'"
    using fd_ok_relist [OF ok1', of fd EV_ANFD_REIFY ?wm h "remove1 w (L fd)"] m(4) dist
    unfolding eq by (simp add: EV_ANFD_REIFY_def)
  moreover have r: "ev_io_stop w s = Some ?s'"
    using m d by (simp add: ev_io_stop_def Let_def)
  moreover have "reify (anfds ?s' ! fd) \<noteq> 0" using m(4) by (simp add: nth_fd_change or_eq_0_iff EV_ANFD_REIFY_def)
  ultimately show ?thesis
    using only_next_members [OF on] m(4) by (auto simp: fd_ok_def changes_ok_def)
qed

section \<open>Walking a list\<close>

lemma feed_members [simp]:
  "active (wt (ev_feed_event w ev s) v) = active (wt s v)" "priority (wt (ev_feed_event w ev s) v) = priority (wt s v)"
  "w_next (wt (ev_feed_event w ev s) v) = w_next (wt s v)" "io_fd (wt (ev_feed_event w ev s) v) = io_fd (wt s v)"
  "io_events (wt (ev_feed_event w ev s) v) = io_events (wt s v)" "activecnt (ev_feed_event w ev s) = activecnt s"
  "ABSPRI (wt (ev_feed_event w ev s) v) = ABSPRI (wt s v)"
  by (auto simp: ev_feed_event_def Let_def ABSPRI_def)

lemma feed_fds [simp]:
  "anfds (ev_feed_event w ev s) = anfds (s :: 'a ev_fds_scheme)" "fdchanges (ev_feed_event w ev s) = fdchanges s"
  by (simp_all add: ev_feed_event_def Let_def)

lemma fd_ok_feed: "fd_ok L s \<Longrightarrow> fd_ok L (ev_feed_event w ev s)"
  by (erule fd_ok_cong) simp_all

lemma fd_event_loop_spec:
  assumes "chain (nexts (wt s)) p xs" "distinct xs" "pend_ok s"
    and "\<And>w. w \<in> set xs \<Longrightarrow> w \<noteq> pending_w \<and> ABSPRI (wt s w) < NUMPRI" "fd_ok L s"
  shows "\<exists>s'. fd_event_loop p revents s = Some s' \<and> pend_ok s' \<and> fd_ok L s' \<and> activecnt s' = activecnt s
    \<and> pending_events s' = (\<lambda>w. if w \<in> set xs then pending_events s w OR (io_events (wt s w) AND revents) else pending_events s w)"
  using assms
proof (induction xs arbitrary: p s)
  case Nil
  then show ?case by (subst fd_event_loop.simps) auto
next
  case (Cons w xs)
  let ?ev = "io_events (wt s w) AND revents"
  let ?s1 = "if ?ev \<noteq> 0 then ev_feed_event w ?ev s else s"
  have w: "w \<noteq> pending_w" "ABSPRI (wt s w) < NUMPRI" using Cons.prems(4) by auto
  have eq: "fd_event_loop p revents s = fd_event_loop (w_next (wt ?s1 w)) revents ?s1"
    using Cons.prems(1) by (subst fd_event_loop.simps) (simp add: Let_def)
  have ch: "chain (nexts (wt ?s1)) (w_next (wt ?s1 w)) xs"
    using Cons.prems(1) chain_cong [of xs "nexts (wt ?s1)" "nexts (wt s)"] by auto
  have ok: "pend_ok ?s1" "fd_ok L ?s1" using Cons.prems(3,5) feed_pend_ok [OF _ w] fd_ok_feed by auto
  have side: "\<And>v. v \<in> set xs \<Longrightarrow> v \<noteq> pending_w \<and> ABSPRI (wt ?s1 v) < NUMPRI" using Cons.prems(4) by simp
  have pe: "pending_events ?s1 = (pending_events s)(w := pending_events s w OR ?ev)"
    using feed_events [OF Cons.prems(3) w] by auto
  obtain s' where s': "fd_event_loop (w_next (wt ?s1 w)) revents ?s1 = Some s'" "pend_ok s'" "fd_ok L s'"
    "activecnt s' = activecnt ?s1"
    "pending_events s' = (\<lambda>v. if v \<in> set xs then pending_events ?s1 v OR (io_events (wt ?s1 v) AND revents) else pending_events ?s1 v)"
    using Cons.IH [OF ch _ ok(1) side ok(2)] Cons.prems(2) by auto
  have io: "io_events (wt ?s1 v) = io_events (wt s v)" for v by simp
  have "pending_events s' = (\<lambda>v. if v \<in> set (w # xs) then pending_events s v OR (io_events (wt s v) AND revents) else pending_events s v)"
    unfolding s'(5) pe io using Cons.prems(2) by (auto simp: fun_eq_iff)
  then show ?case using eq s'(1-4) by auto
qed

lemma or_events_spec:
  "chain (nexts wm) p xs \<Longrightarrow> or_events p wm acc = Some (fold (\<lambda>w acc. acc OR ucast (io_events (wm w))) xs acc)"
  by (induction xs arbitrary: p acc) (subst or_events.simps, simp)+

section \<open>Reification\<close>

text \<open>A backend that records what it is told.\<close>

record ev_traced = ev_fds +
  calls :: "(nat \<times> u8_t \<times> u8_t) list"

definition recording :: "ev_traced backend_modify" where
  "recording fd old new s = Some (s\<lparr>calls := calls s @ [(fd, old, new)]\<rparr>)"

definition reified :: "(nat \<Rightarrow> wid list) \<Rightarrow> 'a ev_fds_scheme \<Rightarrow> nat \<Rightarrow> ANFD" where
  "reified L s fd = (anfds s ! fd)\<lparr>reify := 0, af_events := mask_of (wt s) (L fd)\<rparr>"

definition reify_calls :: "(nat \<Rightarrow> wid list) \<Rightarrow> 'a ev_fds_scheme \<Rightarrow> nat list \<Rightarrow> (nat \<times> u8_t \<times> u8_t) list" where
  "reify_calls L s fds = concat (map (\<lambda>fd.
     if af_events (anfds s ! fd) \<noteq> mask_of (wt s) (L fd) \<or> reify (anfds s ! fd) AND 0x80 \<noteq> 0
     then [(fd, af_events (anfds s ! fd), mask_of (wt s) (L fd))] else []) fds)"

lemma fd_reify_one_spec:
  assumes "fd_lists L s" "fd < length (anfds s)"
  shows "fd_reify_one recording fd s = Some ((upd_anfd fd (\<lambda>_. reified L s fd) s)\<lparr>calls := calls s @ reify_calls L s [fd]\<rparr>)"
proof -
  have "or_events (head (anfds s ! fd)) (wt s) 0 = Some (mask_of (wt s) (L fd))"
    unfolding mask_of_def using assms by (intro or_events_spec) (simp add: fd_lists_def)
  then show ?thesis
    by (auto simp: fd_reify_one_def Let_def recording_def reified_def reify_calls_def upd_anfd_def EV__IOFDSET_def)
qed

lemma fd_reify_loop_spec:
  assumes "fd_lists L s" "distinct fds" "drop i (fdchanges s) = fds" "\<And>fd. fd \<in> set fds \<Longrightarrow> fd < length (anfds s)"
  shows "\<exists>s'. fd_reify_loop recording i s = Some s' \<and> wt s' = wt s \<and> length (anfds s') = length (anfds s)
    \<and> (\<forall>fd < length (anfds s). anfds s' ! fd = (if fd \<in> set fds then reified L s fd else anfds s ! fd))
    \<and> calls s' = calls s @ reify_calls L s fds \<and> pendings s' = pendings s \<and> activecnt s' = activecnt s"
  using assms
proof (induction fds arbitrary: i s)
  case Nil
  then have "\<not> i < length (fdchanges s)" by auto
  then show ?case by (subst fd_reify_loop.simps) (simp add: reify_calls_def)
next
  case (Cons fd fds)
  have i1: "i < length (fdchanges s)" using Cons.prems(3) by (cases "i < length (fdchanges s)") auto
  then have i: "i < length (fdchanges s)" "fdchanges s ! i = fd" "drop (Suc i) (fdchanges s) = fds"
    using Cons_nth_drop_Suc [OF i1] Cons.prems(3) by auto
  have fd: "fd < length (anfds s)" "fd \<notin> set fds" using Cons.prems(2,4) by auto
  let ?s1 = "(upd_anfd fd (\<lambda>_. reified L s fd) s)\<lparr>calls := calls s @ reify_calls L s [fd]\<rparr>"
  have eq: "fd_reify_loop recording i s = fd_reify_loop recording (Suc i) ?s1"
    using i fd_reify_one_spec [OF Cons.prems(1) fd(1)] by (subst fd_reify_loop.simps) simp
  have at: "anfds ?s1 ! k = (if k = fd then reified L s fd else anfds s ! k)" if "k < length (anfds s)" for k
    using that by (simp add: nth_upd_anfd)
  have fl: "fd_lists L ?s1" using Cons.prems(1) at by (auto simp: fd_lists_def reified_def)
  have rest: "\<And>k. k \<in> set fds \<Longrightarrow> reified L ?s1 k = reified L s k" "reify_calls L ?s1 fds = reify_calls L s fds"
  proof -
    fix k assume "k \<in> set fds"
    then show "reified L ?s1 k = reified L s k" using at [of k] fd Cons.prems(4) by (auto simp: reified_def)
  next
    have "anfds ?s1 ! k = anfds s ! k" if "k \<in> set fds" for k using at [of k] fd Cons.prems(4) that by auto
    then show "reify_calls L ?s1 fds = reify_calls L s fds"
      unfolding reify_calls_def by (intro arg_cong [of _ _ concat] map_cong) simp_all
  qed
  have "drop (Suc i) (fdchanges ?s1) = fds" using i by simp
  from Cons.IH [OF fl _ this] obtain s' where s': "fd_reify_loop recording (Suc i) ?s1 = Some s'" "wt s' = wt ?s1"
    "length (anfds s') = length (anfds ?s1)" "calls s' = calls ?s1 @ reify_calls L ?s1 fds"
    "\<forall>k < length (anfds ?s1). anfds s' ! k = (if k \<in> set fds then reified L ?s1 k else anfds ?s1 ! k)"
    "pendings s' = pendings ?s1" "activecnt s' = activecnt ?s1"
    using Cons.prems(2,4) by auto
  have "calls s' = calls s @ reify_calls L s (fd # fds)"
    using s'(4) rest(2) by (simp add: reify_calls_def)
  moreover have "anfds s' ! k = (if k \<in> set (fd # fds) then reified L s k else anfds s ! k)" if "k < length (anfds s)" for k
    using s'(5) at [OF that] that rest(1) [of k] fd(2) by auto
  ultimately show ?case using eq s' by auto
qed

section \<open>Killing a descriptor\<close>


definition kill_mask :: evmask where
  "kill_mask = EV_ERROR OR EV_READ OR EV_WRITE"

lemma fd_kill_spec:
  assumes "fd_ok L s" "pend_ok s" "fd < length (anfds s)" "L fd = xs"
  shows "\<exists>s'. fd_kill fd s = Some s' \<and> fd_ok (L(fd := [])) s' \<and> pend_ok s' \<and> length (anfds s') = length (anfds s)
    \<and> activecnt s' = activecnt s - int (length xs)
    \<and> pending_events s' = (\<lambda>w. if w \<in> set xs then kill_mask else pending_events s w)
    \<and> (\<forall>w \<in> set xs. active (wt s' w) = 0)
    \<and> (\<forall>w. w \<notin> set xs \<longrightarrow> active (wt s' w) = active (wt s w))"
  using assms
proof (induction xs arbitrary: s L)
  case Nil
  then have "head (anfds s ! fd) = None" by (auto simp: fd_ok_def fd_lists_def)
  moreover have "L(fd := []) = L" using Nil by auto
  ultimately show ?case using Nil by (subst fd_kill.simps) auto
next
  case (Cons w xs)
  have l: "fd_lists L s" and hd: "head (anfds s ! fd) = Some w" and dist: "distinct (w # xs)"
    using Cons.prems by (auto simp: fd_ok_def fd_lists_def)
  have win: "w \<in> set (L fd)" using Cons.prems(4) by simp
  note m = fd_listsD [OF l win]
  obtain s1 where s1: "ev_io_stop w s = Some s1" "fd_ok (L(fd := xs)) s1" "activecnt s1 = activecnt s - 1"
    "active (wt s1 w) = 0" "pendings s1 = pendings (clear_pending w s)" "length (anfds s1) = length (anfds s)"
    "\<And>v. pending (wt s1 v) = pending (wt (clear_pending w s) v)" "\<And>v. priority (wt s1 v) = priority (wt s v)"
    and others: "\<And>v. v \<noteq> w \<Longrightarrow> active (wt s1 v) = active (wt s v)"
    using io_stop_spec [OF Cons.prems(1) win] Cons.prems(4) by auto
  have pk: "pend_ok s1" "pending_events s1 = (pending_events s)(w := 0)"
    using pend_ok_cong [of s1 "clear_pending w s"] s1(5,7,8) clear_pend_ok [OF Cons.prems(2), of w]
      clear_events [OF Cons.prems(2), of w] by simp_all
  have pri: "ABSPRI (wt s1 w) < NUMPRI" using s1(8) [of w] m(5) by (simp add: ABSPRI_def)
  let ?s2 = "ev_feed_event w kill_mask s1"
  have ok2: "fd_ok (L(fd := xs)) ?s2" "pend_ok ?s2" using fd_ok_feed [OF s1(2)] feed_pend_ok [OF pk(1) m(3) pri] by auto
  have pe2: "pending_events ?s2 = (pending_events s)(w := kill_mask)"
    using feed_events [OF pk(1) m(3) pri, of kill_mask] by (auto simp: pk(2))
  have eq: "fd_kill fd s = fd_kill fd ?s2"
    using hd s1(1) by (subst fd_kill.simps) (simp add: kill_mask_def)
  have "L(fd := xs, fd := []) = L(fd := [])" by simp
  with Cons.IH [OF ok2] Cons.prems(3) s1(6)
  have "\<exists>s'. fd_kill fd ?s2 = Some s' \<and> fd_ok (L(fd := [])) s' \<and> pend_ok s'
      \<and> length (anfds s') = length (anfds ?s2) \<and> activecnt s' = activecnt ?s2 - int (length xs)
      \<and> pending_events s' = (\<lambda>v. if v \<in> set xs then kill_mask else pending_events ?s2 v)
      \<and> (\<forall>v \<in> set xs. active (wt s' v) = 0) \<and> (\<forall>v. v \<notin> set xs \<longrightarrow> active (wt s' v) = active (wt ?s2 v))"
    by (simp del: fun_upd_apply fun_upd_upd add: fun_upd_same)
  then obtain s' where s': "fd_kill fd ?s2 = Some s'" "fd_ok (L(fd := [])) s'" "pend_ok s'"
    "length (anfds s') = length (anfds ?s2)" "activecnt s' = activecnt ?s2 - int (length xs)"
    "pending_events s' = (\<lambda>v. if v \<in> set xs then kill_mask else pending_events ?s2 v)"
    "\<forall>v \<in> set xs. active (wt s' v) = 0" "\<forall>v. v \<notin> set xs \<longrightarrow> active (wt s' v) = active (wt ?s2 v)"
    by blast
  have "pending_events s' = (\<lambda>v. if v \<in> set (w # xs) then kill_mask else pending_events s v)"
    unfolding s'(6) pe2 by (auto simp: fun_eq_iff)
  moreover have "fd_kill fd s = Some s'" using eq s'(1) by simp
  moreover have "length (anfds s') = length (anfds s)" using s'(4) s1(6) by simp
  moreover have "activecnt s' = activecnt s - int (length (w # xs))" using s'(5) s1(3) by simp
  moreover have "\<forall>v \<in> set (w # xs). active (wt s' v) = 0" using s'(7,8) s1(4) dist by auto
  moreover have "\<forall>v. v \<notin> set (w # xs) \<longrightarrow> active (wt s' v) = active (wt s v)" using s'(8) others by auto
  ultimately show ?case using s'(2,3) by blast
qed

section \<open>Properties\<close>

text \<open>Concrete loops for the witnesses: three watchers on descriptors 0, 1 and 1.\<close>

definition io_store :: "wid \<Rightarrow> watcher" where
  "io_store w = ev_io_init 0 (if w = 1 then 0 else 1) (if w = 2 then EV_WRITE else EV_READ) (idle_watcher 0)"

definition fds_empty :: ev_traced where
  "fds_empty = \<lparr>wt = io_store, activecnt = 0, pendings = (\<lambda>_. []), pendingpri = 0, rfeeds = [],
     anfds = [], fdchanges = [], calls = []\<rparr>"

lemma fds_empty_ok: "fd_ok (\<lambda>_. []) fds_empty" "pend_ok fds_empty"
  by (simp_all add: fds_empty_def fd_ok_def fd_lists_def changes_ok_def synced_def pend_ok_def io_store_def)

lemma io_store_legal: "active (io_store w) = 0" "legal_io (io_store w)" "io_fd (io_store w) = (if w = 1 then 0 else 1)"
  by (simp_all add: io_store_def legal_io_def EV_READ_def EV_WRITE_def EV__IOFDSET_def)

lemma two_started:
  "\<exists>s :: ev_traced. fd_ok ((\<lambda>_. [])(1 := [3, 2])) s \<and> pend_ok s \<and> 1 < length (anfds s) \<and> 1 \<in> set (fdchanges s)
     \<and> activecnt s = 2"
proof -
  have two: "wt fds_empty = io_store" by (simp add: fds_empty_def)
  obtain s1 where s1: "ev_io_start 2 fds_empty = Some s1" "fd_ok ((\<lambda>_. [])(1 := [2])) s1" "activecnt s1 = 1"
    "pendings s1 = pendings fds_empty" "\<And>v. pending (wt s1 v) = pending (io_store v)" "\<And>v. v \<noteq> 2 \<Longrightarrow> wt s1 v = io_store v"
    using io_start_spec [OF fds_empty_ok(1), of 2]
    by (auto simp: two io_store_legal pending_w_def fds_empty_def [THEN arg_cong [of _ _ activecnt]])
  have w3: "wt s1 3 = io_store 3" using s1(6) by simp
  obtain s2 where s2: "ev_io_start 3 s1 = Some s2" "fd_ok ((\<lambda>_. [])(1 := [3, 2])) s2" "1 \<in> set (fdchanges s2)"
    "activecnt s2 = 2" "pendings s2 = pendings s1" "\<And>v. pending (wt s2 v) = pending (wt s1 v)"
    using io_start_spec [OF s1(2), of 3] by (auto simp: w3 io_store_legal pending_w_def s1(3))
  have "pend_ok s2" using s2(5,6) s1(4,5) by (simp add: pend_ok_def fds_empty_def io_store_def)
  moreover have "1 < length (anfds s2)" using s2(2,3) by (auto simp: fd_ok_def changes_ok_def)
  ultimately show ?thesis using s2 by blast
qed

text \<open>
  C29. \<open>ev_io_start\<close> on an inactive watcher with a legal descriptor and mask never fails an assertion:
  the watcher becomes the first of its descriptor's list, all other lists, the queues and the other
  watchers stay as they were, the descriptor is marked for the backend and one reference is counted.
\<close>

theorem io_start_links_watcher:
  assumes "fd_ok L s" "active (wt s w) = 0" "w \<noteq> pending_w" "legal_io (wt s w)"
  shows "\<exists>s'. ev_io_start w s = Some s' \<and> fd_ok (L(nat (io_fd (wt s w)) := w # L (nat (io_fd (wt s w))))) s'
    \<and> nat (io_fd (wt s w)) \<in> set (fdchanges s') \<and> activecnt s' = activecnt s + 1
    \<and> active (wt s' w) = 1 \<and> pendings s' = pendings s \<and> (\<forall>v. v \<noteq> w \<longrightarrow> wt s' v = wt s v)"
  using io_start_spec [OF assms] by blast

lemma io_start_links_watcher_witness:
  "\<exists>s'. ev_io_start 1 fds_empty = Some s' \<and> fd_ok ((\<lambda>_. [])(0 := [1])) s' \<and> 0 \<in> set (fdchanges s')"
  using io_start_links_watcher [OF fds_empty_ok(1), of 1] io_store_legal [of 1]
  by (auto simp: fds_empty_def pending_w_def)

text \<open>
  C30. \<open>ev_io_stop\<close> of a started watcher takes it, and only it, off its list, drops its pending event and
  its reference, and marks the descriptor.
\<close>

theorem io_stop_unlinks_watcher:
  assumes "fd_ok L s" "pend_ok s" "w \<in> set (L fd)"
  shows "\<exists>s'. ev_io_stop w s = Some s' \<and> fd_ok (L(fd := remove1 w (L fd))) s' \<and> pend_ok s'
    \<and> fd \<in> set (fdchanges s') \<and> activecnt s' = activecnt s - 1 \<and> active (wt s' w) = 0
    \<and> pending_events s' = (pending_events s)(w := 0)"
proof -
  obtain s' where s': "ev_io_stop w s = Some s'" "fd_ok (L(fd := remove1 w (L fd))) s'" "fd \<in> set (fdchanges s')"
    "activecnt s' = activecnt s - 1" "active (wt s' w) = 0" "pendings s' = pendings (clear_pending w s)"
    "\<And>v. pending (wt s' v) = pending (wt (clear_pending w s) v)" "\<And>v. priority (wt s' v) = priority (wt s v)"
    using io_stop_spec [OF assms(1,3)] by blast
  then show ?thesis
    using pend_ok_cong [of s' "clear_pending w s"] clear_pend_ok [OF assms(2), of w] clear_events [OF assms(2), of w]
    by simp
qed

lemma io_stop_unlinks_watcher_witness:
  "\<exists>s s' :: ev_traced. ev_io_stop 2 s = Some s' \<and> fd_ok ((\<lambda>_. [])(1 := [3])) s' \<and> activecnt s' = 1"
proof -
  obtain s :: ev_traced where s: "fd_ok ((\<lambda>_. [])(1 := [3, 2])) s" "pend_ok s" "activecnt s = 2"
    using two_started by blast
  from io_stop_unlinks_watcher [OF s(1,2), of 2 1] show ?thesis by (auto simp: s(3))
qed

text \<open>
  C9. \<open>fd_reify\<close> brings the kernel's view up to date: afterwards no descriptor is marked, every recorded
  mask is the union of what the watchers of the descriptor ask for, and the backend has been told,
  in the order of the changes, exactly the descriptors whose mask changed or which were set anew,
  with the old and the new mask.
\<close>

theorem fd_reify_syncs_backend:
  assumes "fd_ok L s"
  shows "\<exists>s'. fd_reify recording s = Some s' \<and> fd_ok L s' \<and> fdchanges s' = []
    \<and> (\<forall>fd < length (anfds s). af_events (anfds s' ! fd) = mask_of (wt s) (L fd))
    \<and> calls s' = calls s @ reify_calls L s (fdchanges s)"
proof -
  have l: "fd_lists L s" "distinct (fdchanges s)" "\<And>fd. fd \<in> set (fdchanges s) \<Longrightarrow> fd < length (anfds s)"
    using assms by (auto simp: fd_ok_def changes_ok_def)
  obtain s' where s': "fd_reify_loop recording 0 s = Some s'" "wt s' = wt s" "length (anfds s') = length (anfds s)"
    "\<forall>fd < length (anfds s). anfds s' ! fd = (if fd \<in> set (fdchanges s) then reified L s fd else anfds s ! fd)"
    "calls s' = calls s @ reify_calls L s (fdchanges s)"
    using fd_reify_loop_spec [OF l(1,2), of 0] l(3) by auto
  have r: "reify (anfds s' ! fd) = 0 \<and> af_events (anfds s' ! fd) = mask_of (wt s) (L fd) \<and> head (anfds s' ! fd) = head (anfds s ! fd)"
    if "fd < length (anfds s)" for fd
    using s'(4) that assms by (cases "fd \<in> set (fdchanges s)") (auto simp: reified_def fd_ok_def changes_ok_def synced_def)
  have "fd_ok L (s'\<lparr>fdchanges := []\<rparr>)"
    using assms r s'(2,3) by (auto simp: fd_ok_def fd_lists_def changes_ok_def synced_def)
  then show ?thesis using s' r by (auto simp: fd_reify_def)
qed

lemma fd_reify_syncs_backend_witness:
  "\<exists>s s' :: ev_traced. fdchanges s \<noteq> [] \<and> fd_reify recording s = Some s' \<and> fdchanges s' = []"
proof -
  obtain s :: ev_traced where s: "fd_ok ((\<lambda>_. [])(1 := [3, 2])) s" "1 \<in> set (fdchanges s)" using two_started by blast
  obtain s' where "fd_reify recording s = Some s'" "fdchanges s' = []"
    using fd_reify_syncs_backend [OF s(1)] by blast
  moreover have "fdchanges s \<noteq> []" using s(2) by auto
  ultimately show ?thesis by blast
qed

text \<open>
  \<open>ev_feed_fd_event\<close> queues, for every watcher of the descriptor and for no other, the events that
  occurred among those it asks for; descriptors the loop does not know are ignored; \<open>fd_event\<close> drops
  events of a descriptor that has changes the kernel has not seen.
\<close>

theorem feed_fd_event_spec:
  assumes "fd_ok L s" "pend_ok s"
  shows "\<exists>s'. ev_feed_fd_event fd revents s = Some s' \<and> fd_ok L s' \<and> pend_ok s'
    \<and> pending_events s' = (\<lambda>w. if fd \<ge> 0 \<and> w \<in> set (L (nat fd))
         then pending_events s w OR (io_events (wt s w) AND revents) else pending_events s w)"
proof (cases "fd \<ge> 0 \<and> fd < int (length (anfds s))")
  case True
  then have "nat fd < length (anfds s)" by auto
  then have ch: "chain (nexts (wt s)) (head (anfds s ! nat fd)) (L (nat fd))" "distinct (L (nat fd))"
    using assms(1) by (auto simp: fd_ok_def fd_lists_def)
  have "w \<noteq> pending_w \<and> ABSPRI (wt s w) < NUMPRI" if "w \<in> set (L (nat fd))" for w
    using fd_listsD [of L s w "nat fd"] that assms(1) by (simp add: fd_ok_def)
  from fd_event_loop_spec [OF ch assms(2) this assms(1), of revents] show ?thesis
    using True by (auto simp: ev_feed_fd_event_def fd_event_nocheck_def)
next
  case False
  have "L (nat fd) = []" if "fd \<ge> 0"
    using False that assms(1) by (auto simp: fd_ok_def fd_lists_def)
  then show ?thesis using False assms by (auto simp: ev_feed_fd_event_def)
qed

lemma feed_fd_event_spec_witness:
  "\<exists>s s' :: ev_traced. ev_feed_fd_event 1 (EV_READ OR EV_WRITE) s = Some s' \<and> pend_ok s'
     \<and> pending_events s' 3 = pending_events s 3 OR (io_events (wt s 3) AND (EV_READ OR EV_WRITE))"
proof -
  obtain s :: ev_traced where s: "fd_ok ((\<lambda>_. [])(1 := [3, 2])) s" "pend_ok s" using two_started by blast
  from feed_fd_event_spec [OF s, of 1 "EV_READ OR EV_WRITE"]
  obtain s' where "ev_feed_fd_event 1 (EV_READ OR EV_WRITE) s = Some s'" "pend_ok s'"
    "pending_events s' 3 = pending_events s 3 OR (io_events (wt s 3) AND (EV_READ OR EV_WRITE))" by auto
  then show ?thesis by blast
qed

text \<open>
  C31. \<open>fd_kill\<close> ends and leaves no watcher on a descriptor the kernel refuses: each is stopped and will
  be told \<open>EV_ERROR | EV_READ | EV_WRITE\<close>; everything else stays as it was.
\<close>

theorem fd_kill_reports_error:
  assumes "fd_ok L s" "pend_ok s" "fd < length (anfds s)"
  shows "\<exists>s'. fd_kill fd s = Some s' \<and> fd_ok (L(fd := [])) s' \<and> pend_ok s'
    \<and> activecnt s' = activecnt s - int (length (L fd))
    \<and> pending_events s' = (\<lambda>w. if w \<in> set (L fd) then EV_ERROR OR EV_READ OR EV_WRITE else pending_events s w)
    \<and> (\<forall>w. active (wt s' w) = (if w \<in> set (L fd) then 0 else active (wt s w)))"
  using fd_kill_spec [OF assms refl, unfolded kill_mask_def] by auto

lemma fd_kill_reports_error_witness:
  "\<exists>s s' :: ev_traced. fd_kill 1 s = Some s' \<and> activecnt s' = 0 \<and> pending_events s' 2 = EV_ERROR OR EV_READ OR EV_WRITE"
proof -
  obtain s :: ev_traced where s: "fd_ok ((\<lambda>_. [])(1 := [3, 2])) s" "pend_ok s" "1 < length (anfds s)" "activecnt s = 2"
    using two_started by blast
  from fd_kill_reports_error [OF s(1-3)] obtain s' where "fd_kill 1 s = Some s'" "activecnt s' = 0"
    "pending_events s' 2 = EV_ERROR OR EV_READ OR EV_WRITE" by (auto simp: s(4))
  then show ?thesis by blast
qed

end
