(* ===== verification/EvTimer.thy ===== *)
theory EvTimer
  imports EvFd EvHeap
begin

text \<open>
  \<open>libev-4.15/ev.c\<close>: time.  Relative timers (against the monotonic clock \<open>mn_now\<close>) and periodics
  (against the wall clock \<open>ev_rt_now\<close>) live in two heaps; \<open>timers_reify\<close> and \<open>periodics_reify\<close> queue
  what has expired and reschedule or stop it, \<open>time_update\<close> reads the clocks.  The readings of the
  clocks are parameters (one list per clock, in the order of the calls).  The arrays of the heaps are
  maps from indices; their growth (\<open>array_needsize\<close>) is covered in \<open>EvPending\<close>.  \<open>EV_FREQUENT_CHECK\<close>
  is empty in the default configuration.
\<close>

section \<open>Translation: timers\<close>

definition MIN_INTERVAL :: ev_tstamp where "MIN_INTERVAL = 1 / 8192"
definition MIN_TIMEJUMP :: ev_tstamp where "MIN_TIMEJUMP = 1"
definition MAX_BLOCKTIME :: ev_tstamp where "MAX_BLOCKTIME = 59743 / 1000"

record ev_times = ev_fds +
  ev_rt_now :: ev_tstamp
  now_floor :: ev_tstamp
  mn_now :: ev_tstamp
  rtmn_diff :: ev_tstamp
  have_monotonic :: bool
  timers :: heap
  timercnt :: nat
  periodics :: heap
  periodiccnt :: nat

definition on_timers ::
    "(heap \<times> (wid \<Rightarrow> watcher) \<Rightarrow> heap \<times> (wid \<Rightarrow> watcher)) \<Rightarrow> 'a ev_times_scheme \<Rightarrow> 'a ev_times_scheme" where
  "on_timers f s = s\<lparr>timers := fst (f (timers s, wt s)), wt := snd (f (timers s, wt s))\<rparr>"

definition on_periodics ::
    "(heap \<times> (wid \<Rightarrow> watcher) \<Rightarrow> heap \<times> (wid \<Rightarrow> watcher)) \<Rightarrow> 'a ev_times_scheme \<Rightarrow> 'a ev_times_scheme" where
  "on_periodics f s = s\<lparr>periodics := fst (f (periodics s, wt s)), wt := snd (f (periodics s, wt s))\<rparr>"

definition ev_timer_start :: "wid \<Rightarrow> 'a ev_times_scheme \<Rightarrow> 'a ev_times_scheme option" where
  "ev_timer_start w s =
     (if active (wt s w) \<noteq> 0 then Some s
      else
        let s1 = upd_w w (\<lambda>x. x\<lparr>w_at := w_at x + mn_now s\<rparr>) s in
        if \<not> w_repeat (wt s1 w) \<ge> 0 then None
        else
          let s2 = s1\<lparr>timercnt := timercnt s1 + 1\<rparr>;
              s3 = ev_start w (int (timercnt s2 + HEAP0 - 1)) s2;
              k = nat (active (wt s3 w));
              s4 = s3\<lparr>timers := (timers s3)(k := \<lparr>ANHE_at = w_at (wt s3 w), ANHE_w = w\<rparr>)\<rparr>
          in Some (on_timers (upheap k) s4))"

definition ev_timer_stop :: "wid \<Rightarrow> 'a ev_times_scheme \<Rightarrow> 'a ev_times_scheme option" where
  "ev_timer_stop w s =
     (let s1 = clear_pending w s in
      if active (wt s1 w) = 0 then Some s1
      else
        let k = nat (active (wt s1 w)) in
        if ANHE_w (timers s1 k) \<noteq> w then None
        else
          let s2 = s1\<lparr>timercnt := timercnt s1 - 1\<rparr>;
              s3 = (if k < timercnt s2 + HEAP0
                    then on_timers (adjustheap (timercnt s2) k)
                      (s2\<lparr>timers := (timers s2)(k := timers s2 (timercnt s2 + HEAP0))\<rparr>)
                    else s2);
              s4 = upd_w w (\<lambda>x. x\<lparr>w_at := w_at x - mn_now s3\<rparr>) s3
          in Some (ev_stop w s4))"

definition ev_timer_again :: "wid \<Rightarrow> 'a ev_times_scheme \<Rightarrow> 'a ev_times_scheme option" where
  "ev_timer_again w s =
     (let s1 = clear_pending w s in
      if active (wt s1 w) \<noteq> 0 then
        (if w_repeat (wt s1 w) \<noteq> 0 then
           let s2 = upd_w w (\<lambda>x. x\<lparr>w_at := mn_now s1 + w_repeat x\<rparr>) s1;
               k = nat (active (wt s2 w));
               s3 = s2\<lparr>timers := (timers s2)(k := (timers s2 k)\<lparr>ANHE_at := w_at (wt s2 (ANHE_w (timers s2 k)))\<rparr>)\<rparr>
           in Some (on_timers (adjustheap (timercnt s3) k) s3)
         else ev_timer_stop w s1)
      else if w_repeat (wt s1 w) \<noteq> 0 then
        ev_timer_start w (upd_w w (\<lambda>x. x\<lparr>w_at := w_repeat x\<rparr>) s1)
      else Some s1)"

definition ev_timer_remaining :: "wid \<Rightarrow> 'a ev_times_scheme \<Rightarrow> ev_tstamp" where
  "ev_timer_remaining w s = w_at (wt s w) - (if active (wt s w) \<noteq> 0 then mn_now s else 0)"

text \<open>One round of the loop of \<open>timers_reify\<close>: the timer at the root is rescheduled or stopped and
  remembered for feeding.\<close>

definition timer_expire :: "'a ev_times_scheme \<Rightarrow> 'a ev_times_scheme option" where
  "timer_expire s =
     (let w = ANHE_w (timers s HEAP0) in
      map_option (feed_reverse w)
       (if w_repeat (wt s w) \<noteq> 0 then
          let s1 = upd_w w (\<lambda>x. x\<lparr>w_at := w_at x + w_repeat x\<rparr>) s;
              s2 = (if w_at (wt s1 w) < mn_now s1 then upd_w w (\<lambda>x. x\<lparr>w_at := mn_now s1\<rparr>) s1 else s1)
          in if \<not> w_repeat (wt s2 w) > 0 then None
             else
               let s3 = s2\<lparr>timers := (timers s2)(HEAP0 :=
                 (timers s2 HEAP0)\<lparr>ANHE_at := w_at (wt s2 (ANHE_w (timers s2 HEAP0)))\<rparr>)\<rparr>
               in Some (on_timers (downheap (timercnt s3) HEAP0) s3)
        else ev_timer_stop w s))"

definition timer_due :: "'a ev_times_scheme \<Rightarrow> bool" where
  "timer_due s \<longleftrightarrow> timercnt s \<noteq> 0 \<and> ANHE_at (timers s HEAP0) < mn_now s"

partial_function (option) timers_reify_loop :: "'a ev_times_scheme \<Rightarrow> 'a ev_times_scheme option" where
  "timers_reify_loop s =
     (case timer_expire s of
        None \<Rightarrow> None
      | Some s' \<Rightarrow> if timer_due s' then timers_reify_loop s' else Some s')"

definition timers_reify :: "'a ev_times_scheme \<Rightarrow> 'a ev_times_scheme option" where
  "timers_reify s =
     (if timer_due s then map_option (feed_reverse_done EV_TIMER) (timers_reify_loop s) else Some s)"

definition timers_reschedule :: "ev_tstamp \<Rightarrow> 'a ev_times_scheme \<Rightarrow> 'a ev_times_scheme" where
  "timers_reschedule adjust s =
     fold (\<lambda>i s.
       let k = i + HEAP0; w = ANHE_w (timers s k);
           s1 = upd_w w (\<lambda>x. x\<lparr>w_at := w_at x + adjust\<rparr>) s
       in s1\<lparr>timers := (timers s1)(k := (timers s1 k)\<lparr>ANHE_at := w_at (wt s1 w)\<rparr>)\<rparr>) [0..<timercnt s] s"

section \<open>Translation: periodics\<close>

definition ev_floor :: "ev_tstamp \<Rightarrow> ev_tstamp" where
  "ev_floor v = of_int \<lfloor>v\<rfloor>"

partial_function (option) recalc_loop :: "ev_tstamp \<Rightarrow> ev_tstamp \<Rightarrow> ev_tstamp \<Rightarrow> ev_tstamp option" where
  "recalc_loop rt interval tm =
     (if tm \<le> rt then
        (let nxt = tm + interval in if nxt = tm then Some rt else recalc_loop rt interval nxt)
      else Some tm)"

definition periodic_recalc :: "wid \<Rightarrow> 'a ev_times_scheme \<Rightarrow> 'a ev_times_scheme option" where
  "periodic_recalc w s =
     (let x = wt s w;
          interval = (if w_interval x > MIN_INTERVAL then w_interval x else MIN_INTERVAL);
          tm = w_offset x + interval * ev_floor ((ev_rt_now s - w_offset x) / interval)
      in map_option (\<lambda>tm. upd_w w (\<lambda>x. x\<lparr>w_at := tm\<rparr>) s) (recalc_loop (ev_rt_now s) (w_interval x) tm))"

definition ev_periodic_start :: "wid \<Rightarrow> 'a ev_times_scheme \<Rightarrow> 'a ev_times_scheme option" where
  "ev_periodic_start w s =
     (if active (wt s w) \<noteq> 0 then Some s
      else
        (case (case reschedule_cb (wt s w) of
                 Some f \<Rightarrow> Some (upd_w w (\<lambda>x. x\<lparr>w_at := f (ev_rt_now s)\<rparr>) s)
               | None \<Rightarrow>
                   if w_interval (wt s w) \<noteq> 0 then
                     (if \<not> w_interval (wt s w) \<ge> 0 then None else periodic_recalc w s)
                   else Some (upd_w w (\<lambda>x. x\<lparr>w_at := w_offset x\<rparr>) s)) of
           None \<Rightarrow> None
         | Some s1 \<Rightarrow>
             let s2 = s1\<lparr>periodiccnt := periodiccnt s1 + 1\<rparr>;
                 s3 = ev_start w (int (periodiccnt s2 + HEAP0 - 1)) s2;
                 k = nat (active (wt s3 w));
                 s4 = s3\<lparr>periodics := (periodics s3)(k := \<lparr>ANHE_at = w_at (wt s3 w), ANHE_w = w\<rparr>)\<rparr>
             in Some (on_periodics (upheap k) s4)))"

definition ev_periodic_stop :: "wid \<Rightarrow> 'a ev_times_scheme \<Rightarrow> 'a ev_times_scheme option" where
  "ev_periodic_stop w s =
     (let s1 = clear_pending w s in
      if active (wt s1 w) = 0 then Some s1
      else
        let k = nat (active (wt s1 w)) in
        if ANHE_w (periodics s1 k) \<noteq> w then None
        else
          let s2 = s1\<lparr>periodiccnt := periodiccnt s1 - 1\<rparr>;
              s3 = (if k < periodiccnt s2 + HEAP0
                    then on_periodics (adjustheap (periodiccnt s2) k)
                      (s2\<lparr>periodics := (periodics s2)(k := periodics s2 (periodiccnt s2 + HEAP0))\<rparr>)
                    else s2)
          in Some (ev_stop w s3))"

definition ev_periodic_again :: "wid \<Rightarrow> 'a ev_times_scheme \<Rightarrow> 'a ev_times_scheme option" where
  "ev_periodic_again w s = (case ev_periodic_stop w s of None \<Rightarrow> None | Some s' \<Rightarrow> ev_periodic_start w s')"

definition periodic_expire :: "'a ev_times_scheme \<Rightarrow> 'a ev_times_scheme option" where
  "periodic_expire s =
     (let w = ANHE_w (periodics s HEAP0);
          sink = (\<lambda>s1. on_periodics (downheap (periodiccnt s1) HEAP0)
            (s1\<lparr>periodics := (periodics s1)(HEAP0 :=
               (periodics s1 HEAP0)\<lparr>ANHE_at := w_at (wt s1 (ANHE_w (periodics s1 HEAP0)))\<rparr>)\<rparr>))
      in map_option (feed_reverse w)
        (case reschedule_cb (wt s w) of
           Some f \<Rightarrow>
             let s1 = upd_w w (\<lambda>x. x\<lparr>w_at := f (ev_rt_now s)\<rparr>) s in
             if \<not> w_at (wt s1 w) \<ge> ev_rt_now s1 then None else Some (sink s1)
         | None \<Rightarrow>
             if w_interval (wt s w) \<noteq> 0 then map_option sink (periodic_recalc w s)
             else ev_periodic_stop w s))"

definition periodic_due :: "'a ev_times_scheme \<Rightarrow> bool" where
  "periodic_due s \<longleftrightarrow> periodiccnt s \<noteq> 0 \<and> ANHE_at (periodics s HEAP0) < ev_rt_now s"

partial_function (option) periodics_expire_loop :: "'a ev_times_scheme \<Rightarrow> 'a ev_times_scheme option" where
  "periodics_expire_loop s =
     (case periodic_expire s of
        None \<Rightarrow> None
      | Some s' \<Rightarrow> if periodic_due s' then periodics_expire_loop s' else Some s')"

text \<open>Two nested loops; the outer one tests again after the events have been fed.\<close>

partial_function (option) periodics_reify :: "'a ev_times_scheme \<Rightarrow> 'a ev_times_scheme option" where
  "periodics_reify s =
     (if periodic_due s
      then (case periodics_expire_loop s of
              None \<Rightarrow> None
            | Some s' \<Rightarrow> periodics_reify (feed_reverse_done EV_PERIODIC s'))
      else Some s)"

fun reschedule_each :: "nat list \<Rightarrow> 'a ev_times_scheme \<Rightarrow> 'a ev_times_scheme option" where
  "reschedule_each [] s = Some s"
| "reschedule_each (k # ks) s =
     (let w = ANHE_w (periodics s k) in
      case (case reschedule_cb (wt s w) of
              Some f \<Rightarrow> Some (upd_w w (\<lambda>x. x\<lparr>w_at := f (ev_rt_now s)\<rparr>) s)
            | None \<Rightarrow> if w_interval (wt s w) \<noteq> 0 then periodic_recalc w s else Some s) of
        None \<Rightarrow> None
      | Some s1 \<Rightarrow>
          reschedule_each ks (s1\<lparr>periodics := (periodics s1)(k := (periodics s1 k)\<lparr>ANHE_at := w_at (wt s1 w)\<rparr>)\<rparr>))"

definition periodics_reschedule :: "'a ev_times_scheme \<Rightarrow> 'a ev_times_scheme option" where
  "periodics_reschedule s =
     map_option (\<lambda>s1. on_periodics (reheap (periodiccnt s1)) s1) (reschedule_each [HEAP0..<periodiccnt s + HEAP0] s)"

section \<open>Translation: the clocks\<close>

text \<open>
  \<open>clock i\<close> and \<open>wall i\<close> are the readings of \<open>get_clock\<close> and \<open>ev_time\<close>, numbered by the calls.  The
  loop runs three times: \<open>for (i = 4; --i; )\<close>.
\<close>

fun jump_loop :: "nat \<Rightarrow> (nat \<Rightarrow> ev_tstamp) \<Rightarrow> (nat \<Rightarrow> ev_tstamp) \<Rightarrow> nat \<Rightarrow> ev_tstamp \<Rightarrow> 'a ev_times_scheme \<Rightarrow> bool \<times> 'a ev_times_scheme" where
  "jump_loop 0 clock wall k odiff s = (False, s)"
| "jump_loop (Suc n) clock wall k odiff s =
     (let s1 = s\<lparr>rtmn_diff := ev_rt_now s - mn_now s\<rparr>;
          diff = odiff - rtmn_diff s1
      in if (if diff < 0 then - diff else diff) < MIN_TIMEJUMP then (True, s1)
         else jump_loop n clock wall (Suc k) odiff
           (s1\<lparr>ev_rt_now := wall k, mn_now := clock k, now_floor := clock k\<rparr>))"

definition time_update ::
    "(nat \<Rightarrow> ev_tstamp) \<Rightarrow> (nat \<Rightarrow> ev_tstamp) \<Rightarrow> ev_tstamp \<Rightarrow> 'a ev_times_scheme \<Rightarrow> 'a ev_times_scheme option" where
  "time_update clock wall max_block s =
     (if have_monotonic s then
        let odiff = rtmn_diff s; s1 = s\<lparr>mn_now := clock 0\<rparr> in
        if mn_now s1 - now_floor s1 < MIN_TIMEJUMP * (1 / 2)
        then Some (s1\<lparr>ev_rt_now := rtmn_diff s1 + mn_now s1\<rparr>)
        else
          let s2 = s1\<lparr>now_floor := mn_now s1, ev_rt_now := wall 0\<rparr> in
          (case jump_loop 3 clock wall 1 odiff s2 of
             (True, s3) \<Rightarrow> Some s3
           | (False, s3) \<Rightarrow> periodics_reschedule s3)
      else
        let s1 = s\<lparr>ev_rt_now := wall 0\<rparr> in
        map_option (\<lambda>s2. s2\<lparr>mn_now := ev_rt_now s2\<rparr>)
          (if mn_now s1 > ev_rt_now s1 \<or> ev_rt_now s1 > mn_now s1 + max_block + MIN_TIMEJUMP
           then periodics_reschedule (timers_reschedule (ev_rt_now s1 - mn_now s1) s1)
           else Some s1))"

definition ev_now :: "'a ev_times_scheme \<Rightarrow> ev_tstamp" where "ev_now s = ev_rt_now s"

text \<open>\<open>1e100\<close> is beyond any interval.\<close>

definition ev_now_update :: "(nat \<Rightarrow> ev_tstamp) \<Rightarrow> (nat \<Rightarrow> ev_tstamp) \<Rightarrow> 'a ev_times_scheme \<Rightarrow> 'a ev_times_scheme option" where
  "ev_now_update clock wall s = time_update clock wall (10 ^ 100) s"

definition ev_suspend :: "(nat \<Rightarrow> ev_tstamp) \<Rightarrow> (nat \<Rightarrow> ev_tstamp) \<Rightarrow> 'a ev_times_scheme \<Rightarrow> 'a ev_times_scheme option" where
  "ev_suspend clock wall s = ev_now_update clock wall s"

definition ev_resume :: "(nat \<Rightarrow> ev_tstamp) \<Rightarrow> (nat \<Rightarrow> ev_tstamp) \<Rightarrow> 'a ev_times_scheme \<Rightarrow> 'a ev_times_scheme option" where
  "ev_resume clock wall s =
     (let mn_prev = mn_now s in
      case ev_now_update clock wall s of
        None \<Rightarrow> None
      | Some s1 \<Rightarrow> periodics_reschedule (timers_reschedule (mn_now s1 - mn_prev) s1))"

section \<open>A heap of timed watchers\<close>

text \<open>
  \<open>theap N h wm\<close>: the first \<open>N\<close> elements of \<open>h\<close> form a heap of distinct watchers that know their
  index, and the cached times are those of the watchers.
\<close>

definition cached :: "nat \<Rightarrow> heap \<Rightarrow> (wid \<Rightarrow> watcher) \<Rightarrow> bool" where
  "cached N h wm \<longleftrightarrow> (\<forall>he \<in> set (elems HEAP0 N h). ANHE_at he = w_at (wm (ANHE_w he)))"

definition theap :: "nat \<Rightarrow> heap \<Rightarrow> (wid \<Rightarrow> watcher) \<Rightarrow> bool" where
  "theap N h wm \<longleftrightarrow> heap_ok N (h, wm) \<and> cached N h wm"

definition members :: "nat \<Rightarrow> heap \<Rightarrow> wid set" where
  "members N h = ANHE_w ` set (elems HEAP0 N h)"

lemma members_iff: "w \<in> members N h \<longleftrightarrow> (\<exists>k. HEAP0 \<le> k \<and> k < HEAP0 + N \<and> ANHE_w (h k) = w)"
  by (auto simp: members_def elems_def)

lemma theapD:
  assumes "theap N h wm"
  shows "h4.ordered N h" "indexed_but HEAP0 N {} h wm" "cached N h wm"
  using assms by (simp_all add: theap_def heap_ok_iff)

lemma theapI: "h4.ordered N h \<Longrightarrow> indexed_but HEAP0 N {} h wm \<Longrightarrow> cached N h wm \<Longrightarrow> theap N h wm"
  by (simp add: theap_def heap_ok_iff)

lemma theap_index:
  assumes "theap N h wm" "HEAP0 \<le> k" "k < HEAP0 + N"
  shows "active (wm (ANHE_w (h k))) = int k" "ANHE_at (h k) = w_at (wm (ANHE_w (h k)))"
  using theapD [OF assms(1)] assms(2,3) by (auto simp: indexed_but_def cached_def elems_def)

lemma theap_inj:
  "theap N h wm \<Longrightarrow> HEAP0 \<le> i \<Longrightarrow> i < HEAP0 + N \<Longrightarrow> HEAP0 \<le> j \<Longrightarrow> j < HEAP0 + N \<Longrightarrow> ANHE_w (h i) = ANHE_w (h j) \<Longrightarrow> i = j"
  using theap_index(1) by (metis of_nat_eq_iff)

lemma theap_cong:
  assumes "theap N h wm" "\<And>w. w \<in> members N h \<Longrightarrow> active (wm' w) = active (wm w) \<and> w_at (wm' w) = w_at (wm w)"
  shows "theap N h wm'"
proof -
  have m: "ANHE_w (h j) \<in> members N h" if "HEAP0 \<le> j" "j < HEAP0 + N" for j using that by (auto simp: members_iff)
  show ?thesis using assms(1) assms(2) m
    by (auto simp: theap_def heap_ok_def cached_def members_def)
qed

lemma cached_mset: "mset (elems HEAP0 N h) = mset (elems HEAP0 N' h') \<Longrightarrow> cached N h wm = cached N' h' wm"
  unfolding cached_def by (metis set_mset_mset)

lemma members_mset: "mset (elems HEAP0 N h) = mset (elems HEAP0 N' h') \<Longrightarrow> members N h = members N' h'"
  unfolding members_def by (metis set_mset_mset)

lemma only_active_members:
  assumes "only_active W wm wm'"
  shows "w_at (wm' w) = w_at (wm w)" "pending (wm' w) = pending (wm w)" "priority (wm' w) = priority (wm w)"
    "w_repeat (wm' w) = w_repeat (wm w)" "ABSPRI (wm' w) = ABSPRI (wm w)" "w_next (wm' w) = w_next (wm w)"
    "io_fd (wm' w) = io_fd (wm w)" "io_events (wm' w) = io_events (wm w)" "w \<notin> W \<Longrightarrow> wm' w = wm w"
proof -
  have e: "wm' w = (wm w)\<lparr>active := active (wm' w)\<rparr>" using assms by (auto simp: only_active_def)
  show "w_at (wm' w) = w_at (wm w)" "pending (wm' w) = pending (wm w)" "priority (wm' w) = priority (wm w)"
    "w_repeat (wm' w) = w_repeat (wm w)" "ABSPRI (wm' w) = ABSPRI (wm w)" "w_next (wm' w) = w_next (wm w)"
    "io_fd (wm' w) = io_fd (wm w)" "io_events (wm' w) = io_events (wm w)"
    by (subst e, simp add: ABSPRI_def)+
  show "w \<notin> W \<Longrightarrow> wm' w = wm w" using assms by (simp add: only_active_def)
qed

lemma theap_of_result:
  assumes "h4.heap_result N H wm h' wm'" "cached N H wm"
  shows "theap N h' wm'" "mset (elems HEAP0 N h') = mset (elems HEAP0 N H)" "only_active (members N H) wm wm'"
proof -
  show m: "mset (elems HEAP0 N h') = mset (elems HEAP0 N H)" and oa: "only_active (members N H) wm wm'"
    using assms(1) by (auto simp: h4.heap_result_def members_def)
  have "cached N h' wm" using assms(2) cached_mset [OF m] by simp
  then have "cached N h' wm'" using only_active_members(1) [OF oa] by (simp add: cached_def)
  then show "theap N h' wm'" using assms(1) by (simp add: theap_def heap_ok_iff h4.heap_result_def)
qed

lemma theap_push:
  assumes "theap N h wm" "w \<notin> members N h" "at1 = w_at (wm w)"
    "upheap (HEAP0 + N) (h(HEAP0 + N := \<lparr>ANHE_at = at1, ANHE_w = w\<rparr>), wm) = (h', wm')"
  shows "theap (Suc N) h' wm'" "mset (elems HEAP0 (Suc N) h') = add_mset \<lparr>ANHE_at = at1, ANHE_w = w\<rparr> (mset (elems HEAP0 N h))"
    "only_active (insert w (members N h)) wm wm'"
proof -
  let ?he = "\<lparr>ANHE_at = at1, ANHE_w = w\<rparr>" let ?H = "h(HEAP0 + N := ?he)"
  have el: "elems HEAP0 (Suc N) ?H = elems HEAP0 N h @ [?he]" by (simp add: elems_def)
  have res: "h4.heap_result (Suc N) ?H wm h' wm'"
    using upheap_push_result [of N h wm ?he h' wm'] assms theapD [OF assms(1)] by (simp add: members_def)
  have "cached (Suc N) ?H wm" using theapD(3) [OF assms(1)] assms(3) unfolding cached_def el by simp
  from theap_of_result [OF res this] show "theap (Suc N) h' wm'"
    "mset (elems HEAP0 (Suc N) h') = add_mset ?he (mset (elems HEAP0 N h))"
    "only_active (insert w (members N h)) wm wm'"
    unfolding el members_def by auto
qed

lemma elems_Suc: "elems HEAP0 (Suc N) h = elems HEAP0 N h @ [h (HEAP0 + N)]"
  by (simp add: elems_def)

lemma elems_update:
  "HEAP0 \<le> k \<Longrightarrow> k < HEAP0 + N \<Longrightarrow> add_mset (h k) (mset (elems HEAP0 N (h(k := x)))) = add_mset x (mset (elems HEAP0 N h))"
proof -
  assume k: "HEAP0 \<le> k" "k < HEAP0 + N"
  have "elems HEAP0 N (h(k := x)) = (elems HEAP0 N h)[k - HEAP0 := x]"
    unfolding elems_def using k by (rule map_upt_update)
  moreover have e: "elems HEAP0 N h ! (k - HEAP0) = h k" and l: "k - HEAP0 < length (elems HEAP0 N h)"
    using k by (simp_all add: elems_def)
  ultimately have m: "mset (elems HEAP0 N (h(k := x))) = add_mset x (mset (elems HEAP0 N h) - {#h k#})"
    by (simp add: mset_update)
  have "h k \<in># mset (elems HEAP0 N h)" using nth_mem [OF l] e by simp
  then have "add_mset (h k) (mset (elems HEAP0 N h) - {#h k#}) = mset (elems HEAP0 N h)" by (rule insert_DiffM)
  then show ?thesis unfolding m by (metis add_mset_commute)
qed

lemma theap_remove:
  assumes "theap (Suc N) h wm" "HEAP0 \<le> k" "k < HEAP0 + Suc N"
    and "(h', wm') = (if k < N + HEAP0 then adjustheap N k (h(k := h (N + HEAP0)), wm) else (h, wm))"
  shows "theap N h' wm'" "add_mset (h k) (mset (elems HEAP0 N h')) = mset (elems HEAP0 (Suc N) h)"
    "only_active (members N h') wm wm'" "ANHE_w (h k) \<notin> members N h'"
proof -
  note d = theapD [OF assms(1)]
  have o: "h4.ordered N h" using d(1) by (simp add: h4.ordered_def)
  have i: "indexed_but HEAP0 N {} h wm" using d(2) by (auto simp: indexed_but_def elems_Suc)
  have c: "cached N h wm" using d(3) by (simp add: cached_def elems_Suc)
  have "theap N h' wm' \<and> add_mset (h k) (mset (elems HEAP0 N h')) = mset (elems HEAP0 (Suc N) h)
    \<and> only_active (members N h') wm wm'"
  proof (cases "k < N + HEAP0")
    case False
    then have k: "k = HEAP0 + N" using assms(3) by simp
    then show ?thesis using False assms(4) o i c by (simp add: theapI elems_Suc)
  next
    case True
    let ?x = "h (HEAP0 + N)" let ?H = "h(k := ?x)"
    have kN: "k < HEAP0 + N" using True by simp
    have inj: "\<And>i j. HEAP0 \<le> i \<Longrightarrow> i < HEAP0 + Suc N \<Longrightarrow> HEAP0 \<le> j \<Longrightarrow> j < HEAP0 + Suc N \<Longrightarrow> ANHE_w (h i) = ANHE_w (h j) \<Longrightarrow> i = j"
      by (rule theap_inj [OF assms(1)])
    have iH: "indexed_but HEAP0 N {k} ?H wm"
      unfolding indexed_but_def distinct_elems_iff
    proof (intro conjI allI impI)
      fix a b
      assume "HEAP0 \<le> a \<and> a < HEAP0 + N \<and> HEAP0 \<le> b \<and> b < HEAP0 + N \<and> ANHE_w (?H a) = ANHE_w (?H b)"
      then show "a = b" using inj [of a b] inj [of a "HEAP0 + N"] inj [of b "HEAP0 + N"] by (auto split: if_splits)
    next
      fix j assume "HEAP0 \<le> j \<and> j < HEAP0 + N \<and> j \<notin> {k}"
      then show "active (wm (ANHE_w (?H j))) = int j" using i by (simp add: indexed_but_def)
    qed
    have m: "add_mset (h k) (mset (elems HEAP0 N ?H)) = mset (elems HEAP0 (Suc N) h)"
      using elems_update [OF assms(2) kN, of h ?x] by (simp add: elems_Suc)
    then have "set (elems HEAP0 N ?H) \<subseteq> set (elems HEAP0 (Suc N) h)"
      by (metis set_mset_add_mset_insert set_mset_mset subset_insertI)
    then have "cached N ?H wm" using d(3) by (auto simp: cached_def)
    moreover have "adjustheap N k (?H, wm) = (h', wm')" using assms(4) True by (simp add: add.commute)
    then have "h4.heap_result N ?H wm h' wm'" by (rule adjustheap_result [OF o assms(2) kN iH])
    ultimately show ?thesis using theap_of_result m members_mset by metis
  qed
  then show r: "theap N h' wm'" "add_mset (h k) (mset (elems HEAP0 N h')) = mset (elems HEAP0 (Suc N) h)"
    "only_active (members N h') wm wm'" by auto
  have "distinct (map ANHE_w (elems HEAP0 (Suc N) h))" using d(2) by (simp add: indexed_but_def)
  moreover have "mset (map ANHE_w (elems HEAP0 (Suc N) h)) = mset (map ANHE_w (h k # elems HEAP0 N h'))"
    unfolding mset_map r(2) [symmetric] by simp
  ultimately have "distinct (map ANHE_w (h k # elems HEAP0 N h'))"
    using mset_eq_imp_distinct_iff by blast
  then show "ANHE_w (h k) \<notin> members N h'" by (simp add: members_def)
qed

text \<open>The root gets a later time, or any element any time.\<close>

lemma theap_retime:
  assumes "theap N h wm" "HEAP0 \<le> k" "k < HEAP0 + N" "w = ANHE_w (h k)"
    and "w_at (wm1 w) = at1" "active (wm1 w) = active (wm w)" "\<And>v. v \<noteq> w \<Longrightarrow> wm1 v = wm v"
    and "adjustheap N k (h(k := \<lparr>ANHE_at = at1, ANHE_w = w\<rparr>), wm1) = (h', wm')
      \<or> k = HEAP0 \<and> downheap N k (h(k := \<lparr>ANHE_at = at1, ANHE_w = w\<rparr>), wm1) = (h', wm')"
  shows "theap N h' wm'" "add_mset (h k) (mset (elems HEAP0 N h')) = add_mset \<lparr>ANHE_at = at1, ANHE_w = w\<rparr> (mset (elems HEAP0 N h))"
    "only_active (members N h) wm1 wm'" "members N h' = members N h"
proof -
  let ?he = "\<lparr>ANHE_at = at1, ANHE_w = w\<rparr>" let ?H = "h(k := ?he)"
  note d = theapD [OF assms(1)]
  have wH: "ANHE_w (?H j) = ANHE_w (h j)" for j using assms(4) by simp
  have "active (wm1 v) = active (wm v)" for v using assms(6,7) by (cases "v = w") auto
  then have iH: "indexed_but HEAP0 N {k} ?H wm1"
    using d(2) unfolding indexed_but_def distinct_elems_iff wH by simp
  have ne: "ANHE_w (h j) \<noteq> w" if "HEAP0 \<le> j" "j < HEAP0 + N" "j \<noteq> k" for j
    using theap_inj [OF assms(1) that(1,2) assms(2,3)] that(3) assms(4) by auto
  have c: "cached N ?H wm1"
    using d(3) assms(5,7) ne by (auto simp: cached_def elems_def)
  have "h4.heap_result N ?H wm1 h' wm'"
  proof (cases "adjustheap N k (?H, wm1) = (h', wm')")
    case True
    then show ?thesis by (rule adjustheap_result [OF d(1) assms(2,3) iH])
  next
    case False
    then have k: "k = HEAP0" "downheap N k (?H, wm1) = (h', wm')" using assms(8) by auto
    have "h4.down_ok N k ?H" by (rule down_ok_replace [OF d(1) assms(2,3)]) (simp add: k)
    then show ?thesis using downheap_loop_spec [OF assms(2,3), of ?H ?he wm1 h' wm'] iH k(2)
      by (simp add: downheap_def)
  qed
  note r = theap_of_result [OF this c]
  have mem: "members N ?H = members N h" by (auto simp: members_def elems_def wH image_image simp del: fun_upd_apply)
  show "theap N h' wm'" by (rule r)
  show "only_active (members N h) wm1 wm'" using r(3) mem by simp
  show "members N h' = members N h" using members_mset [OF r(2)] mem by simp
  show "add_mset (h k) (mset (elems HEAP0 N h')) = add_mset ?he (mset (elems HEAP0 N h))"
    unfolding r(2) by (rule elems_update [OF assms(2,3)])
qed

lemma theap_root_least:
  "theap N h wm \<Longrightarrow> he \<in> set (elems HEAP0 N h) \<Longrightarrow> ANHE_at (h HEAP0) \<le> ANHE_at he"
  using h4.ordered_root_min [OF theapD(1)] by (auto simp: elems_def)

end
