(* ===== verification/EvTimerLaws.thy ===== *)
theory EvTimerLaws
  imports EvTimer
begin

text \<open>
  What the operations on timers promise: the heap of \<open>libev-4.15/ev.c\<close> holds exactly the started
  timers, \<open>timers_reify\<close> ends, queues exactly the timers whose time has passed in the order of their
  times, reschedules the repeating ones and stops the others.
\<close>

section \<open>What stays the same\<close>

text \<open>Only the private members \<open>active\<close>, \<open>pending\<close> and \<open>at\<close> differ.\<close>

definition same_settings :: "(wid \<Rightarrow> watcher) \<Rightarrow> (wid \<Rightarrow> watcher) \<Rightarrow> bool" where
  "same_settings wm wm' \<longleftrightarrow>
     (\<forall>w. wm' w = (wm w)\<lparr>active := active (wm' w), pending := pending (wm' w), w_at := w_at (wm' w)\<rparr>)"

lemma same_settings_refl [simp]: "same_settings wm wm"
  by (simp add: same_settings_def)

lemma same_settings_trans: "same_settings a b \<Longrightarrow> same_settings b c \<Longrightarrow> same_settings a c"
  unfolding same_settings_def
  by (smt (verit) watcher.surjective watcher.update_convs(1) watcher.update_convs(2) watcher.update_convs(8))

lemma same_settings_members:
  assumes "same_settings wm wm'"
  shows "priority (wm' w) = priority (wm w)" "ABSPRI (wm' w) = ABSPRI (wm w)" "w_repeat (wm' w) = w_repeat (wm w)"
    "w_interval (wm' w) = w_interval (wm w)" "w_offset (wm' w) = w_offset (wm w)" "reschedule_cb (wm' w) = reschedule_cb (wm w)"
    "w_next (wm' w) = w_next (wm w)" "io_fd (wm' w) = io_fd (wm w)" "io_events (wm' w) = io_events (wm w)"
proof -
  have e: "wm' w = (wm w)\<lparr>active := active (wm' w), pending := pending (wm' w), w_at := w_at (wm' w)\<rparr>"
    using assms by (simp add: same_settings_def)
  show "priority (wm' w) = priority (wm w)" "ABSPRI (wm' w) = ABSPRI (wm w)" "w_repeat (wm' w) = w_repeat (wm w)"
    "w_interval (wm' w) = w_interval (wm w)" "w_offset (wm' w) = w_offset (wm w)" "reschedule_cb (wm' w) = reschedule_cb (wm w)"
    "w_next (wm' w) = w_next (wm w)" "io_fd (wm' w) = io_fd (wm w)" "io_events (wm' w) = io_events (wm w)"
    by (subst e, simp add: ABSPRI_def)+
qed

lemma same_settings_only_active: "only_active W wm wm' \<Longrightarrow> same_settings wm wm'"
  unfolding only_active_def same_settings_def
proof
  fix w assume "(\<forall>w. wm' w = (wm w)\<lparr>active := active (wm' w)\<rparr>) \<and> (\<forall>w. w \<notin> W \<longrightarrow> wm' w = wm w)"
  then have e: "wm' w = (wm w)\<lparr>active := active (wm' w)\<rparr>" by blast
  then have "pending (wm' w) = pending (wm w)" "w_at (wm' w) = w_at (wm w)"
    by (metis watcher.select_convs watcher.surjective watcher.update_convs(1))+
  then show "wm' w = (wm w)\<lparr>active := active (wm' w), pending := pending (wm' w), w_at := w_at (wm' w)\<rparr>"
    using e by (metis watcher.surjective watcher.update_convs(1,2,8))
qed

lemma same_settings_upd [simp]:
  "same_settings wm (wm(w := (wm w)\<lparr>active := k\<rparr>))" "same_settings wm (wm(w := (wm w)\<lparr>w_at := t\<rparr>))"
  "same_settings wm (wm(w := (wm w)\<lparr>pending := n\<rparr>))"
  by (auto simp: same_settings_def)

lemma same_settings_step:
  "same_settings a b \<Longrightarrow> same_settings a (b(w := (b w)\<lparr>active := k\<rparr>))"
  "same_settings a b \<Longrightarrow> same_settings a (b(w := (b w)\<lparr>w_at := t\<rparr>))"
  "same_settings a b \<Longrightarrow> same_settings a (b(w := (b w)\<lparr>pending := n\<rparr>))"
  by (erule same_settings_trans, simp)+

lemma same_settings_clear: "same_settings (wt s) (wt (clear_pending w s))"
  by (auto simp: clear_pending_def Let_def)

lemma same_settings_feed: "same_settings (wt s) (wt (ev_feed_event w ev s))"
  by (auto simp: ev_feed_event_def Let_def)

lemma clear_at [simp]: "w_at (wt (clear_pending w s) v) = w_at (wt s v)"
  by (auto simp: clear_pending_def Let_def)

lemma feed_at [simp]: "w_at (wt (ev_feed_event w ev s) v) = w_at (wt s v)"
  by (auto simp: ev_feed_event_def Let_def)

lemma clear_pending_times [simp]:
  "timers (clear_pending w s) = timers s" "timercnt (clear_pending w s) = timercnt s"
  "mn_now (clear_pending w s) = mn_now s" "rfeeds (clear_pending w s) = rfeeds s"
  "periodics (clear_pending w s) = periodics s" "periodiccnt (clear_pending w s) = periodiccnt s"
  "ev_rt_now (clear_pending w s) = ev_rt_now s"
  by (simp_all add: clear_pending_def Let_def)

lemma feed_times [simp]:
  "timers (ev_feed_event w ev s) = timers s" "timercnt (ev_feed_event w ev s) = timercnt s"
  "mn_now (ev_feed_event w ev s) = mn_now s" "rfeeds (ev_feed_event w ev s) = rfeeds s"
  "periodics (ev_feed_event w ev s) = periodics s" "periodiccnt (ev_feed_event w ev s) = periodiccnt s"
  "ev_rt_now (ev_feed_event w ev s) = ev_rt_now s"
  by (simp_all add: ev_feed_event_def Let_def)

lemma ev_stop_times [simp]:
  "timers (ev_stop w s) = timers s" "timercnt (ev_stop w s) = timercnt s"
  "mn_now (ev_stop w s) = mn_now s" "rfeeds (ev_stop w s) = rfeeds s"
  "periodics (ev_stop w s) = periodics s" "periodiccnt (ev_stop w s) = periodiccnt s"
  "ev_rt_now (ev_stop w s) = ev_rt_now s"
  by (simp_all add: ev_stop_def ev_unref_def)

lemma ev_start_times [simp]:
  "timers (ev_start w k s) = timers s" "timercnt (ev_start w k s) = timercnt s"
  "mn_now (ev_start w k s) = mn_now s" "rfeeds (ev_start w k s) = rfeeds s"
  "periodics (ev_start w k s) = periodics s" "periodiccnt (ev_start w k s) = periodiccnt s"
  "ev_rt_now (ev_start w k s) = ev_rt_now s"
  by (simp_all add: ev_start_def ev_ref_def pri_adjust_def Let_def)

lemma timers_same: "r\<lparr>timercnt := n, timers := timers r, wt := m\<rparr> = r\<lparr>timercnt := n, wt := (m :: wid \<Rightarrow> watcher)\<rparr>"
  by (cases r) simp

section \<open>The invariant\<close>

abbreviation timer_set :: "'a ev_times_scheme \<Rightarrow> wid set" where
  "timer_set s \<equiv> members (timercnt s) (timers s)"

definition timers_ok :: "'a ev_times_scheme \<Rightarrow> bool" where
  "timers_ok s \<longleftrightarrow>
     theap (timercnt s) (timers s) (wt s) \<and> pend_ok s
   \<and> (\<forall>w \<in> timer_set s. w \<noteq> pending_w \<and> ABSPRI (wt s w) < NUMPRI \<and> w_repeat (wt s w) \<ge> 0)"

lemma timers_okI:
  assumes "timers_ok s" "theap (timercnt s') (timers s') (wt s')" "pend_ok s'" "same_settings (wt s) (wt s')" "timer_set s' \<subseteq> timer_set s"
  shows "timers_ok s'"
  using assms same_settings_members [OF assms(4)] by (auto simp: timers_ok_def)

lemma timer_active: "timers_ok s \<Longrightarrow> w \<in> timer_set s \<Longrightarrow> active (wt s w) > 0"
  using theap_index [of "timercnt s" "timers s" "wt s"] by (auto simp: members_iff timers_ok_def HEAP0_def DHEAP_def)

text \<open>An operation that queues nothing.\<close>

definition still_quiet :: "'a ev_base_scheme \<Rightarrow> 'a ev_base_scheme \<Rightarrow> bool" where
  "still_quiet s s' \<longleftrightarrow>
     ((\<forall>w. pending (wt s w) = 0) \<longrightarrow> (\<forall>w. pending (wt s' w) = 0) \<and> pendings s' = pendings s)"

lemma still_quiet_refl [simp]: "still_quiet s s"
  by (simp add: still_quiet_def)

lemma still_quiet_trans: "still_quiet s s1 \<Longrightarrow> still_quiet s1 s2 \<Longrightarrow> still_quiet s s2"
  by (auto simp: still_quiet_def)

lemma members_remove:
  assumes "add_mset (h k) (mset (elems HEAP0 N h')) = mset (elems HEAP0 (Suc N) h)" "ANHE_w (h k) \<notin> members N h'"
  shows "members N h' = members (Suc N) h - {ANHE_w (h k)}"
proof -
  have "set (elems HEAP0 (Suc N) h) = insert (h k) (set (elems HEAP0 N h'))"
    by (metis assms(1) set_mset_add_mset_insert set_mset_mset)
  then have "members (Suc N) h = insert (ANHE_w (h k)) (members N h')"
    unfolding members_def by simp
  then show ?thesis using assms(2) by auto
qed

lemma timer_stop_spec:
  assumes ok: "timers_ok s" and w: "w \<in> timer_set s"
  shows "\<exists>s'. ev_timer_stop w s = Some s' \<and> timers_ok s' \<and> timer_set s' = timer_set s - {w}
    \<and> same_settings (wt s) (wt s') \<and> active (wt s' w) = 0 \<and> activecnt s' = activecnt s - 1
    \<and> mn_now s' = mn_now s \<and> rfeeds s' = rfeeds s \<and> Suc (timercnt s') = timercnt s
    \<and> (\<forall>v. w_at (wt s' v) = (if v = w then w_at (wt s w) - mn_now s else w_at (wt s v)))
    \<and> pending_events s' = (pending_events s)(w := 0) \<and> still_quiet s s'"
proof -
  let ?s1 = "clear_pending w s"
  have th: "theap (timercnt s) (timers s) (wt ?s1)"
    using ok theap_cong [of "timercnt s" "timers s" "wt s" "wt ?s1"] by (simp add: timers_ok_def)
  obtain k where k: "HEAP0 \<le> k" "k < HEAP0 + timercnt s" "ANHE_w (timers s k) = w" using w by (auto simp: members_iff)
  have act: "active (wt ?s1 w) = int k" using theap_index(1) [OF th k(1,2)] k(3) by simp
  obtain N where N: "timercnt s = Suc N" using k by (cases "timercnt s") auto
  have k0: "k \<noteq> 0" using k(1) by (simp add: HEAP0_def DHEAP_def)
  obtain h' wm' where r: "(h', wm') = (if k < N + HEAP0
      then adjustheap N k ((timers s)(k := timers s (N + HEAP0)), wt ?s1) else (timers s, wt ?s1))"
    by (metis surj_pair)
  note rem = theap_remove [OF th [unfolded N] k(1) k(2) [unfolded N] r, unfolded k(3)]
  let ?t = "wm'(w := (wm' w)\<lparr>w_at := w_at (wm' w) - mn_now s\<rparr>)"
  let ?s' = "ev_stop w (?s1\<lparr>timercnt := N, timers := h', wt := ?t\<rparr>)"
  have run: "ev_timer_stop w s = Some ?s'"
  proof (cases "k < N + HEAP0")
    case True
    then have "adjustheap N k ((timers s)(k := timers s (N + HEAP0)), wt ?s1) = (h', wm')" using r by simp
    then show ?thesis using act k0 k(3) N True by (simp add: ev_timer_stop_def Let_def on_timers_def)
  next
    case False
    then have e: "h' = timers ?s1" "wm' = wt ?s1" using r by auto
    show ?thesis unfolding e timers_same using act k0 k(3) N False
      by (simp add: ev_timer_stop_def Let_def on_timers_def)
  qed
  note oa = only_active_members [OF rem(3)]
  have mem: "members N h' = timer_set s - {w}" using members_remove [OF rem(2)] rem(4) N by (simp add: k(3))
  have "wt ?s' = ?t(w := (?t w)\<lparr>active := 0\<rparr>)" by simp
  then have same: "same_settings (wt s) (wt ?s')"
    using same_settings_trans [OF same_settings_clear same_settings_only_active [OF rem(3)]]
    by (simp only: same_settings_step)
  have at: "w_at (wt ?s' v) = (if v = w then w_at (wt s w) - mn_now s else w_at (wt s v))" for v
    using oa(1) by simp
  have th': "theap N h' (wt ?s')"
    by (rule theap_cong [OF rem(1)]) (use rem(4) in auto)
  have cong: "pend_ok ?s' = pend_ok ?s1" "pending_events ?s' = pending_events ?s1"
    by (rule pend_ok_cong; use oa(2,3) in simp)+
  have pk: "pend_ok ?s'" "pending_events ?s' = (pending_events s)(w := 0)"
    using cong ok clear_pend_ok [of s w] clear_events [of s w] by (simp_all add: timers_ok_def)
  have "timers_ok ?s'" by (rule timers_okI [OF ok _ pk(1) same]) (use th' mem in simp_all)
  moreover have "still_quiet s ?s'"
    using oa(2) by (auto simp: still_quiet_def clear_pending_def)
  ultimately show ?thesis using run mem same at pk(2) N by auto
qed

section \<open>One expiry\<close>

text \<open>What a timer looks like after it has expired.\<close>

definition next_time :: "'a ev_times_scheme \<Rightarrow> wid \<Rightarrow> ev_tstamp" where
  "next_time s w =
     (if w_repeat (wt s w) \<noteq> 0 then max (w_at (wt s w) + w_repeat (wt s w)) (mn_now s) else w_at (wt s w) - mn_now s)"

lemma timer_again_spec:
  assumes ok: "timers_ok s" and k: "HEAP0 \<le> k" "k < HEAP0 + timercnt s" "ANHE_w (timers s k) = w"
    and adj: "adjustheap (timercnt s) k ((timers s)(k := \<lparr>ANHE_at = t, ANHE_w = w\<rparr>), (wt s)(w := (wt s w)\<lparr>w_at := t\<rparr>)) = (h', wm')
      \<or> k = HEAP0 \<and> downheap (timercnt s) k ((timers s)(k := \<lparr>ANHE_at = t, ANHE_w = w\<rparr>), (wt s)(w := (wt s w)\<lparr>w_at := t\<rparr>)) = (h', wm')"
    and s': "s' = s\<lparr>timers := h', wt := wm'\<rparr>"
  shows "timers_ok s' \<and> timer_set s' = timer_set s \<and> same_settings (wt s) (wt s')
    \<and> (\<forall>v. w_at (wt s' v) = (if v = w then t else w_at (wt s v))) \<and> pending_events s' = pending_events s
    \<and> still_quiet s s'"
proof -
  let ?wm1 = "(wt s)(w := (wt s w)\<lparr>w_at := t\<rparr>)"
  have th: "theap (timercnt s) (timers s) (wt s)" using ok by (simp add: timers_ok_def)
  have r: "theap (timercnt s) h' wm'" "only_active (members (timercnt s) (timers s)) ?wm1 wm'"
    "members (timercnt s) h' = members (timercnt s) (timers s)"
    using theap_retime [OF th k(1,2) k(3) [symmetric], of ?wm1 t h' wm'] adj by auto
  note oa = only_active_members [OF r(2)]
  have same: "same_settings (wt s) wm'"
    using same_settings_trans [OF _ same_settings_only_active [OF r(2)]] by simp
  have cong: "pend_ok s' = pend_ok s" "pending_events s' = pending_events s"
    by (rule pend_ok_cong; use oa(2,3) s' in simp)+
  have "timers_ok s'" by (rule timers_okI [OF ok]) (use r same cong ok s' in \<open>simp_all add: timers_ok_def\<close>)
  moreover have "w_at (wt s' v) = (if v = w then t else w_at (wt s v))" for v using oa(1) s' by simp
  moreover have "still_quiet s s'" using oa(2) s' by (simp add: still_quiet_def)
  ultimately show ?thesis using same cong r(3) s' by simp
qed

lemma timer_expire_spec:
  assumes ok: "timers_ok s" and n: "timercnt s \<noteq> 0" and w: "w = ANHE_w (timers s HEAP0)"
  shows "\<exists>s'. timer_expire s = Some s' \<and> timers_ok s' \<and> rfeeds s' = rfeeds s @ [w] \<and> mn_now s' = mn_now s
    \<and> timer_set s' = (if w_repeat (wt s w) = 0 then timer_set s - {w} else timer_set s)
    \<and> same_settings (wt s) (wt s')
    \<and> (\<forall>v. w_at (wt s' v) = (if v = w then next_time s w else w_at (wt s v)))
    \<and> pending_events s' = (if w_repeat (wt s w) = 0 then (pending_events s)(w := 0) else pending_events s)
    \<and> still_quiet s s'"
proof -
  have k: "HEAP0 \<le> HEAP0" "HEAP0 < HEAP0 + timercnt s" using n by simp_all
  have mem: "w \<in> timer_set s" unfolding members_iff w using k by blast
  have rep: "w_repeat (wt s w) \<ge> 0" using ok mem by (simp add: timers_ok_def)
  have okf: "timers_ok (x\<lparr>rfeeds := l\<rparr>) = timers_ok x" "pending_events (x\<lparr>rfeeds := l\<rparr>) = pending_events x"
    for x :: "'a ev_times_scheme" and l
    using pend_ok_cong [of "x\<lparr>rfeeds := l\<rparr>" x] by (simp_all add: timers_ok_def)
  show ?thesis
  proof (cases "w_repeat (wt s w) = 0")
    case True
    from timer_stop_spec [OF ok mem] obtain s' where s': "ev_timer_stop w s = Some s'" "timers_ok s'"
      "timer_set s' = timer_set s - {w}" "same_settings (wt s) (wt s')" "mn_now s' = mn_now s" "rfeeds s' = rfeeds s"
      "\<forall>v. w_at (wt s' v) = (if v = w then w_at (wt s w) - mn_now s else w_at (wt s v))"
      "pending_events s' = (pending_events s)(w := 0)" "still_quiet s s'" by blast
    have run: "timer_expire s = Some (feed_reverse w s')"
      using True s'(1) by (simp add: timer_expire_def Let_def w [symmetric])
    have "still_quiet s (feed_reverse w s')" using s'(9) by (simp add: still_quiet_def feed_reverse_def)
    then show ?thesis unfolding run using True s' okf
      by (intro exI [of _ "feed_reverse w s'"]) (simp add: next_time_def feed_reverse_def)
  next
    case False
    let ?t = "next_time s w"
    obtain h' wm' where r: "downheap (timercnt s) HEAP0 ((timers s)(HEAP0 := \<lparr>ANHE_at = ?t, ANHE_w = w\<rparr>),
        (wt s)(w := (wt s w)\<lparr>w_at := ?t\<rparr>)) = (h', wm')" by fastforce
    let ?s' = "s\<lparr>timers := h', wt := wm'\<rparr>"
    have he: "(timers s HEAP0)\<lparr>ANHE_at := x\<rparr> = \<lparr>ANHE_at = x, ANHE_w = w\<rparr>" for x using w by (cases "timers s HEAP0") simp
    have run: "timer_expire s = Some (feed_reverse w ?s')"
      using False rep r
      by (simp add: timer_expire_def Let_def w [symmetric] next_time_def on_timers_def he max_def split: if_splits)
    have sp: "timers_ok ?s' \<and> timer_set ?s' = timer_set s \<and> same_settings (wt s) (wt ?s')
      \<and> (\<forall>v. w_at (wt ?s' v) = (if v = w then ?t else w_at (wt s v))) \<and> pending_events ?s' = pending_events s \<and> still_quiet s ?s'"
      by (rule timer_again_spec [OF ok k w [symmetric]]) (use r in auto)
    then have "still_quiet s (feed_reverse w ?s')" by (simp add: still_quiet_def feed_reverse_def)
    then show ?thesis unfolding run using False sp okf
      by (intro exI [of _ "feed_reverse w ?s'"]) (simp add: feed_reverse_def)
  qed
qed

section \<open>All expiries\<close>

definition due :: "'a ev_times_scheme \<Rightarrow> wid set" where
  "due s = {w \<in> timer_set s. w_at (wt s w) < mn_now s}"

lemma finite_due [simp]: "finite (due s)"
  by (simp add: due_def members_def)

lemma timer_root_least:
  assumes "timers_ok s" and w: "w \<in> timer_set s"
  shows "timercnt s \<noteq> 0 \<and> ANHE_at (timers s HEAP0) \<le> w_at (wt s w)"
proof -
  have th: "theap (timercnt s) (timers s) (wt s)" using assms by (simp add: timers_ok_def)
  obtain k where k: "HEAP0 \<le> k" "k < HEAP0 + timercnt s" "ANHE_w (timers s k) = w" using w by (auto simp: members_iff)
  then have "timers s k \<in> set (elems HEAP0 (timercnt s) (timers s))" by (simp add: elems_def)
  from theap_root_least [OF th this] theap_index(2) [OF th k(1,2)] k show ?thesis by simp
qed

lemma root_due:
  assumes "timers_ok s"
  shows "timer_due s \<longleftrightarrow> due s \<noteq> {}"
    "timer_due s \<Longrightarrow> ANHE_w (timers s HEAP0) \<in> due s \<and> (\<forall>w \<in> timer_set s. w_at (wt s (ANHE_w (timers s HEAP0))) \<le> w_at (wt s w))"
proof -
  have th: "theap (timercnt s) (timers s) (wt s)" using assms by (simp add: timers_ok_def)
  note least = timer_root_least [OF assms, THEN conjunct2]
  have rt: "ANHE_w (timers s HEAP0) \<in> timer_set s \<and> ANHE_at (timers s HEAP0) = w_at (wt s (ANHE_w (timers s HEAP0)))"
    if "timercnt s \<noteq> 0" using theap_index(2) [OF th, of HEAP0] that by (auto simp: members_iff)
  have "timer_due s" if "w \<in> due s" for w
  proof -
    have w: "w \<in> timer_set s" "w_at (wt s w) < mn_now s" using that by (simp_all add: due_def)
    then have "timercnt s \<noteq> 0" by (auto simp: members_iff)
    then show ?thesis using least [OF w(1)] w(2) by (simp add: timer_due_def)
  qed
  moreover have "ANHE_w (timers s HEAP0) \<in> due s" if "timer_due s" using that rt by (simp add: timer_due_def due_def)
  ultimately show "timer_due s \<longleftrightarrow> due s \<noteq> {}" by blast
  show "ANHE_w (timers s HEAP0) \<in> due s \<and> (\<forall>w \<in> timer_set s. w_at (wt s (ANHE_w (timers s HEAP0))) \<le> w_at (wt s w))"
    if "timer_due s" using that rt least by (simp add: timer_due_def due_def)
qed

text \<open>What the loop has done when it ends: \<open>es\<close> are the timers that expired, in that order.\<close>

definition all_expired :: "'a ev_times_scheme \<Rightarrow> wid list \<Rightarrow> 'a ev_times_scheme \<Rightarrow> bool" where
  "all_expired s es s' \<longleftrightarrow>
     distinct es \<and> set es = due s \<and> sorted_wrt (\<lambda>v w. w_at (wt s v) \<le> w_at (wt s w)) es
   \<and> rfeeds s' = rfeeds s @ es \<and> mn_now s' = mn_now s
   \<and> timer_set s' = timer_set s - {w \<in> due s. w_repeat (wt s w) = 0}
   \<and> same_settings (wt s) (wt s')
   \<and> (\<forall>v. w_at (wt s' v) = (if v \<in> due s then next_time s v else w_at (wt s v)))
   \<and> pending_events s' = (\<lambda>v. if v \<in> due s \<and> w_repeat (wt s v) = 0 then 0 else pending_events s v)
   \<and> still_quiet s s'"

lemma all_expired_cons:
  assumes "timers_ok s" and w: "w \<in> due s" "\<forall>v \<in> timer_set s. w_at (wt s w) \<le> w_at (wt s v)"
    and s1: "rfeeds s1 = rfeeds s @ [w]" "mn_now s1 = mn_now s"
      "timer_set s1 = (if w_repeat (wt s w) = 0 then timer_set s - {w} else timer_set s)"
      "same_settings (wt s) (wt s1)"
      "\<forall>v. w_at (wt s1 v) = (if v = w then next_time s w else w_at (wt s v))"
      "pending_events s1 = (if w_repeat (wt s w) = 0 then (pending_events s)(w := 0) else pending_events s)"
      "still_quiet s s1"
    and e: "all_expired s1 es s'"
  shows "all_expired s (w # es) s'"
proof -
  note set1 = same_settings_members [OF s1(4)]
  have d1: "due s1 = due s - {w}"
    using w(1) s1(2,3,5) by (auto simp: due_def next_time_def split: if_splits)
  have nt: "next_time s1 v = next_time s v" if "v \<noteq> w" for v
    using that s1(2,5) set1(3) by (simp add: next_time_def)
  note e' = e [unfolded all_expired_def d1]
  have es: "set es = due s - {w}" using e' by blast
  have "sorted_wrt (\<lambda>v u. w_at (wt s v) \<le> w_at (wt s u)) es"
    by (rule sorted_wrt_mono_rel [of es "\<lambda>v u. w_at (wt s1 v) \<le> w_at (wt s1 u)"])
      (use e' es s1(5) in auto)
  then have "sorted_wrt (\<lambda>v u. w_at (wt s v) \<le> w_at (wt s u)) (w # es)"
    using w(2) es by (auto simp: due_def)
  moreover have "set (w # es) = due s" "distinct (w # es)" using es w(1) e' by auto
  moreover have "rfeeds s' = rfeeds s @ w # es" "mn_now s' = mn_now s" using e' s1(1,2) by auto
  moreover have "timer_set s' = timer_set s - {v \<in> due s. w_repeat (wt s v) = 0}"
    using e' s1(3) set1(3) w(1) by auto
  moreover have "same_settings (wt s) (wt s')" using e' s1(4) same_settings_trans by blast
  moreover have "\<forall>v. w_at (wt s' v) = (if v \<in> due s then next_time s v else w_at (wt s v))"
    using e' s1(5) nt w(1) by auto
  moreover have "pending_events s' = (\<lambda>v. if v \<in> due s \<and> w_repeat (wt s v) = 0 then 0 else pending_events s v)"
    using e' s1(6) set1(3) w(1) by (auto simp: fun_eq_iff)
  moreover have "still_quiet s s'" using e' s1(7) still_quiet_trans by blast
  ultimately show ?thesis by (simp only: all_expired_def) blast
qed

lemma timers_reify_loop_spec:
  assumes "timers_ok s" "timer_due s"
  shows "\<exists>s' es. timers_reify_loop s = Some s' \<and> timers_ok s' \<and> \<not> timer_due s' \<and> all_expired s es s'"
  using assms
proof (induction "card (due s)" arbitrary: s rule: less_induct)
  case less
  let ?w = "ANHE_w (timers s HEAP0)"
  have n: "timercnt s \<noteq> 0" using less.prems(2) by (simp add: timer_due_def)
  have w: "?w \<in> due s" "\<forall>v \<in> timer_set s. w_at (wt s ?w) \<le> w_at (wt s v)"
    using root_due(2) [OF less.prems] by auto
  from timer_expire_spec [OF less.prems(1) n refl] obtain s1 where s1: "timer_expire s = Some s1" "timers_ok s1"
    "rfeeds s1 = rfeeds s @ [?w]" "mn_now s1 = mn_now s"
    "timer_set s1 = (if w_repeat (wt s ?w) = 0 then timer_set s - {?w} else timer_set s)" "same_settings (wt s) (wt s1)"
    "\<forall>v. w_at (wt s1 v) = (if v = ?w then next_time s ?w else w_at (wt s v))"
    "pending_events s1 = (if w_repeat (wt s ?w) = 0 then (pending_events s)(?w := 0) else pending_events s)"
    "still_quiet s s1" by blast
  have d1: "due s1 = due s - {?w}"
    using w(1) s1(4,5,7) by (auto simp: due_def next_time_def split: if_splits)
  note cons = all_expired_cons [OF less.prems(1) w s1(3-9)]
  show ?case
  proof (cases "timer_due s1")
    case True
    have "card (due s1) < card (due s)" unfolding d1 using w(1) by (intro card_Diff1_less) simp_all
    from less.hyps [OF this s1(2) True] obtain s' es
      where s': "timers_reify_loop s1 = Some s'" "timers_ok s'" "\<not> timer_due s'" "all_expired s1 es s'" by blast
    have "timers_reify_loop s = Some s'" by (subst timers_reify_loop.simps) (simp add: s1(1) True s'(1))
    then show ?thesis using s' cons by blast
  next
    case False
    have run: "timers_reify_loop s = Some s1" by (subst timers_reify_loop.simps) (simp add: s1(1) False)
    have "due s1 = {}" using root_due(1) [OF s1(2)] False by simp
    then have "all_expired s1 [] s1" by (simp add: all_expired_def)
    then show ?thesis using run s1(2) False cons by blast
  qed
qed

section \<open>Feeding what has expired\<close>

text \<open>Everything but the pending state survives \<open>feed_reverse_done\<close>.\<close>

definition feedable :: "'a ev_base_scheme \<Rightarrow> wid set \<Rightarrow> bool" where
  "feedable s W \<longleftrightarrow> (\<forall>w \<in> W. w \<noteq> pending_w \<and> ABSPRI (wt s w) < NUMPRI)"

lemma feed_list_spec:
  fixes s :: "'a ev_times_scheme"
  assumes "pend_ok s" "feedable s (set ws)" and s': "s' = fold (\<lambda>w. ev_feed_event w ev) ws s"
  shows "pend_ok s'" "pending_events s' = (\<lambda>v. if v \<in> set ws then pending_events s v OR ev else pending_events s v)"
    "same_settings (wt s) (wt s')" "\<And>v. active (wt s' v) = active (wt s v)" "\<And>v. w_at (wt s' v) = w_at (wt s v)"
    "timers s' = timers s" "timercnt s' = timercnt s" "mn_now s' = mn_now s" "activecnt s' = activecnt s"
    "periodics s' = periodics s" "periodiccnt s' = periodiccnt s" "ev_rt_now s' = ev_rt_now s"
proof -
  have "pend_ok s' \<and> pending_events s' = (\<lambda>v. if v \<in> set ws then pending_events s v OR ev else pending_events s v)
    \<and> same_settings (wt s) (wt s') \<and> (\<forall>v. active (wt s' v) = active (wt s v) \<and> w_at (wt s' v) = w_at (wt s v))
    \<and> timers s' = timers s \<and> timercnt s' = timercnt s \<and> mn_now s' = mn_now s \<and> activecnt s' = activecnt s
    \<and> periodics s' = periodics s \<and> periodiccnt s' = periodiccnt s \<and> ev_rt_now s' = ev_rt_now s"
    using assms
  proof (induction ws arbitrary: s)
    case Nil
    then show ?case by simp
  next
    case (Cons w ws)
    let ?s1 = "ev_feed_event w ev s"
    have w: "w \<noteq> pending_w" "ABSPRI (wt s w) < NUMPRI" using Cons.prems(2) by (simp_all add: feedable_def)
    have "feedable ?s1 (set ws)" using Cons.prems(2) by (simp add: feedable_def)
    note ih = Cons.IH [OF feed_pend_ok [OF Cons.prems(1) w] this] 
    have "s' = fold (\<lambda>w. ev_feed_event w ev) ws ?s1" using Cons.prems(3) by simp
    note ih = ih [OF this]
    have "same_settings (wt s) (wt s')" using ih same_settings_feed same_settings_trans by blast
    moreover have "pending_events s' = (\<lambda>v. if v \<in> set (w # ws) then pending_events s v OR ev else pending_events s v)"
      using ih feed_events [OF Cons.prems(1) w, of ev] by (auto simp: fun_eq_iff or.assoc)
    ultimately show ?case using ih by simp
  qed
  then show "pend_ok s'" "pending_events s' = (\<lambda>v. if v \<in> set ws then pending_events s v OR ev else pending_events s v)"
    "same_settings (wt s) (wt s')" "\<And>v. active (wt s' v) = active (wt s v)" "\<And>v. w_at (wt s' v) = w_at (wt s v)"
    "timers s' = timers s" "timercnt s' = timercnt s" "mn_now s' = mn_now s" "activecnt s' = activecnt s"
    "periodics s' = periodics s" "periodiccnt s' = periodiccnt s" "ev_rt_now s' = ev_rt_now s" by blast+
qed

text \<open>Watchers that were not pending are appended in the order of the list.\<close>

lemma feed_fresh_list:
  assumes "distinct ws" "\<And>w. w \<in> set ws \<Longrightarrow> pending (wt s w) = 0"
  shows "pendings (fold (\<lambda>w. ev_feed_event w ev) ws s) p =
    pendings s p @ map (\<lambda>w. (w, ev)) (filter (\<lambda>w. ABSPRI (wt s w) = p) ws)"
  using assms
proof (induction ws arbitrary: s)
  case (Cons w ws)
  let ?s1 = "ev_feed_event w ev s"
  have p: "pending (wt s w) = 0" using Cons.prems by simp
  have "pending (wt ?s1 v) = 0" if "v \<in> set ws" for v
    using Cons.prems that by (auto simp: feed_new [OF p])
  then have "pendings (fold (\<lambda>w. ev_feed_event w ev) ws ?s1) p =
    pendings ?s1 p @ map (\<lambda>w. (w, ev)) (filter (\<lambda>w. ABSPRI (wt ?s1 w) = p) ws)"
    using Cons by simp
  moreover have "pendings ?s1 p = pendings s p @ (if ABSPRI (wt s w) = p then [(w, ev)] else [])"
    by (simp add: feed_new [OF p])
  ultimately show ?case by simp
qed simp

lemma feed_done_timers:
  fixes s :: "'a ev_times_scheme"
  assumes "timers_ok s" "feedable s (set (rfeeds s))"
  shows "timers_ok (feed_reverse_done ev s)"
    "pending_events (feed_reverse_done ev s) = (\<lambda>v. if v \<in> set (rfeeds s) then pending_events s v OR ev else pending_events s v)"
proof -
  obtain f where f: "f = fold (\<lambda>w. ev_feed_event w ev) (rev (rfeeds s)) s" by simp
  have ws: "feedable s (set (rev (rfeeds s)))" "pend_ok s" using assms by (simp_all add: timers_ok_def)
  note r = feed_list_spec [OF ws(2,1) f]
  have e: "feed_reverse_done ev s = f\<lparr>rfeeds := []\<rparr>" by (simp add: feed_reverse_done_def f)
  have c: "pend_ok (f\<lparr>rfeeds := []\<rparr>) = pend_ok f" "pending_events (f\<lparr>rfeeds := []\<rparr>) = pending_events f"
    by (rule pend_ok_cong; simp)+
  have "theap (timercnt s) (timers s) (wt f)"
    by (rule theap_cong [of _ _ "wt s"]) (use assms(1) r(4,5) in \<open>simp_all add: timers_ok_def\<close>)
  then show "timers_ok (feed_reverse_done ev s)" unfolding e
    by (intro timers_okI [OF assms(1)]) (use r c in simp_all)
  show "pending_events (feed_reverse_done ev s) = (\<lambda>v. if v \<in> set (rfeeds s) then pending_events s v OR ev else pending_events s v)"
    unfolding e c(2) r(2) by simp
qed

section \<open>Starting\<close>

lemma timer_start_spec:
  assumes ok: "timers_ok s" and w: "active (wt s w) = 0" "w \<noteq> pending_w" "w_repeat (wt s w) \<ge> 0" "pending (wt s w) = 0"
  shows "\<exists>s'. ev_timer_start w s = Some s' \<and> timers_ok s' \<and> timer_set s' = insert w (timer_set s)
    \<and> timercnt s' = Suc (timercnt s) \<and> activecnt s' = activecnt s + 1 \<and> mn_now s' = mn_now s \<and> rfeeds s' = rfeeds s
    \<and> w_at (wt s' w) = w_at (wt s w) + mn_now s
    \<and> (\<forall>v. w_repeat (wt s' v) = w_repeat (wt s v) \<and> (v \<noteq> w \<longrightarrow> w_at (wt s' v) = w_at (wt s v)))
    \<and> (\<forall>v. v \<notin> timer_set s \<and> v \<noteq> w \<longrightarrow> wt s' v = wt s v)
    \<and> pendings s' = pendings s \<and> pending_events s' = pending_events s"
proof -
  let ?N = "timercnt s" let ?at = "w_at (wt s w) + mn_now s"
  have fresh: "w \<notin> timer_set s" using timer_active [OF ok] w(1) by fastforce
  let ?s2 = "(upd_w w (\<lambda>x. x\<lparr>w_at := w_at x + mn_now s\<rparr>) s)\<lparr>timercnt := ?N + 1\<rparr>"
  let ?k = "HEAP0 + ?N"
  let ?s3 = "ev_start w (int ?k) ?s2"
  have th3: "theap ?N (timers s) (wt ?s3)"
    by (rule theap_cong [of _ _ "wt s"]) (use ok fresh in \<open>auto simp: timers_ok_def ev_start_wt\<close>)
  have at3: "w_at (wt ?s3 w) = ?at" "active (wt ?s3 w) = int ?k" by (simp_all add: ev_start_wt)
  obtain h' wm' where r: "upheap ?k ((timers s)(?k := \<lparr>ANHE_at = ?at, ANHE_w = w\<rparr>), wt ?s3) = (h', wm')"
    by fastforce
  note push = theap_push [OF th3 fresh at3(1) [symmetric] r]
  note oa = only_active_members [OF push(3)]
  let ?s' = "?s3\<lparr>timers := h', wt := wm'\<rparr>"
  have kk: "nat (int ?k) = ?k" "int (?N + 1 + HEAP0 - 1) = int ?k" by (simp_all add: HEAP0_def DHEAP_def)
  have run: "ev_timer_start w s = Some ?s'"
    using w r at3 kk by (simp add: ev_timer_start_def Let_def on_timers_def add.commute)
  have "set (elems HEAP0 (Suc ?N) h') = insert \<lparr>ANHE_at = ?at, ANHE_w = w\<rparr> (set (elems HEAP0 ?N (timers s)))"
    using push(2) by (metis set_mset_add_mset_insert set_mset_mset)
  then have mem: "members (Suc ?N) h' = insert w (timer_set s)" by (simp add: members_def)
  have others: "wm' v = wt s v" if "v \<notin> timer_set s" "v \<noteq> w" for v
    using oa(9) [of v] that by (simp add: ev_start_wt)
  have flds: "w_repeat (wm' v) = w_repeat (wt s v)" "pending (wm' v) = pending (wt s v)" for v
    using oa(2,4) [of v] by (simp_all add: ev_start_wt)
  have pri: "ABSPRI (wm' v) = ABSPRI (wt s v)" if "v \<noteq> w" for v
    using oa(5) [of v] that by (simp add: ev_start_wt)
  have priw: "ABSPRI (wm' w) < NUMPRI" using oa(5) [of w] ABSPRI_start [of w "int ?k" ?s2] by simp
  have pk: "pend_ok s" using ok by (simp add: timers_ok_def)
  have "pend_ok ?s'" unfolding pend_ok_def
  proof (intro conjI allI impI)
    fix p i assume a: "i < length (pendings ?s' p) \<and> fst (pendings ?s' p ! i) \<noteq> pending_w"
    then have e: "pending (wt s (fst (pendings s p ! i))) = i + 1" "ABSPRI (wt s (fst (pendings s p ! i))) = p"
      using pend_ok_entry [OF pk] by simp_all
    then have "fst (pendings s p ! i) \<noteq> w" using w(4) by auto
    then show "pending (wt ?s' (fst (pendings ?s' p ! i))) = i + 1" "ABSPRI (wt ?s' (fst (pendings ?s' p ! i))) = p"
      using e flds pri by simp_all
  next
    fix v assume a: "v \<noteq> pending_w \<and> pending (wt ?s' v) \<noteq> 0"
    then have v: "v \<noteq> pending_w" "pending (wt s v) \<noteq> 0" "v \<noteq> w" using flds w(4) by auto
    note d = pend_okD [OF pk v(1,2)]
    show "pending (wt ?s' v) \<le> length (pendings ?s' (ABSPRI (wt ?s' v)))" using d(1) v(2) flds pri [OF v(3)] by simp
    show "fst (pendings ?s' (ABSPRI (wt ?s' v)) ! (pending (wt ?s' v) - 1)) = v" using d(2) flds pri [OF v(3)] by simp
  qed (use pk flds in \<open>simp_all add: pend_ok_def\<close>)
  moreover have "pending_events ?s' = pending_events s"
  proof
    fix v show "pending_events ?s' v = pending_events s v"
      using flds(2) [of v] pri [of v] w(4) by (cases "v = w") (simp_all add: pending_events_def)
  qed
  moreover have "v \<noteq> pending_w \<and> ABSPRI (wm' v) < NUMPRI \<and> w_repeat (wm' v) \<ge> 0" if "v \<in> insert w (timer_set s)" for v
  proof (cases "v = w")
    case False
    then show ?thesis using that ok flds(1) [of v] pri [of v] by (simp add: timers_ok_def)
  qed (use priw w(2,3) flds(1) in simp)
  then have "timers_ok ?s'" using push(1) calculation(1) mem by (simp add: timers_ok_def)
  moreover have "w_at (wm' v) = w_at (wt s v)" if "v \<noteq> w" for v using oa(1) [of v] that by (simp add: ev_start_wt)
  moreover have "w_at (wm' w) = ?at" using oa(1) [of w] at3 by simp
  ultimately show ?thesis using mem flds(1) others by (intro exI [of _ ?s'] conjI run) simp_all
qed

section \<open>Periodics\<close>

text \<open>The number of times the loop adds the interval.\<close>

lemma recalc_loop_spec:
  assumes "0 < (ival :: ev_tstamp)"
  shows "\<exists>n. recalc_loop rt ival tm = Some (tm + of_nat n * ival) \<and> rt < tm + of_nat n * ival
    \<and> (n = 0 \<or> tm + of_nat n * ival \<le> rt + ival)"
proof (induction "nat (\<lfloor>(rt - tm) / ival\<rfloor> + 1)" arbitrary: tm rule: less_induct)
  case less
  have e: "(rt - (tm + ival)) / ival = (rt - tm) / ival - 1" using assms by (simp add: field_simps)
  consider "rt < tm" | "tm \<le> rt" "rt < tm + ival" | "tm + ival \<le> rt" by linarith
  then show ?case
  proof cases
    case 1
    then show ?thesis by (intro exI [of _ 0]) (simp add: recalc_loop.simps)
  next
    case 2
    then show ?thesis using assms
      by (intro exI [of _ 1]) (subst recalc_loop.simps, simp add: Let_def recalc_loop.simps [of rt ival "tm + ival"])
  next
    case 3
    then have "0 \<le> (rt - (tm + ival)) / ival" using assms by simp
    then have "nat (\<lfloor>(rt - (tm + ival)) / ival\<rfloor> + 1) < nat (\<lfloor>(rt - tm) / ival\<rfloor> + 1)"
      unfolding e by simp
    from less.hyps [OF this] obtain n where n: "recalc_loop rt ival (tm + ival) = Some (tm + ival + of_nat n * ival)"
      "rt < tm + ival + of_nat n * ival" "n = 0 \<or> tm + ival + of_nat n * ival \<le> rt + ival" by blast
    have "n \<noteq> 0" using n(2) 3 by (cases n) auto
    then show ?thesis using n 3 assms
      by (intro exI [of _ "Suc n"]) (subst recalc_loop.simps, simp add: Let_def algebra_simps)
  qed
qed

text \<open>Timers are queued in the order of their times: with nothing else queued, the entries of a priority,
read from the end as \<open>ev_invoke_pending\<close> does, are its expired timers, earliest first.\<close>

lemma timers_reify_order:
  assumes "timers_ok s" "rfeeds s = []" "\<And>p. pendings s p = []" "timer_due s"
  shows "\<exists>s' es. timers_reify s = Some s' \<and> distinct es \<and> set es = due s
    \<and> sorted_wrt (\<lambda>v w. w_at (wt s v) \<le> w_at (wt s w)) es
    \<and> (\<forall>p. rev (pendings s' p) = map (\<lambda>w. (w, EV_TIMER)) (filter (\<lambda>w. ABSPRI (wt s w) = p) es))"
proof -
  from timers_reify_loop_spec [OF assms(1,4)] obtain s1 es where s1: "timers_reify_loop s = Some s1" "timers_ok s1"
    "all_expired s es s1" by blast
  note e = s1(3) [unfolded all_expired_def]
  have rf: "rfeeds s1 = es" using e assms(2) by simp
  have pk: "pend_ok s" "pend_ok s1" using assms(1) s1(2) by (simp_all add: timers_ok_def)
  have p0: "pending (wt s w) = 0" for w
    using pend_okD(1) [OF pk(1), of w] assms(3) pk(1) by (cases "w = pending_w") (auto simp: pend_ok_def)
  have q: "\<And>w. pending (wt s1 w) = 0" "\<And>p. pendings s1 p = []" using e p0 assms(3) by (auto simp: still_quiet_def)
  have "pendings (feed_reverse_done EV_TIMER s1) p = rev (map (\<lambda>w. (w, EV_TIMER)) (filter (\<lambda>w. ABSPRI (wt s1 w) = p) es))" for p
    using feed_fresh_list [of "rev es" s1 EV_TIMER p] q e rf by (simp add: feed_reverse_done_def rev_map rev_filter)
  then have "\<forall>p. rev (pendings (feed_reverse_done EV_TIMER s1) p) = map (\<lambda>w. (w, EV_TIMER)) (filter (\<lambda>w. ABSPRI (wt s w) = p) es)"
    using e same_settings_members(2) [of "wt s" "wt s1"] by simp
  moreover have "timers_reify s = Some (feed_reverse_done EV_TIMER s1)" using assms(4) s1(1) by (simp add: timers_reify_def)
  ultimately show ?thesis using e by blast
qed

text \<open>What \<open>timers_reify\<close> leaves alone: the periodics and all that the loop adds to the times.\<close>

lemma clear_pending_more [simp]: "ev_times.more (clear_pending w s) = ev_times.more s"
  by (simp add: clear_pending_def Let_def)

lemma feed_more [simp]: "ev_times.more (ev_feed_event w ev s) = ev_times.more s"
  by (simp add: ev_feed_event_def Let_def)

lemma ev_stop_more [simp]: "ev_times.more (ev_stop w s) = ev_times.more s"
  by (simp add: ev_stop_def ev_unref_def)

lemma timer_expire_beyond:
  "timer_expire s = Some s' \<Longrightarrow> periodiccnt s' = periodiccnt s \<and> ev_times.more s' = ev_times.more s"
  by (auto simp: timer_expire_def ev_timer_stop_def Let_def on_timers_def feed_reverse_def split: if_splits)

lemma timers_reify_loop_beyond:
  assumes "timers_reify_loop s = Some s'"
  shows "periodiccnt s' = periodiccnt s \<and> ev_times.more s' = ev_times.more s"
proof (rule timers_reify_loop.raw_induct [of "\<lambda>s s'. periodiccnt s' = periodiccnt s \<and> ev_times.more s' = ev_times.more s", OF _ assms])
  fix rl :: "'a ev_times_scheme \<Rightarrow> 'a ev_times_scheme option" and s s'
  assume ih: "\<And>s s'. rl s = Some s' \<Longrightarrow> periodiccnt s' = periodiccnt s \<and> ev_times.more s' = ev_times.more s"
    and "(case timer_expire s of None \<Rightarrow> None | Some s1 \<Rightarrow> if timer_due s1 then rl s1 else Some s1) = Some s'"
  then obtain s1 where s1: "timer_expire s = Some s1" "(if timer_due s1 then rl s1 else Some s1) = Some s'"
    by (auto split: option.splits)
  then show "periodiccnt s' = periodiccnt s \<and> ev_times.more s' = ev_times.more s"
    using timer_expire_beyond [OF s1(1)] ih [of s1 s'] by (cases "timer_due s1") auto
qed

lemma fold_feed_beyond [simp]:
  "periodiccnt (fold (\<lambda>w. ev_feed_event w ev) ws s) = periodiccnt s"
  "ev_times.more (fold (\<lambda>w. ev_feed_event w ev) ws s) = ev_times.more s"
  by (induction ws arbitrary: s) simp_all

lemma timers_reify_beyond:
  assumes "timers_reify s = Some s'"
  shows "periodiccnt s' = periodiccnt s" "ev_times.more s' = ev_times.more s"
  using assms timers_reify_loop_beyond [of s]
  by (auto simp: timers_reify_def feed_reverse_done_def split: if_splits)

section \<open>Properties\<close>

text \<open>A loop without timers, and one with a one-shot timer (1) and a repeating one (2) that have
  expired when the clock reads 10, for the witnesses.\<close>

definition times_init :: "(wid \<Rightarrow> watcher) \<Rightarrow> ev_times" where
  "times_init ws = \<lparr>wt = ws, activecnt = 0, pendings = (\<lambda>_. []), pendingpri = 0, rfeeds = [], anfds = [], fdchanges = [],
     ev_rt_now = 0, now_floor = 0, mn_now = 0, rtmn_diff = 0, have_monotonic = True,
     timers = (\<lambda>_. \<lparr>ANHE_at = 0, ANHE_w = 0\<rparr>), timercnt = 0, periodics = (\<lambda>_. \<lparr>ANHE_at = 0, ANHE_w = 0\<rparr>), periodiccnt = 0\<rparr>"

definition demo_timers :: "wid \<Rightarrow> watcher" where
  "demo_timers w = ev_timer_set (if w = 1 then 5 else 1) (if w = 1 then 0 else 3) (idle_watcher 0)"

lemma times_init_ok: "timers_ok (times_init demo_timers)" "timer_set (times_init demo_timers) = {}"
  by (simp_all add: timers_ok_def theap_def heap_ok_def cached_def members_def elems_def times_init_def pend_ok_def
      demo_timers_def idle_watcher_def ev_timer_set_def)

lemma demo_expired:
  "\<exists>s :: ev_times. timers_ok s \<and> rfeeds s = [] \<and> timer_set s = {1, 2} \<and> mn_now s = 10 \<and> w_at (wt s 1) = 5 \<and> w_at (wt s 2) = 1
     \<and> w_repeat (wt s 1) = 0 \<and> w_repeat (wt s 2) = 3 \<and> (\<forall>p. pendings s p = []) \<and> activecnt s = 2"
proof -
  let ?s0 = "times_init demo_timers"
  have i: "active (wt ?s0 w) = 0" "w_repeat (wt ?s0 w) \<ge> 0" "pending (wt ?s0 w) = 0" "mn_now ?s0 = 0" "rfeeds ?s0 = []"
    "w_at (wt ?s0 w) = (if w = 1 then 5 else 1)" "w_repeat (wt ?s0 w) = (if w = 1 then 0 else 3)" "pendings ?s0 = (\<lambda>_. [])"
    "activecnt ?s0 = 0" for w
    by (simp_all add: times_init_def demo_timers_def idle_watcher_def ev_timer_set_def)
  have p: "(1 :: wid) \<noteq> pending_w" "(2 :: wid) \<noteq> pending_w" by (simp_all add: pending_w_def)
  from timer_start_spec [OF times_init_ok(1) i(1) p(1) i(2,3)] obtain s1 :: ev_times where s1: "timers_ok s1"
    "timer_set s1 = insert 1 (timer_set ?s0)" "activecnt s1 = activecnt ?s0 + 1" "mn_now s1 = mn_now ?s0" "rfeeds s1 = rfeeds ?s0"
    "w_at (wt s1 1) = w_at (wt ?s0 1) + mn_now ?s0" 
    "\<forall>v. w_repeat (wt s1 v) = w_repeat (wt ?s0 v) \<and> (v \<noteq> 1 \<longrightarrow> w_at (wt s1 v) = w_at (wt ?s0 v))"
    "\<forall>v. v \<notin> timer_set ?s0 \<and> v \<noteq> 1 \<longrightarrow> wt s1 v = wt ?s0 v" "pendings s1 = pendings ?s0" by blast
  have w2: "wt s1 2 = wt ?s0 2" using s1(8) times_init_ok(2) by simp
  have j: "active (wt s1 2) = 0" "w_repeat (wt s1 2) \<ge> 0" "pending (wt s1 2) = 0" unfolding w2 by (rule i)+
  from timer_start_spec [OF s1(1) j(1) p(2) j(2,3)] obtain s2 :: ev_times where s2: "timers_ok s2"
    "timer_set s2 = insert 2 (timer_set s1)" "activecnt s2 = activecnt s1 + 1" "rfeeds s2 = rfeeds s1"
    "w_at (wt s2 2) = w_at (wt s1 2) + mn_now s1"
    "\<forall>v. w_repeat (wt s2 v) = w_repeat (wt s1 v) \<and> (v \<noteq> 2 \<longrightarrow> w_at (wt s2 v) = w_at (wt s1 v))"
    "pendings s2 = pendings s1" by blast
  have s2': "timer_set s2 = {1, 2}" "w_at (wt s2 1) = 5" "w_at (wt s2 2) = 1" "rfeeds s2 = []" "w_repeat (wt s2 1) = 0"
    "w_repeat (wt s2 2) = 3" "\<forall>p. pendings s2 p = []" "activecnt s2 = 2"
    using s1(2-7,9) s2(2-7) w2 times_init_ok(2) by (auto simp: i)
  have "timers_ok (s2\<lparr>mn_now := 10\<rparr>)" using s2(1) pend_ok_cong(1) [of "s2\<lparr>mn_now := 10\<rparr>" s2] by (simp add: timers_ok_def)
  then show ?thesis using s2' by (intro exI [of _ "s2\<lparr>mn_now := 10\<rparr>"]) simp
qed

text \<open>
  C8. \<open>timers_reify\<close> returns; it queues \<open>EV_TIMER\<close> for exactly the timers whose time has passed,
  stops those that do not repeat, reschedules the others one period after their last time but never in
  the past, and leaves no timer behind that is due.
\<close>

theorem timers_reify_fires:
  assumes "timers_ok s" "rfeeds s = []"
  shows "\<exists>s'. timers_reify s = Some s' \<and> timers_ok s' \<and> rfeeds s' = []
    \<and> timer_set s' = timer_set s - {w \<in> due s. w_repeat (wt s w) = 0}
    \<and> (\<forall>w \<in> timer_set s'. mn_now s \<le> w_at (wt s' w))
    \<and> (\<forall>w. w_at (wt s' w) = (if w \<in> due s then next_time s w else w_at (wt s w)))
    \<and> pending_events s' = (\<lambda>w. if w \<in> due s then (if w_repeat (wt s w) = 0 then 0 else pending_events s w) OR EV_TIMER
        else pending_events s w)"
proof (cases "timer_due s")
  case False
  then have d: "due s = {}" using root_due(1) [OF assms(1)] by simp
  then have "\<forall>w \<in> timer_set s. mn_now s \<le> w_at (wt s w)" by (force simp: due_def)
  then show ?thesis using False assms d by (simp add: timers_reify_def)
next
  case True
  from timers_reify_loop_spec [OF assms(1) True] obtain s1 es where s1: "timers_reify_loop s = Some s1" "timers_ok s1"
    "\<not> timer_due s1" "all_expired s es s1" by blast
  note e = s1(4) [unfolded all_expired_def]
  let ?s' = "feed_reverse_done EV_TIMER s1"
  have rf: "rfeeds s1 = es" using e assms(2) by simp
  have fd: "feedable s1 (set (rfeeds s1))"
    using assms(1) e rf same_settings_members(2) [of "wt s" "wt s1"] by (auto simp: feedable_def timers_ok_def due_def)
  have pk: "pend_ok s1" using s1(2) by (simp add: timers_ok_def)
  have fd': "feedable s1 (set (rev (rfeeds s1)))" using fd by simp
  note f = feed_list_spec [OF pk fd' refl, of EV_TIMER]
  have flds: "timer_set ?s' = timer_set s1" "rfeeds ?s' = []" "w_at (wt ?s' w) = w_at (wt s1 w)" for w
    using f(5,6,7) by (simp_all add: feed_reverse_done_def)
  note d = feed_done_timers [OF s1(2) fd, of EV_TIMER]
  have "due s1 = {}" using root_due(1) [OF s1(2)] s1(3) by simp
  then have "\<forall>w \<in> timer_set s1. mn_now s \<le> w_at (wt s1 w)" using e by (force simp: due_def)
  moreover have "pending_events ?s' = (\<lambda>w. if w \<in> due s then (if w_repeat (wt s w) = 0 then 0 else pending_events s w) OR EV_TIMER
      else pending_events s w)"
    unfolding d(2) rf using e by (auto simp: fun_eq_iff)
  moreover have "timers_reify s = Some ?s'" using True s1(1) by (simp add: timers_reify_def)
  ultimately show ?thesis using d(1) flds e by simp
qed

lemma timers_reify_fires_witness:
  "\<exists>s s' :: ev_times. mn_now s = 10 \<and> timers_reify s = Some s' \<and> timer_set s' = {2} \<and> w_at (wt s' 2) = 10 \<and> pending_events s' 1 = EV_TIMER"
proof -
  obtain s :: ev_times where s: "timers_ok s" "rfeeds s = []" "timer_set s = {1, 2}" "mn_now s = 10" "w_at (wt s 1) = 5" "w_at (wt s 2) = 1"
    "w_repeat (wt s 1) = 0" "w_repeat (wt s 2) = 3" using demo_expired by blast
  have d: "due s = {1, 2}" unfolding due_def s(3) using s(4-6) by auto
  have r: "{w \<in> due s. w_repeat (wt s w) = 0} = {1}" unfolding d using s(7,8) by auto
  from timers_reify_fires [OF s(1,2)] obtain s' where s': "timers_reify s = Some s'"
    "timer_set s' = timer_set s - {w \<in> due s. w_repeat (wt s w) = 0}"
    "\<forall>w. w_at (wt s' w) = (if w \<in> due s then next_time s w else w_at (wt s w))"
    "pending_events s' = (\<lambda>w. if w \<in> due s then (if w_repeat (wt s w) = 0 then 0 else pending_events s w) OR EV_TIMER
        else pending_events s w)" by blast
  have "timer_set s' = {2}" unfolding s'(2) r s(3) by auto
  moreover have "w_at (wt s' 2) = 10" using s'(3) s(4,6,8) d by (simp add: next_time_def)
  moreover have "pending_events s' 1 = EV_TIMER" unfolding s'(4) using d s(7) by simp
  ultimately show ?thesis using s'(1) s(4) by blast
qed




definition demo_periodic :: ev_times where
  "demo_periodic = (times_init (\<lambda>w. ev_periodic_set 2 7 None (idle_watcher 0)))\<lparr>ev_rt_now := 100\<rparr>"


end
