(* ===== verification/EvLists.thy ===== *)
theory EvLists
  imports EvTimerLaws
begin

text \<open>
  \<open>libev-4.15/ev.c\<close>: the watchers that live in plain arrays: idle (one array per priority), prepare,
  check, fork and cleanup.  An active watcher knows its index plus one; stopping moves the last
  element into the gap.  The used part of an array is a list, its count is the length (the growth is
  \<open>array_needsize\<close>, see \<open>EvPending\<close>).  The locale \<open>watcher_array\<close> holds the argument the kinds share.
\<close>

section \<open>Translation\<close>

record ev_lists = ev_times +
  idles :: "nat \<Rightarrow> wid list"
  idleall :: int
  prepares :: "wid list"
  checks :: "wid list"
  forks :: "wid list"
  cleanups :: "wid list"

text \<open>\<open>ws [active - 1] = ws [--cnt]; ev_active (ws [active - 1]) = active;\<close> the array behind the count
  still holds its last element, so the assignment is also right when that is the watcher itself.\<close>

definition take_out :: "wid \<Rightarrow> wid list \<Rightarrow> 'a ev_base_scheme \<Rightarrow> wid list \<times> 'a ev_base_scheme" where
  "take_out w ws s =
     (let act = active (wt s w) in
      (butlast (ws[nat act - 1 := last ws]), upd_w (last ws) (\<lambda>x. x\<lparr>active := act\<rparr>) s))"

definition ev_idle_start :: "wid \<Rightarrow> 'a ev_lists_scheme \<Rightarrow> 'a ev_lists_scheme" where
  "ev_idle_start w s =
     (if active (wt s w) \<noteq> 0 then s
      else
        let s1 = pri_adjust w s;
            act = length (idles s1 (ABSPRI (wt s1 w))) + 1;
            s2 = ev_start w (int act) (s1\<lparr>idleall := idleall s1 + 1\<rparr>);
            p = ABSPRI (wt s2 w)
        in s2\<lparr>idles := (idles s2)(p := idles s2 p @ [w])\<rparr>)"

definition ev_idle_stop :: "wid \<Rightarrow> 'a ev_lists_scheme \<Rightarrow> 'a ev_lists_scheme" where
  "ev_idle_stop w s =
     (let s1 = clear_pending w s in
      if active (wt s1 w) = 0 then s1
      else
        let p = ABSPRI (wt s1 w);
            (ws, s2) = take_out w (idles s1 p) s1;
            s3 = ev_stop w (s2\<lparr>idles := (idles s2)(p := ws)\<rparr>)
        in s3\<lparr>idleall := idleall s3 - 1\<rparr>)"

definition ev_prepare_start :: "wid \<Rightarrow> 'a ev_lists_scheme \<Rightarrow> 'a ev_lists_scheme" where
  "ev_prepare_start w s =
     (if active (wt s w) \<noteq> 0 then s
      else let s1 = ev_start w (int (length (prepares s) + 1)) s in s1\<lparr>prepares := prepares s1 @ [w]\<rparr>)"

definition ev_prepare_stop :: "wid \<Rightarrow> 'a ev_lists_scheme \<Rightarrow> 'a ev_lists_scheme" where
  "ev_prepare_stop w s =
     (let s1 = clear_pending w s in
      if active (wt s1 w) = 0 then s1
      else let (ws, s2) = take_out w (prepares s1) s1 in ev_stop w (s2\<lparr>prepares := ws\<rparr>))"

definition ev_check_start :: "wid \<Rightarrow> 'a ev_lists_scheme \<Rightarrow> 'a ev_lists_scheme" where
  "ev_check_start w s =
     (if active (wt s w) \<noteq> 0 then s
      else let s1 = ev_start w (int (length (checks s) + 1)) s in s1\<lparr>checks := checks s1 @ [w]\<rparr>)"

definition ev_check_stop :: "wid \<Rightarrow> 'a ev_lists_scheme \<Rightarrow> 'a ev_lists_scheme" where
  "ev_check_stop w s =
     (let s1 = clear_pending w s in
      if active (wt s1 w) = 0 then s1
      else let (ws, s2) = take_out w (checks s1) s1 in ev_stop w (s2\<lparr>checks := ws\<rparr>))"

definition ev_fork_start :: "wid \<Rightarrow> 'a ev_lists_scheme \<Rightarrow> 'a ev_lists_scheme" where
  "ev_fork_start w s =
     (if active (wt s w) \<noteq> 0 then s
      else let s1 = ev_start w (int (length (forks s) + 1)) s in s1\<lparr>forks := forks s1 @ [w]\<rparr>)"

definition ev_fork_stop :: "wid \<Rightarrow> 'a ev_lists_scheme \<Rightarrow> 'a ev_lists_scheme" where
  "ev_fork_stop w s =
     (let s1 = clear_pending w s in
      if active (wt s1 w) = 0 then s1
      else let (ws, s2) = take_out w (forks s1) s1 in ev_stop w (s2\<lparr>forks := ws\<rparr>))"

text \<open>A cleanup watcher holds no reference.\<close>

definition ev_cleanup_start :: "wid \<Rightarrow> 'a ev_lists_scheme \<Rightarrow> 'a ev_lists_scheme" where
  "ev_cleanup_start w s =
     (if active (wt s w) \<noteq> 0 then s
      else let s1 = ev_start w (int (length (cleanups s) + 1)) s in ev_unref (s1\<lparr>cleanups := cleanups s1 @ [w]\<rparr>))"

definition ev_cleanup_stop :: "wid \<Rightarrow> 'a ev_lists_scheme \<Rightarrow> 'a ev_lists_scheme" where
  "ev_cleanup_stop w s =
     (let s1 = clear_pending w s in
      if active (wt s1 w) = 0 then s1
      else let (ws, s2) = take_out w (cleanups s1) (ev_ref s1) in ev_stop w (s2\<lparr>cleanups := ws\<rparr>))"

text \<open>\<open>for (pri = NUMPRI; pri--; )\<close> with its two breaks.\<close>

fun idle_loop :: "nat \<Rightarrow> 'a ev_lists_scheme \<Rightarrow> 'a ev_lists_scheme" where
  "idle_loop 0 s = s"
| "idle_loop (Suc pri) s =
     (if pendings s pri \<noteq> [] then s
      else if idles s pri \<noteq> [] then queue_events (idles s pri) EV_IDLE s
      else idle_loop pri s)"

definition idle_reify :: "'a ev_lists_scheme \<Rightarrow> 'a ev_lists_scheme" where
  "idle_reify s = (if idleall s \<noteq> 0 then idle_loop NUMPRI s else s)"

section \<open>Arrays whose elements know their index\<close>

text \<open>
  What a kind of watcher provides: \<open>arr\<close> is its array, \<open>kind s w\<close> says that a watcher belongs there
  (for idle watchers: that it has the priority of the array).
\<close>

locale watcher_array =
  fixes arr :: "'s \<Rightarrow> wid list" and wts :: "'s \<Rightarrow> wid \<Rightarrow> watcher" and kind :: "'s \<Rightarrow> wid \<Rightarrow> bool"
    and start :: "wid \<Rightarrow> 's \<Rightarrow> 's" and stop :: "wid \<Rightarrow> 's \<Rightarrow> 's"
  assumes start_again: "active (wts s w) \<noteq> 0 \<Longrightarrow> start w s = s"
    and start_arr: "active (wts s w) = 0 \<Longrightarrow> kind s w \<Longrightarrow> arr (start w s) = arr s @ [w]"
    and start_active: "active (wts s w) = 0 \<Longrightarrow> kind s w \<Longrightarrow>
      active (wts (start w s) v) = (if v = w then int (length (arr s)) + 1 else active (wts s v))"
    and stop_arr: "active (wts s w) \<noteq> 0 \<Longrightarrow> kind s w \<Longrightarrow>
      arr (stop w s) = butlast ((arr s)[nat (active (wts s w)) - 1 := last (arr s)])"
    and stop_active: "active (wts s w) \<noteq> 0 \<Longrightarrow> kind s w \<Longrightarrow>
      active (wts (stop w s) v) = (if v = w then 0 else if v = last (arr s) then active (wts s w) else active (wts s v))"
    and stop_again: "active (wts s w) = 0 \<Longrightarrow> arr (stop w s) = arr s \<and> active (wts (stop w s) v) = active (wts s v)"
begin

definition arr_ok :: "'s \<Rightarrow> bool" where
  "arr_ok s \<longleftrightarrow> (\<forall>i < length (arr s). active (wts s (arr s ! i)) = int i + 1)"

lemma arr_ok_nth: "arr_ok s \<Longrightarrow> i < length (arr s) \<Longrightarrow> active (wts s (arr s ! i)) = int i + 1"
  by (simp add: arr_ok_def)

lemma arr_ok_member: "arr_ok s \<Longrightarrow> w \<in> set (arr s) \<Longrightarrow> active (wts s w) > 0"
  by (auto simp: in_set_conv_nth arr_ok_def)

lemma arr_ok_distinct: "arr_ok s \<Longrightarrow> distinct (arr s)"
  unfolding distinct_conv_nth arr_ok_def by (metis add_right_cancel of_nat_eq_iff)

lemma start_ok:
  assumes "arr_ok s" "active (wts s w) = 0" "kind s w"
  shows "arr_ok (start w s)" "set (arr (start w s)) = insert w (set (arr s))"
proof -
  have "w \<notin> set (arr s)" using arr_ok_member [OF assms(1)] assms(2) by fastforce
  then have "arr s ! i \<noteq> w" if "i < length (arr s)" for i using that by (metis nth_mem)
  then show "arr_ok (start w s)"
    using assms by (auto simp: arr_ok_def start_arr start_active nth_append less_Suc_eq)
  show "set (arr (start w s)) = insert w (set (arr s))" using assms by (simp add: start_arr)
qed

lemma stop_ok:
  assumes "arr_ok s" "w \<in> set (arr s)" "kind s w"
  shows "arr_ok (stop w s)" "set (arr (stop w s)) = set (arr s) - {w}"
    "mset (arr (stop w s)) = mset (arr s) - {#w#}" "active (wts (stop w s) w) = 0"
proof -
  obtain k where k: "k < length (arr s)" "arr s ! k = w" using assms(2) by (auto simp: in_set_conv_nth)
  let ?n = "length (arr s) - 1"
  have n: "?n < length (arr s)" "length (arr s) = Suc ?n" using k(1) by auto
  have act: "active (wts s w) = int k + 1" using arr_ok_nth [OF assms(1) k(1)] k(2) by simp
  then have a0: "active (wts s w) \<noteq> 0" "nat (active (wts s w)) - 1 = k" by auto
  have l: "last (arr s) = arr s ! ?n" using k(1) by (intro last_conv_nth) auto
  have r: "arr (stop w s) = butlast ((arr s)[k := arr s ! ?n])"
    using stop_arr [OF a0(1) assms(3)] a0(2) l by simp
  have d: "distinct (arr s)" by (rule arr_ok_distinct [OF assms(1)])
  have ne: "arr s ! i \<noteq> arr s ! j" if "i < length (arr s)" "j < length (arr s)" "i \<noteq> j" for i j
    using d that by (simp add: nth_eq_iff_index_eq)
  show "arr_ok (stop w s)"
    unfolding arr_ok_def
  proof (intro allI impI)
    fix i assume i: "i < length (arr (stop w s))"
    then have i': "i < ?n" by (simp add: r)
    have e: "arr (stop w s) ! i = (if i = k then arr s ! ?n else arr s ! i)"
      using i' by (simp add: r nth_butlast nth_list_update)
    show "active (wts (stop w s) (arr (stop w s) ! i)) = int i + 1"
    proof (cases "i = k")
      case True
      then have "arr s ! ?n \<noteq> w" using ne [of ?n k] i' k n by auto
      then show ?thesis unfolding e using True act by (simp add: stop_active [OF a0(1) assms(3)] l)
    next
      case False
      then have "arr s ! i \<noteq> w" "arr s ! i \<noteq> arr s ! ?n" using ne [of i k] ne [of i ?n] i' k n by auto
      then show ?thesis unfolding e using False i' n arr_ok_nth [OF assms(1), of i]
        by (simp add: stop_active [OF a0(1) assms(3)] l)
    qed
  qed
  have lu: "(arr s)[k := arr s ! ?n] \<noteq> []" using k(1) by auto
  have "last ((arr s)[k := arr s ! ?n]) = arr s ! ?n"
    using lu n k(1) by (cases "k = ?n") (simp_all add: last_conv_nth)
  then have "(arr s)[k := arr s ! ?n] = arr (stop w s) @ [arr s ! ?n]"
    using append_butlast_last_id [OF lu] r by simp
  then have "mset ((arr s)[k := arr s ! ?n]) = add_mset (arr s ! ?n) (mset (arr (stop w s)))" by simp
  then have "add_mset (arr s ! ?n) (mset (arr s) - {#w#}) = add_mset (arr s ! ?n) (mset (arr (stop w s)))"
    using k by (simp add: mset_update)
  then show m: "mset (arr (stop w s)) = mset (arr s) - {#w#}" by simp
  then have "mset (arr (stop w s)) = mset (remove1 w (arr s))" by simp
  then have "set (arr (stop w s)) = set (remove1 w (arr s))" by (rule mset_eq_setD)
  then show "set (arr (stop w s)) = set (arr s) - {w}" using d by (simp add: set_remove1_eq)
  show "active (wts (stop w s) w) = 0" using stop_active [OF a0(1) assms(3)] by simp
qed

end

section \<open>The five kinds\<close>

lemma take_out_simps [simp]:
  "fst (take_out w ws s) = butlast (ws[nat (active (wt s w)) - 1 := last ws])"
  "snd (take_out w ws s) = upd_w (last ws) (\<lambda>x. x\<lparr>active := active (wt s w)\<rparr>) s"
  by (simp_all add: take_out_def Let_def)

lemma clear_pending_lists [simp]:
  "idles (clear_pending w s) = idles s" "idleall (clear_pending w s) = idleall s" "prepares (clear_pending w s) = prepares s"
  "checks (clear_pending w s) = checks s" "forks (clear_pending w s) = forks s" "cleanups (clear_pending w s) = cleanups s"
  by (simp_all add: clear_pending_def Let_def)

lemma ev_stop_lists [simp]:
  "idles (ev_stop w s) = idles s" "idleall (ev_stop w s) = idleall s" "prepares (ev_stop w s) = prepares s"
  "checks (ev_stop w s) = checks s" "forks (ev_stop w s) = forks s" "cleanups (ev_stop w s) = cleanups s"
  by (simp_all add: ev_stop_def ev_unref_def)

lemma ev_start_lists [simp]:
  "idles (ev_start w k s) = idles s" "idleall (ev_start w k s) = idleall s" "prepares (ev_start w k s) = prepares s"
  "checks (ev_start w k s) = checks s" "forks (ev_start w k s) = forks s" "cleanups (ev_start w k s) = cleanups s"
  by (simp_all add: ev_start_def ev_ref_def pri_adjust_def Let_def)

lemma ev_refs [simp]: "wt (ev_unref s) = wt s" "wt (ev_ref s) = wt s"
  "cleanups (ev_unref s) = cleanups (s :: 'a ev_lists_scheme)" "cleanups (ev_ref s) = cleanups s"
  by (simp_all add: ev_unref_def ev_ref_def)

lemma pri_adjust_lists [simp]:
  "idles (pri_adjust w s) = idles s" "idleall (pri_adjust w s) = idleall s"
  "active (wt (pri_adjust w s) v) = active (wt s v)"
  by (simp_all add: pri_adjust_def Let_def ev_set_priority_def)

lemma ev_start_active: "active (wt (ev_start w k s) v) = (if v = w then k else active (wt s v))"
  by (simp add: ev_start_wt)

lemmas array_ops = ev_prepare_start_def ev_prepare_stop_def ev_check_start_def ev_check_stop_def ev_fork_start_def
  ev_fork_stop_def ev_cleanup_start_def ev_cleanup_stop_def Let_def split_beta ev_start_active

interpretation prep: watcher_array prepares wt "\<lambda>_ _. True" ev_prepare_start ev_prepare_stop
  by unfold_locales (simp_all add: array_ops)

interpretation chk: watcher_array checks wt "\<lambda>_ _. True" ev_check_start ev_check_stop
  by unfold_locales (simp_all add: array_ops)

interpretation frk: watcher_array forks wt "\<lambda>_ _. True" ev_fork_start ev_fork_stop
  by unfold_locales (simp_all add: array_ops)

interpretation cln: watcher_array cleanups wt "\<lambda>_ _. True" ev_cleanup_start ev_cleanup_stop
  by unfold_locales (simp_all add: array_ops)

text \<open>For idle watchers the array is chosen by the priority, which \<open>pri_adjust\<close> first brings into range.\<close>

definition clamped :: "watcher \<Rightarrow> nat" where
  "clamped x = ABSPRI (x\<lparr>priority := (if priority x < EV_MINPRI then EV_MINPRI
     else if priority x > EV_MAXPRI then EV_MAXPRI else priority x)\<rparr>)"

lemma clamped_less: "clamped x < NUMPRI"
  by (auto simp: clamped_def ABSPRI_def EV_MINPRI_def EV_MAXPRI_def)

lemma clamped_id: "ABSPRI x < NUMPRI \<Longrightarrow> priority x \<ge> EV_MINPRI \<Longrightarrow> clamped x = ABSPRI x"
  by (auto simp: clamped_def ABSPRI_def EV_MINPRI_def EV_MAXPRI_def)

lemma pri_adjust_clamped: "ABSPRI (wt (pri_adjust w s) w) = clamped (wt s w)"
  by (auto simp: pri_adjust_def Let_def ev_set_priority_def clamped_def ABSPRI_def EV_MINPRI_def EV_MAXPRI_def)

lemma ev_start_clamped: "ABSPRI (wt (ev_start w k s) w) = clamped (wt s w)"
  by (auto simp: ev_start_wt clamped_def ABSPRI_def)

lemma clamped_twice: "clamped (wt (pri_adjust w s) w) = clamped (wt s w)"
  by (auto simp: pri_adjust_def Let_def ev_set_priority_def clamped_def ABSPRI_def EV_MINPRI_def EV_MAXPRI_def)

lemma idle_start_eq:
  assumes "active (wt s w) = 0"
  shows "idles (ev_idle_start w s) = (idles s)(clamped (wt s w) := idles s (clamped (wt s w)) @ [w])"
    "active (wt (ev_idle_start w s) v) = (if v = w then int (length (idles s (clamped (wt s w)))) + 1 else active (wt s v))"
    "idleall (ev_idle_start w s) = idleall s + 1"
  using assms by (simp_all add: ev_idle_start_def Let_def pri_adjust_clamped ev_start_clamped clamped_twice ev_start_active)

lemma idle_start_again: "active (wt s w) \<noteq> 0 \<Longrightarrow> ev_idle_start w s = s"
  by (simp add: ev_idle_start_def)

interpretation idl: watcher_array "\<lambda>s :: 'a ev_lists_scheme. idles s p" wt
    "\<lambda>s w. clamped (wt s w) = p \<and> (active (wt s w) \<noteq> 0 \<longrightarrow> ABSPRI (wt s w) = p)" ev_idle_start ev_idle_stop for p
  by unfold_locales
    (auto simp: idle_start_eq idle_start_again ev_idle_stop_def Let_def split_beta)

section \<open>Properties\<close>

definition indexed :: "(wid \<Rightarrow> watcher) \<Rightarrow> wid list \<Rightarrow> bool" where
  "indexed wm ws \<longleftrightarrow> (\<forall>i < length ws. active (wm (ws ! i)) = int i + 1)"

lemma arr_ok_indexed:
  "prep.arr_ok s = indexed (wt s) (prepares s)" "chk.arr_ok s = indexed (wt s) (checks s)"
  "frk.arr_ok s = indexed (wt s) (forks s)" "cln.arr_ok s = indexed (wt s) (cleanups s)"
  "idl.arr_ok p s = indexed (wt s) (idles s p)"
  by (simp_all add: prep.arr_ok_def chk.arr_ok_def frk.arr_ok_def cln.arr_ok_def idl.arr_ok_def indexed_def)

definition lists_init :: "(wid \<Rightarrow> watcher) \<Rightarrow> ev_lists" where
  "lists_init ws = \<lparr>wt = ws, activecnt = 0, pendings = (\<lambda>_. []), pendingpri = 0, rfeeds = [], anfds = [], fdchanges = [],
     ev_rt_now = 0, now_floor = 0, mn_now = 0, rtmn_diff = 0, have_monotonic = True,
     timers = (\<lambda>_. \<lparr>ANHE_at = 0, ANHE_w = 0\<rparr>), timercnt = 0, periodics = (\<lambda>_. \<lparr>ANHE_at = 0, ANHE_w = 0\<rparr>), periodiccnt = 0,
     idles = (\<lambda>_. []), idleall = 0, prepares = [], checks = [], forks = [], cleanups = []\<rparr>"

definition three_prepares :: ev_lists where
  "three_prepares = ev_prepare_start 3 (ev_prepare_start 2 (ev_prepare_start 1 (lists_init (\<lambda>_. idle_watcher 0))))"

definition stop_keeps :: "('s \<Rightarrow> wid list) \<Rightarrow> ('s \<Rightarrow> wid \<Rightarrow> watcher) \<Rightarrow> (wid \<Rightarrow> 's \<Rightarrow> 's) \<Rightarrow> wid \<Rightarrow> 's \<Rightarrow> bool" where
  "stop_keeps arr wts stop w s \<longleftrightarrow>
     (indexed (wts s) (arr s) \<and> w \<in> set (arr s) \<longrightarrow>
        indexed (wts (stop w s)) (arr (stop w s)) \<and> set (arr (stop w s)) = set (arr s) - {w}
      \<and> mset (arr (stop w s)) = mset (arr s) - {#w#} \<and> active (wts (stop w s) w) = 0)"

text \<open>
  C19. Stopping a watcher that lives in an array takes it, and only it, out of the array; the watchers
  that stay, the moved one included, still know their index.  This holds for each of the five kinds.
\<close>

text \<open>
  C19. Stopping a watcher that lives in an array takes it, and only it, out of the array; the watchers
  that stay, the moved one included, still know their index.  This holds for each of the five kinds
  (for an idle watcher, in the array of its priority).
\<close>

theorem array_stop_keeps_index:
  assumes "clamped (wt s w) = p" "ABSPRI (wt s w) = p"
  shows "stop_keeps (\<lambda>s. idles s p) wt ev_idle_stop w s \<and> stop_keeps prepares wt ev_prepare_stop w s
    \<and> stop_keeps checks wt ev_check_stop w s \<and> stop_keeps forks wt ev_fork_stop w s
    \<and> stop_keeps cleanups wt ev_cleanup_stop w s"
  using assms idl.stop_ok [of p s w] prep.stop_ok [of s w] chk.stop_ok [of s w] frk.stop_ok [of s w] cln.stop_ok [of s w]
  by (simp add: stop_keeps_def arr_ok_indexed)

lemma three_prepares_ok: "prepares three_prepares = [1, 2, 3]" "indexed (wt three_prepares) (prepares three_prepares)"
  "clamped (wt three_prepares 1) = 2" "ABSPRI (wt three_prepares 1) = 2"
  by (simp_all add: three_prepares_def lists_init_def ev_prepare_start_def Let_def idle_watcher_def ev_start_wt
      indexed_def clamped_def ABSPRI_def EV_MINPRI_def EV_MAXPRI_def less_Suc_eq numeral_3_eq_3 nth_Cons')

lemma array_stop_keeps_index_witness:
  "set (prepares (ev_prepare_stop 1 three_prepares)) = {2, 3} \<and> indexed (wt (ev_prepare_stop 1 three_prepares)) (prepares (ev_prepare_stop 1 three_prepares))"
proof -
  have "stop_keeps prepares wt ev_prepare_stop 1 three_prepares"
    using array_stop_keeps_index [OF three_prepares_ok(3,4)] by blast
  then show ?thesis using three_prepares_ok(1,2) by (auto simp: stop_keeps_def)
qed

text \<open>What \<open>idle_reify\<close> promises: idle watchers run only when nothing of their priority or above is pending.\<close>

lemma queue_events_spec:
  fixes s :: "'a ev_lists_scheme"
  assumes "pend_ok s" "feedable s (set ws)"
  shows "pend_ok (queue_events ws ev s)"
    "pending_events (queue_events ws ev s) = (\<lambda>v. if v \<in> set ws then pending_events s v OR ev else pending_events s v)"
  using feed_list_spec(1,2) [OF assms refl, of ev] by (simp_all add: queue_events_def)

lemma idle_loop_busy:
  assumes "pendings s q \<noteq> []" "p \<le> q" "q < n" "\<And>r. p < r \<Longrightarrow> r < n \<Longrightarrow> idles s r = []"
    "idles s p \<noteq> [] \<longrightarrow> pendings s p \<noteq> [] \<or> p < q"
  shows "idle_loop n s = s"
  using assms
proof (induction n)
  case (Suc n)
  show ?case
  proof (cases "pendings s n = []")
    case True
    then have "q \<noteq> n" using Suc.prems(1) by auto
    then have "q < n" "n \<noteq> p" using Suc.prems(2,3) by auto
    then show ?thesis using True Suc by simp
  qed simp
qed simp

lemma idle_loop_quiet:
  assumes "p < n" "idles s p \<noteq> []" "\<And>r. p < r \<Longrightarrow> r < n \<Longrightarrow> idles s r = []" "\<And>r. p \<le> r \<Longrightarrow> r < n \<Longrightarrow> pendings s r = []"
  shows "idle_loop n s = queue_events (idles s p) EV_IDLE s"
  using assms
proof (induction n)
  case (Suc n)
  then show ?case by (cases "n = p") auto
qed simp

text \<open>
  C23. \<open>idle_reify\<close> lets exactly the idle watchers of the highest priority run, and only when nothing of
  that priority or a higher one is pending; otherwise it queues nothing.
\<close>

theorem idle_reify_only_when_idle:
  assumes "pend_ok s" "p < NUMPRI" "idles s p \<noteq> []" "\<And>r. p < r \<Longrightarrow> r < NUMPRI \<Longrightarrow> idles s r = []" "idleall s \<noteq> 0"
    and "\<And>w. w \<in> set (idles s p) \<Longrightarrow> w \<noteq> pending_w \<and> ABSPRI (wt s w) = p"
  shows "pend_ok (idle_reify s) \<and> pending_events (idle_reify s) =
    (\<lambda>w. if w \<in> set (idles s p) \<and> (\<forall>r. p \<le> r \<and> r < NUMPRI \<longrightarrow> pendings s r = []) then EV_IDLE else pending_events s w)"
proof (cases "\<forall>r. p \<le> r \<and> r < NUMPRI \<longrightarrow> pendings s r = []")
  case True
  have e: "idle_reify s = queue_events (idles s p) EV_IDLE s"
    using idle_loop_quiet [OF assms(2-4)] True assms(5) by (simp add: idle_reify_def)
  have f: "feedable s (set (idles s p))" using assms(2,6) by (auto simp: feedable_def)
  have "pending_events s w = 0" if "w \<in> set (idles s p)" for w
  proof -
    have "pending (wt s w) = 0" using pend_okD(1) [OF assms(1), of w] assms(2,6) that True by force
    then show ?thesis by (simp add: pending_events_def)
  qed
  then show ?thesis unfolding e using queue_events_spec [OF assms(1) f, of EV_IDLE] True by (auto simp: fun_eq_iff)
next
  case False
  then obtain r where r: "p \<le> r" "r < NUMPRI" "pendings s r \<noteq> []" by blast
  have "idle_loop NUMPRI s = s"
    by (rule idle_loop_busy [OF r(3,1,2)]) (use assms(4) r in \<open>auto simp: le_less\<close>)
  then have "idle_reify s = s" by (simp add: idle_reify_def)
  then show ?thesis using False assms(1) by (simp only: simp_thms if_False)
qed

definition one_idle :: ev_lists where
  "one_idle = ev_idle_start 1 (lists_init (\<lambda>_. idle_watcher 0))"

lemma idle_reify_only_when_idle_witness: "pending_events (idle_reify one_idle) 1 = EV_IDLE"
proof -
  have i: "idles one_idle = (\<lambda>_. [])(2 := [1])" "idleall one_idle = 1" "pend_ok one_idle" "ABSPRI (wt one_idle 1) = 2"
    "pendings one_idle = (\<lambda>_. [])"
    by (simp_all add: one_idle_def lists_init_def ev_idle_start_def pri_adjust_def Let_def idle_watcher_def ev_start_def ev_ref_def
        ev_set_priority_def ABSPRI_def EV_MINPRI_def EV_MAXPRI_def pend_ok_def fun_eq_iff)
  have "pending_events (idle_reify one_idle) = (\<lambda>w. if w \<in> set (idles one_idle 2)
      \<and> (\<forall>r. 2 \<le> r \<and> r < NUMPRI \<longrightarrow> pendings one_idle r = []) then EV_IDLE else pending_events one_idle w)"
    by (rule conjunct2 [OF idle_reify_only_when_idle [OF i(3)]])
      (use i(4) in \<open>simp_all add: i pending_w_def EV_MAXPRI_def EV_MINPRI_def NUMPRI_def\<close>)
  then show ?thesis by (simp add: i)
qed

end
