(* ===== verification/EvSignal.thy ===== *)
theory EvSignal
  imports EvLists
begin

text \<open>
  \<open>libev-4.15/ev.c\<close>: waking the loop from outside.  A signal handler or another thread sets a flag and
  writes to a pipe of the loop (\<open>evpipe_write\<close>); \<open>pipecb\<close> turns the flags into events of the signal,
  child and async watchers.  This theory is the sequential code; \<open>EvWakeup\<close> takes its steps apart.
  What the system returns (descriptors, \<open>waitpid\<close>, the status tests) is a parameter.  \<open>signals\<close> belongs
  to the process: \<open>sig_loop\<close> holds the loop a signal is attached to, this loop being \<open>this_loop\<close>.  The
  \<open>signalfd\<close> path needs the flag \<open>EVFLAG_SIGNALFD\<close> and is not modelled (\<open>sigfd\<close> is negative).
\<close>

section \<open>Translation: the pipe\<close>

record ev_pipe = ev_lists +
  asyncs :: "wid list"
  pipe_w :: wid
  evpipe0 :: int
  evpipe1 :: int
  pipe_bytes :: nat
  pipe_write_wanted :: bool
  pipe_write_skipped :: bool
  sig_pending :: bool
  async_pending :: bool
  sig_loop :: "nat \<Rightarrow> nat option"
  sig_pend :: "nat \<Rightarrow> bool"
  sig_head :: "nat \<Rightarrow> wid option"
  childs :: "nat \<Rightarrow> wid option"

definition this_loop :: nat where "this_loop = 0"

text \<open>\<open>NSIG\<close> of Linux.\<close>

definition EV_NSIG :: nat where "EV_NSIG = 65"
definition EV_PID_HASHSIZE :: nat where "EV_PID_HASHSIZE = 16"

text \<open>\<open>fds\<close> are the descriptors that \<open>eventfd\<close> or \<open>pipe\<close> return.\<close>

definition evpipe_init :: "int \<times> int \<Rightarrow> 'a ev_pipe_scheme \<Rightarrow> 'a ev_pipe_scheme option" where
  "evpipe_init fds s =
     (if active (wt s (pipe_w s)) \<noteq> 0 then Some s
      else
        let s1 = s\<lparr>evpipe0 := fst fds\<rparr>;
            s2 = (if evpipe1 s1 < 0 then s1\<lparr>evpipe1 := snd fds\<rparr> else s1);
            s3 = upd_w (pipe_w s2) (ev_io_set (if evpipe0 s2 < 0 then evpipe1 s2 else evpipe0 s2) EV_READ) s2
        in map_option ev_unref (ev_io_start (pipe_w s3) s3))"

datatype wake_flag = SigFlag | AsyncFlag

fun get_flag :: "wake_flag \<Rightarrow> 'a ev_pipe_scheme \<Rightarrow> bool" where
  "get_flag SigFlag s = sig_pending s"
| "get_flag AsyncFlag s = async_pending s"

fun set_flag :: "wake_flag \<Rightarrow> bool \<Rightarrow> 'a ev_pipe_scheme \<Rightarrow> 'a ev_pipe_scheme" where
  "set_flag SigFlag b s = s\<lparr>sig_pending := b\<rparr>"
| "set_flag AsyncFlag b s = s\<lparr>async_pending := b\<rparr>"

definition evpipe_write :: "wake_flag \<Rightarrow> 'a ev_pipe_scheme \<Rightarrow> 'a ev_pipe_scheme" where
  "evpipe_write flag s =
     (if get_flag flag s then s
      else
        let s2 = (set_flag flag True s)\<lparr>pipe_write_skipped := True\<rparr> in
        if pipe_write_wanted s2 then s2\<lparr>pipe_write_skipped := False, pipe_bytes := pipe_bytes s2 + 1\<rparr> else s2)"

section \<open>Translation: signals\<close>

definition ev_feed_signal :: "nat \<Rightarrow> 'a ev_pipe_scheme \<Rightarrow> 'a ev_pipe_scheme" where
  "ev_feed_signal sg s =
     (case sig_loop s (sg - 1) of
        None \<Rightarrow> s
      | Some l \<Rightarrow>
          let s1 = s\<lparr>sig_pend := (sig_pend s)(sg - 1 := True)\<rparr> in
          if l = this_loop then evpipe_write SigFlag s1 else s1)"

definition ev_sighandler :: "nat \<Rightarrow> 'a ev_pipe_scheme \<Rightarrow> 'a ev_pipe_scheme" where
  "ev_sighandler sg s = ev_feed_signal sg s"

partial_function (option) feed_wlist :: "evmask \<Rightarrow> wid option \<Rightarrow> 'a ev_pipe_scheme \<Rightarrow> 'a ev_pipe_scheme option" where
  "feed_wlist ev p s =
     (case p of
        None \<Rightarrow> Some s
      | Some w \<Rightarrow> (let s1 = ev_feed_event w ev s in feed_wlist ev (w_next (wt s1 w)) s1))"

definition ev_feed_signal_event :: "int \<Rightarrow> 'a ev_pipe_scheme \<Rightarrow> 'a ev_pipe_scheme option" where
  "ev_feed_signal_event sg s =
     (if sg \<le> 0 \<or> sg \<ge> int EV_NSIG then Some s
      else
        let i = nat (sg - 1) in
        if sig_loop s i \<noteq> Some this_loop then Some s
        else feed_wlist EV_SIGNAL (sig_head s i) (s\<lparr>sig_pend := (sig_pend s)(i := False)\<rparr>))"

text \<open>\<open>for (i = EV_NSIG - 1; i--; )\<close>\<close>

fun signals_loop :: "nat \<Rightarrow> 'a ev_pipe_scheme \<Rightarrow> 'a ev_pipe_scheme option" where
  "signals_loop 0 s = Some s"
| "signals_loop (Suc i) s =
     (if sig_pend s i
      then (case ev_feed_signal_event (int i + 1) s of None \<Rightarrow> None | Some s' \<Rightarrow> signals_loop i s')
      else signals_loop i s)"

text \<open>\<open>for (i = asynccnt; i--; )\<close>\<close>

fun asyncs_loop :: "nat \<Rightarrow> 'a ev_pipe_scheme \<Rightarrow> 'a ev_pipe_scheme" where
  "asyncs_loop 0 s = s"
| "asyncs_loop (Suc i) s =
     (let w = asyncs s ! i in
      asyncs_loop i
        (if async_sent (wt s w) then ev_feed_event w EV_ASYNC (upd_w w (\<lambda>x. x\<lparr>async_sent := False\<rparr>) s) else s))"

text \<open>An eventfd is emptied by one read, from a pipe at most four bytes are read.\<close>

definition pipecb :: "evmask \<Rightarrow> 'a ev_pipe_scheme \<Rightarrow> 'a ev_pipe_scheme option" where
  "pipecb revents s =
     (let s1 = (if revents AND EV_READ \<noteq> 0
                then s\<lparr>pipe_bytes := (if evpipe0 s < 0 then 0 else pipe_bytes s - 4)\<rparr> else s);
          s2 = s1\<lparr>pipe_write_skipped := False\<rparr>
      in case (if sig_pending s2 then signals_loop (EV_NSIG - 1) (s2\<lparr>sig_pending := False\<rparr>) else Some s2) of
           None \<Rightarrow> None
         | Some s3 \<Rightarrow>
             Some (if async_pending s3 then asyncs_loop (length (asyncs s3)) (s3\<lparr>async_pending := False\<rparr>) else s3))"

definition ev_signal_start :: "int \<times> int \<Rightarrow> wid \<Rightarrow> 'a ev_pipe_scheme \<Rightarrow> 'a ev_pipe_scheme option" where
  "ev_signal_start fds w s =
     (if active (wt s w) \<noteq> 0 then Some s
      else if \<not> (signum (wt s w) > 0 \<and> signum (wt s w) < int EV_NSIG) then None
      else
        let i = nat (signum (wt s w) - 1) in
        if \<not> (sig_loop s i = None \<or> sig_loop s i = Some this_loop) then None
        else
          let s1 = ev_start w 1 (s\<lparr>sig_loop := (sig_loop s)(i := Some this_loop)\<rparr>);
              (h, wm) = wlist_add w (sig_head s1 i, wt s1);
              s2 = s1\<lparr>sig_head := (sig_head s1)(i := h), wt := wm\<rparr>
          in if w_next (wt s2 w) = None then evpipe_init fds s2 else Some s2)"

definition ev_signal_stop :: "wid \<Rightarrow> 'a ev_pipe_scheme \<Rightarrow> 'a ev_pipe_scheme option" where
  "ev_signal_stop w s =
     (let s1 = clear_pending w s in
      if active (wt s1 w) = 0 then Some s1
      else
        let i = nat (signum (wt s1 w) - 1) in
        case wlist_del w (sig_head s1 i, wt s1) of
          None \<Rightarrow> None
        | Some (h, wm) \<Rightarrow>
            let s2 = ev_stop w (s1\<lparr>sig_head := (sig_head s1)(i := h), wt := wm\<rparr>) in
            Some (if sig_head s2 i = None then s2\<lparr>sig_loop := (sig_loop s2)(i := None)\<rparr> else s2))"

section \<open>Translation: async watchers\<close>

definition ev_async_start :: "int \<times> int \<Rightarrow> wid \<Rightarrow> 'a ev_pipe_scheme \<Rightarrow> 'a ev_pipe_scheme option" where
  "ev_async_start fds w s =
     (if active (wt s w) \<noteq> 0 then Some s
      else
        map_option (\<lambda>s1. let s2 = ev_start w (int (length (asyncs s1) + 1)) s1 in s2\<lparr>asyncs := asyncs s2 @ [w]\<rparr>)
          (evpipe_init fds (upd_w w (\<lambda>x. x\<lparr>async_sent := False\<rparr>) s)))"

definition ev_async_stop :: "wid \<Rightarrow> 'a ev_pipe_scheme \<Rightarrow> 'a ev_pipe_scheme" where
  "ev_async_stop w s =
     (let s1 = clear_pending w s in
      if active (wt s1 w) = 0 then s1
      else let (ws, s2) = take_out w (asyncs s1) s1 in ev_stop w (s2\<lparr>asyncs := ws\<rparr>))"

definition ev_async_send :: "wid \<Rightarrow> 'a ev_pipe_scheme \<Rightarrow> 'a ev_pipe_scheme" where
  "ev_async_send w s = evpipe_write AsyncFlag (upd_w w (\<lambda>x. x\<lparr>async_sent := True\<rparr>) s)"

section \<open>Translation: child watchers\<close>

text \<open>\<open>pid & (EV_PID_HASHSIZE - 1)\<close>\<close>

definition pid_chain :: "int \<Rightarrow> nat" where
  "pid_chain pd = nat (pd AND (int EV_PID_HASHSIZE - 1))"

text \<open>\<open>traced\<close> stands for \<open>WIFSTOPPED (status) || WIFCONTINUED (status)\<close>.\<close>

partial_function (option) child_loop ::
    "(int \<Rightarrow> bool) \<Rightarrow> int \<Rightarrow> int \<Rightarrow> wid option \<Rightarrow> 'a ev_pipe_scheme \<Rightarrow> 'a ev_pipe_scheme option" where
  "child_loop traced pd status p s =
     (case p of
        None \<Rightarrow> Some s
      | Some w \<Rightarrow>
          (let s1 = (if (child_pid (wt s w) = pd \<or> child_pid (wt s w) = 0)
                       \<and> (\<not> traced status \<or> child_flags (wt s w) AND 1 \<noteq> 0)
                     then ev_feed_event w EV_CHILD
                       (upd_w w (\<lambda>x. (ev_set_priority EV_MAXPRI x)\<lparr>child_rpid := pd, child_rstatus := status\<rparr>) s)
                     else s)
           in child_loop traced pd status (w_next (wt s1 w)) s1))"

definition child_reap :: "(int \<Rightarrow> bool) \<Rightarrow> int \<Rightarrow> int \<Rightarrow> int \<Rightarrow> 'a ev_pipe_scheme \<Rightarrow> 'a ev_pipe_scheme option" where
  "child_reap traced ch pd status s = child_loop traced pd status (childs s (pid_chain ch)) s"

text \<open>\<open>wait\<close> is the result of the \<open>waitpid\<close> calls: nothing, or a process and its status.\<close>

definition childcb :: "(int \<Rightarrow> bool) \<Rightarrow> (int \<times> int) option \<Rightarrow> wid \<Rightarrow> 'a ev_pipe_scheme \<Rightarrow> 'a ev_pipe_scheme option" where
  "childcb traced wait sw s =
     (case wait of
        None \<Rightarrow> Some s
      | Some (pd, status) \<Rightarrow>
          (case child_reap traced pd pd status (ev_feed_event sw EV_SIGNAL s) of
             None \<Rightarrow> None
           | Some s1 \<Rightarrow> if EV_PID_HASHSIZE > 1 then child_reap traced 0 pd status s1 else Some s1))"

definition ev_child_start :: "wid \<Rightarrow> 'a ev_pipe_scheme \<Rightarrow> 'a ev_pipe_scheme" where
  "ev_child_start w s =
     (if active (wt s w) \<noteq> 0 then s
      else
        let s1 = ev_start w 1 s; i = pid_chain (child_pid (wt s1 w));
            (h, wm) = wlist_add w (childs s1 i, wt s1)
        in s1\<lparr>childs := (childs s1)(i := h), wt := wm\<rparr>)"

definition ev_child_stop :: "wid \<Rightarrow> 'a ev_pipe_scheme \<Rightarrow> 'a ev_pipe_scheme option" where
  "ev_child_stop w s =
     (let s1 = clear_pending w s in
      if active (wt s1 w) = 0 then Some s1
      else
        let i = pid_chain (child_pid (wt s1 w)) in
        map_option (\<lambda>(h, wm). ev_stop w (s1\<lparr>childs := (childs s1)(i := h), wt := wm\<rparr>))
          (wlist_del w (childs s1 i, wt s1)))"

section \<open>Delivering signals\<close>

text \<open>\<open>S i\<close> lists the watchers of signal \<open>i + 1\<close>.\<close>

definition sig_ok :: "(nat \<Rightarrow> wid list) \<Rightarrow> 'a ev_pipe_scheme \<Rightarrow> bool" where
  "sig_ok S s \<longleftrightarrow>
     (\<forall>i. chain (nexts (wt s)) (sig_head s i) (S i) \<and> distinct (S i)
        \<and> (S i \<noteq> [] \<longrightarrow> sig_loop s i = Some this_loop)
        \<and> (\<forall>w \<in> set (S i). signum (wt s w) = int i + 1 \<and> active (wt s w) = 1 \<and> w \<noteq> pending_w \<and> ABSPRI (wt s w) < NUMPRI))"

lemma feed_wlist_eq:
  "chain (nexts (wt s)) p xs \<Longrightarrow> feed_wlist ev p s = Some (fold (\<lambda>w. ev_feed_event w ev) xs s)"
proof (induction xs arbitrary: p s)
  case Nil
  then show ?case by (subst feed_wlist.simps) simp
next
  case (Cons w xs)
  then have "p = Some w" "chain (nexts (wt s)) (w_next (wt s w)) xs" by auto
  moreover from this(2) have "chain (nexts (wt (ev_feed_event w ev s))) (w_next (wt (ev_feed_event w ev s) w)) xs"
    using chain_cong [of xs "nexts (wt (ev_feed_event w ev s))" "nexts (wt s)"] by simp
  ultimately show ?case using Cons.IH by (subst feed_wlist.simps) (simp add: Let_def)
qed

lemma feed_pipe [simp]:
  "asyncs (ev_feed_event w ev s) = asyncs s" "sig_pending (ev_feed_event w ev s) = sig_pending s"
  "async_pending (ev_feed_event w ev s) = async_pending s" "sig_loop (ev_feed_event w ev s) = sig_loop s"
  "sig_pend (ev_feed_event w ev s) = sig_pend s" "sig_head (ev_feed_event w ev s) = sig_head s"
  "childs (ev_feed_event w ev s) = childs s" "pipe_write_skipped (ev_feed_event w ev s) = pipe_write_skipped s"
  "pipe_bytes (ev_feed_event w ev s) = pipe_bytes s" "pipe_write_wanted (ev_feed_event w ev s) = pipe_write_wanted s"
  "signum (wt (ev_feed_event w ev s) v) = signum (wt s v)" "async_sent (wt (ev_feed_event w ev s) v) = async_sent (wt s v)"
  by (simp_all add: ev_feed_event_def Let_def)

lemma fold_feed_pipe [simp]:
  "asyncs (fold (\<lambda>w. ev_feed_event w ev) xs s) = asyncs s" "sig_pending (fold (\<lambda>w. ev_feed_event w ev) xs s) = sig_pending s"
  "async_pending (fold (\<lambda>w. ev_feed_event w ev) xs s) = async_pending s" "sig_loop (fold (\<lambda>w. ev_feed_event w ev) xs s) = sig_loop s"
  "sig_pend (fold (\<lambda>w. ev_feed_event w ev) xs s) = sig_pend s" "sig_head (fold (\<lambda>w. ev_feed_event w ev) xs s) = sig_head s"
  "signum (wt (fold (\<lambda>w. ev_feed_event w ev) xs s) v) = signum (wt s v)"
  "w_next (wt (fold (\<lambda>w. ev_feed_event w ev) xs s) v) = w_next (wt s v)"
  "active (wt (fold (\<lambda>w. ev_feed_event w ev) xs s) v) = active (wt s v)"
  "ABSPRI (wt (fold (\<lambda>w. ev_feed_event w ev) xs s) v) = ABSPRI (wt s v)"
  by (induction xs arbitrary: s) simp_all

lemma sig_ok_cong:
  assumes "sig_ok S s" "sig_head s' = sig_head s" "sig_loop s' = sig_loop s"
    "\<And>w. w_next (wt s' w) = w_next (wt s w) \<and> signum (wt s' w) = signum (wt s w) \<and> active (wt s' w) = active (wt s w)
      \<and> ABSPRI (wt s' w) = ABSPRI (wt s w)"
  shows "sig_ok S s'"
proof -
  have "chain (nexts (wt s')) p xs = chain (nexts (wt s)) p xs" for p xs using assms(4) by (intro chain_cong) simp
  then show ?thesis using assms by (simp add: sig_ok_def)
qed

lemma feed_signal_event_spec:
  assumes "sig_ok S s" "pend_ok s" "i < EV_NSIG - 1" "sig_loop s i = Some this_loop"
  shows "\<exists>s'. ev_feed_signal_event (int i + 1) s = Some s' \<and> sig_ok S s' \<and> pend_ok s'
    \<and> sig_pend s' = (sig_pend s)(i := False) \<and> sig_loop s' = sig_loop s \<and> sig_pending s' = sig_pending s
    \<and> async_pending s' = async_pending s \<and> same_settings (wt s) (wt s')
    \<and> pending_events s' = (\<lambda>w. if w \<in> set (S i) then pending_events s w OR EV_SIGNAL else pending_events s w)"
proof -
  let ?s1 = "s\<lparr>sig_pend := (sig_pend s)(i := False)\<rparr>"
  let ?s' = "fold (\<lambda>w. ev_feed_event w EV_SIGNAL) (S i) ?s1"
  have ch: "chain (nexts (wt ?s1)) (sig_head ?s1 i) (S i)" using assms(1) by (simp add: sig_ok_def)
  have f: "feedable ?s1 (set (S i))" using assms(1) by (simp add: sig_ok_def feedable_def)
  have pk: "pend_ok ?s1" "pending_events ?s1 = pending_events s" using pend_ok_cong [of ?s1 s] assms(2) by simp_all
  note r = feed_list_spec [OF pk(1) f refl]
  have run: "ev_feed_signal_event (int i + 1) s = Some ?s'"
    using assms(3,4) feed_wlist_eq [OF ch] by (simp add: ev_feed_signal_event_def Let_def)
  have "sig_ok S ?s'" by (rule sig_ok_cong [OF assms(1)]) simp_all
  then show ?thesis using run r(1,3) r(2) [of EV_SIGNAL, unfolded pk(2)] by (intro exI [of _ ?s']) simp
qed

lemma signals_loop_spec:
  assumes "sig_ok S s" "pend_ok s" "n \<le> EV_NSIG - 1" "\<And>i. i < n \<Longrightarrow> sig_pend s i \<Longrightarrow> sig_loop s i = Some this_loop"
  shows "\<exists>s'. signals_loop n s = Some s' \<and> sig_ok S s' \<and> pend_ok s' \<and> sig_pend s' = (\<lambda>i. n \<le> i \<and> sig_pend s i)
    \<and> sig_pending s' = sig_pending s \<and> async_pending s' = async_pending s \<and> same_settings (wt s) (wt s')
    \<and> pending_events s' = (\<lambda>w. if \<exists>i < n. sig_pend s i \<and> w \<in> set (S i) then pending_events s w OR EV_SIGNAL else pending_events s w)"
  using assms
proof (induction n arbitrary: s)
  case 0
  then show ?case by (auto simp: fun_eq_iff)
next
  case (Suc n)
  have le: "n \<le> EV_NSIG - 1" using Suc.prems(3) by simp
  have b0: "sig_loop s i = Some this_loop" if "i < n" "sig_pend s i" for i using Suc.prems(4) [of i] that by simp
  show ?case
  proof (cases "sig_pend s n")
    case False
    obtain s' where s': "signals_loop n s = Some s'" "sig_ok S s'" "pend_ok s'" "sig_pend s' = (\<lambda>i. n \<le> i \<and> sig_pend s i)"
      "sig_pending s' = sig_pending s" "async_pending s' = async_pending s" "same_settings (wt s) (wt s')"
      "pending_events s' = (\<lambda>w. if \<exists>i < n. sig_pend s i \<and> w \<in> set (S i) then pending_events s w OR EV_SIGNAL else pending_events s w)"
      using Suc.IH [OF Suc.prems(1,2) le b0] by blast
    have "sig_pend s' = (\<lambda>i. Suc n \<le> i \<and> sig_pend s i)"
    proof
      fix i show "sig_pend s' i = (Suc n \<le> i \<and> sig_pend s i)" using s'(4) False by (cases "i = n") auto
    qed
    moreover have "(\<exists>i < Suc n. sig_pend s i \<and> w \<in> set (S i)) = (\<exists>i < n. sig_pend s i \<and> w \<in> set (S i))" for w
      using False by (metis less_Suc_eq)
    ultimately show ?thesis using False s' by simp
  next
    case True
    have n: "n < EV_NSIG - 1" "sig_loop s n = Some this_loop" using Suc.prems(3) Suc.prems(4) [of n] True by simp_all
    from feed_signal_event_spec [OF Suc.prems(1,2) n] obtain s1 where s1: "ev_feed_signal_event (int n + 1) s = Some s1"
      "sig_ok S s1" "pend_ok s1" "sig_pend s1 = (sig_pend s)(n := False)" "sig_loop s1 = sig_loop s" "sig_pending s1 = sig_pending s"
      "async_pending s1 = async_pending s" "same_settings (wt s) (wt s1)"
      "pending_events s1 = (\<lambda>w. if w \<in> set (S n) then pending_events s w OR EV_SIGNAL else pending_events s w)" by blast
    have b1: "sig_loop s1 i = Some this_loop" if "i < n" "sig_pend s1 i" for i using b0 [of i] that s1(4,5) by simp
    obtain s' where s': "signals_loop n s1 = Some s'" "sig_ok S s'" "pend_ok s'" "sig_pend s' = (\<lambda>i. n \<le> i \<and> sig_pend s1 i)"
      "sig_pending s' = sig_pending s1" "async_pending s' = async_pending s1" "same_settings (wt s1) (wt s')"
      "pending_events s' = (\<lambda>w. if \<exists>i < n. sig_pend s1 i \<and> w \<in> set (S i) then pending_events s1 w OR EV_SIGNAL else pending_events s1 w)"
      using Suc.IH [OF s1(2,3) le b1] by blast
    have "sig_pend s' = (\<lambda>i. Suc n \<le> i \<and> sig_pend s i)"
    proof
      fix i show "sig_pend s' i = (Suc n \<le> i \<and> sig_pend s i)" using s'(4) s1(4) by (cases "i = n") auto
    qed
    moreover have "pending_events s' = (\<lambda>w. if \<exists>i < Suc n. sig_pend s i \<and> w \<in> set (S i) then pending_events s w OR EV_SIGNAL else pending_events s w)"
      unfolding s'(8) s1(4,9) using True by (auto simp: fun_eq_iff less_Suc_eq or.assoc)
    moreover have "same_settings (wt s) (wt s')" using s1(8) s'(7) same_settings_trans by blast
    ultimately show ?thesis using True s1 s' by auto
  qed
qed

definition signal_demo :: ev_pipe where
  "signal_demo = \<lparr>wt = (\<lambda>w. (idle_watcher 0)\<lparr>active := 1, signum := 2, w_next := (if w = 5 then Some 6 else None)\<rparr>),
     activecnt = 2, pendings = (\<lambda>_. []), pendingpri = 0, rfeeds = [], anfds = [], fdchanges = [],
     ev_rt_now = 0, now_floor = 0, mn_now = 0, rtmn_diff = 0, have_monotonic = True,
     timers = (\<lambda>_. \<lparr>ANHE_at = 0, ANHE_w = 0\<rparr>), timercnt = 0, periodics = (\<lambda>_. \<lparr>ANHE_at = 0, ANHE_w = 0\<rparr>), periodiccnt = 0,
     idles = (\<lambda>_. []), idleall = 0, prepares = [], checks = [], forks = [], cleanups = [], asyncs = [], pipe_w = 9,
     evpipe0 = 3, evpipe1 = 4, pipe_bytes = 0, pipe_write_wanted = True, pipe_write_skipped = False, sig_pending = False,
     async_pending = False, sig_loop = (\<lambda>i. if i = 1 then Some this_loop else None), sig_pend = (\<lambda>_. False),
     sig_head = (\<lambda>i. if i = 1 then Some 5 else None), childs = (\<lambda>_. None)\<rparr>"



end
