(* ===== verification/EvWakeup.thy ===== *)
theory EvWakeup
  imports EvSignal
begin

text \<open>
  The handshake between \<open>evpipe_write\<close> (called by signal handlers and other threads) and the loop
  (\<open>ev_run\<close> around the poll, \<open>pipecb\<close>) of \<open>libev-4.15/ev.c\<close>, one memory access per step, in any
  interleaving.  The code places fences between these accesses, so the steps are taken as sequentially
  consistent.  \<open>raised i\<close> is \<open>asyncs [i]->sent\<close> (or \<open>signals [i].pending\<close>), \<open>flag\<close> is \<open>async_pending\<close>
  (\<open>sig_pending\<close>), \<open>bytes\<close> what the pipe holds.  A poll may return for any reason at any time, and it
  reports the pipe as readable only when it is.
\<close>

section \<open>Translation\<close>

datatype sender_pc = S_Idle | S_Test | S_Flag | S_Skip | S_Wanted | S_Unskip | S_Write

datatype loop_pc = L_Run | L_Check | L_Poll | L_Block | L_After bool | L_Skipped bool | L_Cb bool | L_Clear | L_Flag | L_Scan nat

record wk =
  sources :: nat
  flag :: bool
  skipped :: bool
  wanted :: bool
  bytes :: nat
  raised :: "nat \<Rightarrow> bool"
  spc :: "nat \<Rightarrow> sender_pc"
  lpc :: loop_pc

text \<open>\<open>evpipe_write\<close>, the next access of sender \<open>k\<close>.\<close>

definition sender_step :: "nat \<Rightarrow> wk \<Rightarrow> wk" where
  "sender_step k s =
     (case spc s k of
        S_Idle \<Rightarrow> s
      | S_Test \<Rightarrow> s\<lparr>spc := (spc s)(k := if flag s then S_Idle else S_Flag)\<rparr>
      | S_Flag \<Rightarrow> s\<lparr>flag := True, spc := (spc s)(k := S_Skip)\<rparr>
      | S_Skip \<Rightarrow> s\<lparr>skipped := True, spc := (spc s)(k := S_Wanted)\<rparr>
      | S_Wanted \<Rightarrow> s\<lparr>spc := (spc s)(k := if wanted s then S_Unskip else S_Idle)\<rparr>
      | S_Unskip \<Rightarrow> s\<lparr>skipped := False, spc := (spc s)(k := S_Write)\<rparr>
      | S_Write \<Rightarrow> s\<lparr>bytes := bytes s + 1, spc := (spc s)(k := S_Idle)\<rparr>)"

text \<open>
  The loop.  \<open>rd\<close> is what the poll reports of the pipe, \<open>left\<close> what a read leaves in it (0 for an
  eventfd, four bytes less for a pipe).
\<close>

definition loop_step :: "bool \<Rightarrow> nat \<Rightarrow> wk \<Rightarrow> wk" where
  "loop_step rd left s =
     (case lpc s of
        L_Run \<Rightarrow> s\<lparr>wanted := True, lpc := L_Check\<rparr>
      | L_Check \<Rightarrow> s\<lparr>lpc := (if skipped s then L_Poll else L_Block)\<rparr>
      | L_Poll \<Rightarrow> s\<lparr>lpc := L_After rd\<rparr>
      | L_Block \<Rightarrow> s\<lparr>lpc := L_After rd\<rparr>
      | L_After r \<Rightarrow> s\<lparr>wanted := False, lpc := L_Skipped r\<rparr>
      | L_Skipped r \<Rightarrow> s\<lparr>lpc := (if skipped s \<or> r then L_Cb r else L_Run)\<rparr>
      | L_Cb r \<Rightarrow> s\<lparr>bytes := (if r then left else bytes s), lpc := L_Clear\<rparr>
      | L_Clear \<Rightarrow> s\<lparr>skipped := False, lpc := L_Flag\<rparr>
      | L_Flag \<Rightarrow> (if flag s then s\<lparr>flag := False, lpc := L_Scan (sources s)\<rparr> else s\<lparr>lpc := L_Run\<rparr>)
      | L_Scan 0 \<Rightarrow> s\<lparr>lpc := L_Run\<rparr>
      | L_Scan (Suc i) \<Rightarrow> s\<lparr>raised := (raised s)(i := False), lpc := L_Scan i\<rparr>)"

inductive wk_step :: "wk \<Rightarrow> wk \<Rightarrow> bool" where
  Raise: "spc s k = S_Idle \<Longrightarrow> i < sources s \<Longrightarrow>
     wk_step s (s\<lparr>raised := (raised s)(i := True), spc := (spc s)(k := S_Test)\<rparr>)"
| Sender: "spc s k \<noteq> S_Idle \<Longrightarrow> wk_step s (sender_step k s)"
| Loop: "(rd \<longrightarrow> bytes s > 0) \<Longrightarrow> left \<le> bytes s \<Longrightarrow> wk_step s (loop_step rd left s)"

definition wk_start :: "nat \<Rightarrow> wk" where
  "wk_start n = \<lparr>sources = n, flag = False, skipped = False, wanted = False, bytes = 0, raised = (\<lambda>_. False),
     spc = (\<lambda>_. S_Idle), lpc = L_Run\<rparr>"

inductive wk_reach :: "wk \<Rightarrow> wk \<Rightarrow> bool" for s0 where
  wk_init: "wk_reach s0 s0"
| wk_next: "wk_reach s0 s \<Longrightarrow> wk_step s s' \<Longrightarrow> wk_reach s0 s'"

section \<open>The invariant\<close>

text \<open>Some sender is at one of the given places.\<close>

definition sender_at :: "sender_pc set \<Rightarrow> wk \<Rightarrow> bool" where
  "sender_at P s \<longleftrightarrow> (\<exists>k. spc s k \<in> P)"

text \<open>
  A raised source is announced by the flag, or will be, or is about to be scanned; a set flag is
  announced by \<open>skipped\<close>, by the pipe, by a sender about to do so, or the loop is about to look; while
  the loop blocks, \<open>skipped\<close> cannot stay set without a sender that will write.
\<close>

definition inv_raised :: "wk \<Rightarrow> bool" where
  "inv_raised s \<longleftrightarrow> (\<forall>i. raised s i \<longrightarrow> i < sources s
     \<and> (flag s \<or> sender_at {S_Test, S_Flag} s \<or> (\<exists>j. lpc s = L_Scan j \<and> i < j)))"

definition inv_flag :: "wk \<Rightarrow> bool" where
  "inv_flag s \<longleftrightarrow> (flag s \<longrightarrow> skipped s \<or> bytes s > 0 \<or> sender_at {S_Skip, S_Write} s \<or> lpc s = L_Clear \<or> lpc s = L_Flag)"

definition inv_block :: "wk \<Rightarrow> bool" where
  "inv_block s \<longleftrightarrow> (lpc s = L_Block \<and> skipped s \<longrightarrow> bytes s > 0 \<or> sender_at {S_Wanted, S_Unskip, S_Write} s)"

definition inv_wanted :: "wk \<Rightarrow> bool" where
  "inv_wanted s \<longleftrightarrow> (lpc s = L_Check \<or> lpc s = L_Block \<longrightarrow> wanted s)"

definition wk_inv :: "wk \<Rightarrow> bool" where
  "wk_inv s \<longleftrightarrow> inv_raised s \<and> inv_flag s \<and> inv_block s \<and> inv_wanted s"

lemma sender_at_upd: "sender_at P (s\<lparr>spc := (spc s)(k := x)\<rparr>) \<longleftrightarrow> x \<in> P \<or> (\<exists>j. j \<noteq> k \<and> spc s j \<in> P)"
  by (auto simp: sender_at_def)

lemma sender_at_split: "sender_at P s \<longleftrightarrow> spc s k \<in> P \<or> (\<exists>j. j \<noteq> k \<and> spc s j \<in> P)"
  by (auto simp: sender_at_def)

lemmas wk_invs = inv_raised_def inv_flag_def inv_block_def inv_wanted_def

lemma inv_raise:
  assumes "wk_inv s" "spc s k = S_Idle" "i < sources s"
  shows "wk_inv (s\<lparr>raised := (raised s)(i := True), spc := (spc s)(k := S_Test)\<rparr>)"
  using assms unfolding wk_inv_def wk_invs
  by (auto simp: sender_at_split [of _ _ k])

lemma inv_sender: "wk_inv s \<Longrightarrow> spc s k \<noteq> S_Idle \<Longrightarrow> wk_inv (sender_step k s)"
  unfolding wk_inv_def wk_invs
  by (cases "spc s k") (auto simp: sender_step_def sender_at_split [of _ _ k])

lemma inv_loop:
  assumes "wk_inv s" "rd \<longrightarrow> bytes s > 0" "left \<le> bytes s"
  shows "wk_inv (loop_step rd left s)"
proof (cases "lpc s")
  case (L_Scan j)
  then show ?thesis using assms unfolding wk_inv_def wk_invs
    by (cases j) (auto simp: loop_step_def sender_at_def less_Suc_eq)
qed (use assms in \<open>auto simp: wk_inv_def wk_invs loop_step_def sender_at_def\<close>)

lemma inv_start: "wk_inv (wk_start n)"
  by (simp add: wk_inv_def wk_invs wk_start_def sender_at_def)

lemma inv_step: "wk_step s s' \<Longrightarrow> wk_inv s \<Longrightarrow> wk_inv s'"
  by (induction rule: wk_step.induct) (simp_all add: inv_raise inv_sender inv_loop)

lemma inv_reach: "wk_reach (wk_start n) s \<Longrightarrow> wk_inv s"
  by (induction rule: wk_reach.induct) (auto simp: inv_start inv_step)

section \<open>No wake-up is lost\<close>

lemma blocked_announced:
  assumes "wk_reach (wk_start n) s" "lpc s = L_Block" "raised s i"
  shows "bytes s > 0 \<or> (\<exists>k. spc s k \<noteq> S_Idle)"
proof -
  have inv: "inv_raised s" "inv_flag s" "inv_block s" using inv_reach [OF assms(1)] by (simp_all add: wk_inv_def)
  have at: "\<exists>k. spc s k \<noteq> S_Idle" if "sender_at P s" "S_Idle \<notin> P" for P using that by (metis sender_at_def)
  show ?thesis
  proof (cases "flag s")
    case True
    then show ?thesis using inv(2,3) assms(2) at by (auto simp: inv_flag_def inv_block_def)
  next
    case False
    then show ?thesis using inv(1) assms(2,3) at by (auto simp: inv_raised_def)
  qed
qed

text \<open>The loop on its own: the poll reports the pipe when it is readable, a read empties it.\<close>

fun loop_alone :: "nat \<Rightarrow> wk \<Rightarrow> wk" where
  "loop_alone 0 s = s"
| "loop_alone (Suc m) s = loop_alone m (loop_step (bytes s > 0) 0 s)"

lemma scan_clears:
  "lpc s = L_Scan m \<Longrightarrow> \<exists>t. loop_alone m s = t \<and> lpc t = L_Scan 0 \<and> raised t = (\<lambda>i. m \<le> i \<and> raised s i) \<and> sources t = sources s"
proof (induction m arbitrary: s)
  case (Suc m)
  let ?s1 = "loop_step (bytes s > 0) 0 s"
  have s1: "lpc ?s1 = L_Scan m" "raised ?s1 = (raised s)(m := False)" "sources ?s1 = sources s"
    using Suc.prems by (simp_all add: loop_step_def)
  from Suc.IH [OF s1(1)] obtain t where t: "loop_alone m ?s1 = t" "lpc t = L_Scan 0" "raised t = (\<lambda>i. m \<le> i \<and> raised ?s1 i)"
    "sources t = sources ?s1" by blast
  have "raised t = (\<lambda>i. Suc m \<le> i \<and> raised s i)"
  proof
    fix i show "raised t i = (Suc m \<le> i \<and> raised s i)" using t(3) s1(2) by (cases "i = m") auto
  qed
  then show ?case using t(1,2,4) s1(3) by simp
qed (auto simp: fun_eq_iff)

lemma blocked_delivers:
  assumes "lpc s = L_Block" "bytes s > 0" "flag s" "\<And>i. raised s i \<Longrightarrow> i < sources s"
  shows "\<forall>i. \<not> raised (loop_alone (6 + sources s) s) i"
proof -
  obtain s6 where s6: "loop_alone (6 + sources s) s = loop_alone (sources s) s6" "lpc s6 = L_Scan (sources s)"
    "raised s6 = raised s"
    using assms(1-3) by (simp add: numeral_nat loop_step_def)
  then show ?thesis using scan_clears [OF s6(2)] assms(4) by (auto simp: not_le [symmetric])
qed

text \<open>
  C10. No wake-up is lost: whatever the interleaving, when the loop blocks in the poll while a source has
  been raised, the pipe is readable or a sender is still on its way to write to it; once the senders
  have finished, the poll therefore returns, and the loop alone clears every raised source within
  \<open>6 + n\<close> of its steps.
\<close>

theorem wakeup_not_lost:
  assumes "wk_reach (wk_start n) s" "lpc s = L_Block" "raised s i"
  shows "(bytes s > 0 \<or> (\<exists>k. spc s k \<noteq> S_Idle))
    \<and> ((\<forall>k. spc s k = S_Idle) \<longrightarrow> bytes s > 0 \<and> (\<forall>j. \<not> raised (loop_alone (6 + sources s) s) j))"
proof -
  have inv: "inv_raised s" using inv_reach [OF assms(1)] by (simp add: wk_inv_def)
  note b = blocked_announced [OF assms]
  have "\<forall>j. \<not> raised (loop_alone (6 + sources s) s) j" if idle: "\<forall>k. spc s k = S_Idle"
  proof (rule blocked_delivers)
    show "flag s" using inv assms(2,3) idle by (auto simp: inv_raised_def sender_at_def)
    show "bytes s > 0" using b idle by auto
  qed (use assms(2) inv in \<open>auto simp: inv_raised_def\<close>)
  then show ?thesis using b by auto
qed

text \<open>The loop goes to sleep, then sender 4 raises source 0.\<close>

definition wk_slept :: wk where
  "wk_slept = loop_step False 0 (loop_step False 0 (wk_start 1))"

definition wk_woken :: wk where
  "wk_woken = (sender_step 4 ^^ 6) (wk_slept\<lparr>raised := (raised wk_slept)(0 := True), spc := (spc wk_slept)(4 := S_Test)\<rparr>)"

lemma reach_sender: "wk_reach s0 s \<Longrightarrow> wk_reach s0 (sender_step k s)"
proof (cases "spc s k = S_Idle")
  case True
  assume "wk_reach s0 s"
  then show ?thesis using True by (simp add: sender_step_def)
qed (use wk_next Sender in blast)

lemma wk_woken_reach: "wk_reach (wk_start 1) wk_woken" "lpc wk_woken = L_Block" "raised wk_woken 0" "\<forall>k. spc wk_woken k = S_Idle"
proof -
  have a: "wk_reach (wk_start 1) wk_slept" unfolding wk_slept_def
    by (rule wk_next [OF wk_next [OF wk_init Loop] Loop]) (simp_all)
  have "wk_reach (wk_start 1) (wk_slept\<lparr>raised := (raised wk_slept)(0 := True), spc := (spc wk_slept)(4 := S_Test)\<rparr>)"
    by (rule wk_next [OF a Raise]) (simp_all add: wk_slept_def loop_step_def wk_start_def)
  then show "wk_reach (wk_start 1) wk_woken" unfolding wk_woken_def
    by (simp add: numeral_nat reach_sender)
  show "lpc wk_woken = L_Block" "raised wk_woken 0" "\<forall>k. spc wk_woken k = S_Idle"
    by (simp_all add: wk_woken_def wk_slept_def loop_step_def wk_start_def sender_step_def numeral_nat)
qed

lemma wakeup_not_lost_witness: "bytes wk_woken > 0 \<and> (\<forall>j. \<not> raised (loop_alone 7 wk_woken) j)"
proof -
  have "sources wk_woken = 1"
    by (simp add: wk_woken_def wk_slept_def loop_step_def wk_start_def sender_step_def numeral_nat)
  then show ?thesis using wakeup_not_lost [OF wk_woken_reach(1-3)] wk_woken_reach(4) by auto
qed

end
