(* ===== verification/EvRun.thy ===== *)
theory EvRun
  imports EvWakeup "HOL-Library.Monad_Syntax"
begin

text \<open>
  \<open>libev-4.15/ev.c\<close>: the loop itself.  \<open>ev_run\<close> with its phases (before the poll, the poll with its
  blocking time, after the poll), the set-up and destruction of a loop, and the checks of \<open>ev_verify\<close>.
  What the loop calls is a parameter: the callbacks of the watchers (any function of the whole state),
  the backend, the clocks, \<open>getpid\<close>.  A failing assertion is \<open>None\<close>; \<open>env_fuel\<close> bounds the rounds of
  one \<open>ev_invoke_pending\<close>, because callbacks may queue events for ever.  The result of a run is the
  value returned, the trace of the callbacks made and the state.
\<close>

section \<open>Translation: constants and state\<close>

definition EVFLAG_AUTO :: u32_t where "EVFLAG_AUTO = 0"
definition EVFLAG_NOENV :: u32_t where "EVFLAG_NOENV = 0x01000000"
definition EVFLAG_FORKCHECK :: u32_t where "EVFLAG_FORKCHECK = 0x02000000"
definition EVFLAG_NOINOTIFY :: u32_t where "EVFLAG_NOINOTIFY = 0x00100000"
definition EVFLAG_SIGNALFD :: u32_t where "EVFLAG_SIGNALFD = 0x00200000"
definition EVFLAG_NOSIGMASK :: u32_t where "EVFLAG_NOSIGMASK = 0x00400000"

definition EVBACKEND_SELECT :: u32_t where "EVBACKEND_SELECT = 0x01"
definition EVBACKEND_POLL :: u32_t where "EVBACKEND_POLL = 0x02"
definition EVBACKEND_EPOLL :: u32_t where "EVBACKEND_EPOLL = 0x04"
definition EVBACKEND_KQUEUE :: u32_t where "EVBACKEND_KQUEUE = 0x08"
definition EVBACKEND_DEVPOLL :: u32_t where "EVBACKEND_DEVPOLL = 0x10"
definition EVBACKEND_PORT :: u32_t where "EVBACKEND_PORT = 0x20"
definition EVBACKEND_ALL :: u32_t where "EVBACKEND_ALL = 0x3F"
definition EVBACKEND_MASK :: u32_t where "EVBACKEND_MASK = 0xFFFF"

definition EVRUN_NOWAIT :: u32_t where "EVRUN_NOWAIT = 1"
definition EVRUN_ONCE :: u32_t where "EVRUN_ONCE = 2"
definition EVBREAK_CANCEL :: int where "EVBREAK_CANCEL = 0"
definition EVBREAK_ONE :: int where "EVBREAK_ONE = 1"
definition EVBREAK_ALL :: int where "EVBREAK_ALL = 2"
definition EVBREAK_RECURSE :: int where "EVBREAK_RECURSE = 0x80"

record ev_loop = ev_pipe +
  loop_done :: int
  loop_count :: u32_t
  loop_depth :: u32_t
  postfork :: bool
  curpid :: int
  io_blocktime :: ev_tstamp
  timeout_blocktime :: ev_tstamp
  backend_mintime :: ev_tstamp
  backend :: u32_t
  backend_fd :: int
  origflags :: u32_t
  childev :: wid
  default_loop :: bool

text \<open>The memory of \<open>ev_loop_new\<close> before \<open>loop_init\<close>.  The watchers \<open>pipe_w\<close> and \<open>childev\<close> have the
addresses \<open>pw\<close> and \<open>cw\<close>, all watchers are in the memory \<open>ws\<close>, and no signal is attached to a loop.\<close>

definition zero_loop :: "wid \<Rightarrow> wid \<Rightarrow> (wid \<Rightarrow> watcher) \<Rightarrow> ev_loop" where
  "zero_loop pw cw ws =
     \<lparr>wt = ws, activecnt = 0, pendings = (\<lambda>_. []), pendingpri = 0, rfeeds = [], anfds = [], fdchanges = [],
      ev_rt_now = 0, now_floor = 0, mn_now = 0, rtmn_diff = 0, have_monotonic = False,
      timers = (\<lambda>_. \<lparr>ANHE_at = 0, ANHE_w = 0\<rparr>), timercnt = 0, periodics = (\<lambda>_. \<lparr>ANHE_at = 0, ANHE_w = 0\<rparr>), periodiccnt = 0,
      idles = (\<lambda>_. []), idleall = 0, prepares = [], checks = [], forks = [], cleanups = [], asyncs = [], pipe_w = pw,
      evpipe0 = 0, evpipe1 = 0, pipe_bytes = 0, pipe_write_wanted = False, pipe_write_skipped = False,
      sig_pending = False, async_pending = False, sig_loop = (\<lambda>_. None), sig_pend = (\<lambda>_. False),
      sig_head = (\<lambda>_. None), childs = (\<lambda>_. None), loop_done = 0, loop_count = 0, loop_depth = 0, postfork = False,
      curpid = 0, io_blocktime = 0, timeout_blocktime = 0, backend_mintime = 0, backend = 0, backend_fd = 0,
      origflags = 0, childev = cw, default_loop = False\<rparr>"

record 's run_env =
  env_cb :: "wid \<Rightarrow> evmask \<Rightarrow> 's \<Rightarrow> 's"
  env_fuel :: nat
  env_modify :: "'s backend_modify"
  env_poll :: "ev_tstamp \<Rightarrow> 's \<Rightarrow> 's option"
  env_fork :: "'s \<Rightarrow> 's option"
  env_clock :: "nat \<Rightarrow> nat \<Rightarrow> ev_tstamp"
  env_wall :: "nat \<Rightarrow> nat \<Rightarrow> ev_tstamp"
  env_pid :: "nat \<Rightarrow> int"
  env_pipe :: "int \<times> int"

type_synonym 's traced = "(wid \<times> evmask) list \<times> 's"

definition ev_supported_backends :: "bool \<Rightarrow> bool \<Rightarrow> bool \<Rightarrow> bool \<Rightarrow> bool \<Rightarrow> u32_t" where
  "ev_supported_backends port kqueue epoll poll select =
     (if port then EVBACKEND_PORT else 0) OR (if kqueue then EVBACKEND_KQUEUE else 0)
     OR (if epoll then EVBACKEND_EPOLL else 0) OR (if poll then EVBACKEND_POLL else 0)
     OR (if select then EVBACKEND_SELECT else 0)"

text \<open>On Linux.\<close>

definition ev_recommended_backends :: "u32_t \<Rightarrow> u32_t" where
  "ev_recommended_backends supported = supported AND NOT EVBACKEND_KQUEUE"

definition ev_embeddable_backends :: "nat \<Rightarrow> u32_t" where
  "ev_embeddable_backends linux_version =
     (let flags = EVBACKEND_EPOLL OR EVBACKEND_KQUEUE OR EVBACKEND_PORT in
      if linux_version < 0x020620 then flags AND NOT EVBACKEND_EPOLL else flags)"

definition ev_backend :: "'a ev_loop_scheme \<Rightarrow> u32_t" where "ev_backend s = backend s"
definition ev_iteration :: "'a ev_loop_scheme \<Rightarrow> u32_t" where "ev_iteration s = loop_count s"
definition ev_depth :: "'a ev_loop_scheme \<Rightarrow> u32_t" where "ev_depth s = loop_depth s"

definition ev_set_io_collect_interval :: "ev_tstamp \<Rightarrow> 'a ev_loop_scheme \<Rightarrow> 'a ev_loop_scheme" where
  "ev_set_io_collect_interval i s = s\<lparr>io_blocktime := i\<rparr>"

definition ev_set_timeout_collect_interval :: "ev_tstamp \<Rightarrow> 'a ev_loop_scheme \<Rightarrow> 'a ev_loop_scheme" where
  "ev_set_timeout_collect_interval i s = s\<lparr>timeout_blocktime := i\<rparr>"

definition ev_loop_fork :: "'a ev_loop_scheme \<Rightarrow> 'a ev_loop_scheme" where
  "ev_loop_fork s = s\<lparr>postfork := True\<rparr>"

definition ev_break :: "int \<Rightarrow> 'a ev_loop_scheme \<Rightarrow> 'a ev_loop_scheme" where
  "ev_break how s = s\<lparr>loop_done := how\<rparr>"

section \<open>Translation: running\<close>

definition invoke :: "'a ev_loop_scheme run_env \<Rightarrow> 'a ev_loop_scheme traced \<Rightarrow> 'a ev_loop_scheme traced option" where
  "invoke env st =
     map_option (\<lambda>(tr, s). (fst st @ tr, s)) (ev_invoke_pending (env_fuel env) (env_cb env) (snd st))"

definition loop_fork :: "'a ev_loop_scheme run_env \<Rightarrow> 'a ev_loop_scheme \<Rightarrow> 'a ev_loop_scheme option" where
  "loop_fork env s = do {
     s1 \<leftarrow> env_fork env s;
     s2 \<leftarrow> (if active (wt s1 (pipe_w s1)) \<noteq> 0 then do {
               t1 \<leftarrow> ev_io_stop (pipe_w s1) (ev_ref s1);
               t2 \<leftarrow> evpipe_init (env_pipe env) t1;
               Some (ev_feed_event (pipe_w t2) EV_CUSTOM t2) }
             else Some s1);
     Some (s2\<lparr>postfork := False\<rparr>) }"

text \<open>Fork and prepare watchers, up to the test of \<open>loop_done\<close>.\<close>

definition before_poll :: "'a ev_loop_scheme run_env \<Rightarrow> int \<Rightarrow> 'a ev_loop_scheme traced \<Rightarrow> 'a ev_loop_scheme traced option" where
  "before_poll env pid st =
     (let s = snd st;
          s1 = (if curpid s \<noteq> 0 \<and> pid \<noteq> curpid s then s\<lparr>curpid := pid, postfork := True\<rparr> else s)
      in do {
        st2 \<leftarrow> (if postfork s1 \<and> forks s1 \<noteq> [] then invoke env (fst st, queue_events (forks s1) EV_FORK s1) else Some (fst st, s1));
        (if prepares (snd st2) \<noteq> [] then invoke env (fst st2, queue_events (prepares (snd st2)) EV_PREPARE (snd st2)) else Some st2) })"

text \<open>How long to block and how long to sleep before: \<open>prev\<close> is the time of the previous update.\<close>

definition block_times :: "u32_t \<Rightarrow> ev_tstamp \<Rightarrow> 'a ev_loop_scheme \<Rightarrow> ev_tstamp \<times> ev_tstamp" where
  "block_times flags prev s =
     (if \<not> (flags AND EVRUN_NOWAIT \<noteq> 0 \<or> idleall s \<noteq> 0 \<or> activecnt s = 0 \<or> pipe_write_skipped s) then
        let w0 = MAX_BLOCKTIME;
            w1 = (if timercnt s \<noteq> 0 then let tm = ANHE_at (timers s HEAP0) - mn_now s in if w0 > tm then tm else w0 else w0);
            w2 = (if periodiccnt s \<noteq> 0 then let tm = ANHE_at (periodics s HEAP0) - ev_rt_now s in if w1 > tm then tm else w1 else w1);
            w3 = (if w2 < timeout_blocktime s then timeout_blocktime s else w2);
            w4 = (if w3 < backend_mintime s then backend_mintime s else w3)
        in if io_blocktime s \<noteq> 0 then
             let s0 = io_blocktime s - (mn_now s - prev);
                 s1 = (if s0 > w4 - backend_mintime s then w4 - backend_mintime s else s0)
             in if s1 > 0 then (w4 - s1, s1) else (w4, s1)
           else (w4, 0)
      else (0, 0))"

definition poll_phase :: "'a ev_loop_scheme run_env \<Rightarrow> u32_t \<Rightarrow> nat \<Rightarrow> 'a ev_loop_scheme \<Rightarrow> 'a ev_loop_scheme option" where
  "poll_phase env flags k s = do {
     s1 \<leftarrow> (if postfork s then loop_fork env s else Some s);
     s2 \<leftarrow> fd_reify (env_modify env) s1;
     s3 \<leftarrow> time_update (env_clock env (2 * k)) (env_wall env (2 * k)) (10 ^ 100) s2;
     let s4 = s3\<lparr>pipe_write_wanted := True\<rparr>;
     let (waittime, sleeptime) = block_times flags (mn_now s2) s4;
     s5 \<leftarrow> env_poll env waittime (s4\<lparr>loop_count := loop_count s4 + 1, loop_done := EVBREAK_RECURSE\<rparr>);
     let s6 = s5\<lparr>loop_done := EVBREAK_CANCEL, pipe_write_wanted := False\<rparr>;
     s7 \<leftarrow> (if pipe_write_skipped s6
            then (if active (wt s6 (pipe_w s6)) = 0 then None else Some (ev_feed_event (pipe_w s6) EV_CUSTOM s6))
            else Some s6);
     time_update (env_clock env (2 * k + 1)) (env_wall env (2 * k + 1)) (waittime + sleeptime) s7 }"

definition after_poll :: "'a ev_loop_scheme run_env \<Rightarrow> 'a ev_loop_scheme traced \<Rightarrow> 'a ev_loop_scheme traced option" where
  "after_poll env st = do {
     s1 \<leftarrow> timers_reify (snd st);
     s2 \<leftarrow> periodics_reify s1;
     let s3 = idle_reify s2;
     let s4 = (if checks s3 \<noteq> [] then queue_events (checks s3) EV_CHECK s3 else s3);
     invoke env (fst st, s4) }"

partial_function (option) run_loop ::
    "'a ev_loop_scheme run_env \<Rightarrow> u32_t \<Rightarrow> nat \<Rightarrow> 'a ev_loop_scheme traced \<Rightarrow> 'a ev_loop_scheme traced option" where
  "run_loop env flags k st =
     Option.bind (before_poll env (env_pid env k) st) (\<lambda>st1.
       if loop_done (snd st1) \<noteq> 0 then Some st1
       else Option.bind (poll_phase env flags k (snd st1)) (\<lambda>s2.
         Option.bind (after_poll env (fst st1, s2)) (\<lambda>st3.
           if activecnt (snd st3) \<noteq> 0 \<and> loop_done (snd st3) = 0 \<and> flags AND (EVRUN_ONCE OR EVRUN_NOWAIT) = 0
           then run_loop env flags (Suc k) st3 else Some st3)))"

definition ev_run ::
    "'a ev_loop_scheme run_env \<Rightarrow> u32_t \<Rightarrow> 'a ev_loop_scheme \<Rightarrow> (int \<times> (wid \<times> evmask) list \<times> 'a ev_loop_scheme) option" where
  "ev_run env flags s =
     (let s1 = s\<lparr>loop_depth := loop_depth s + 1\<rparr> in
      if loop_done s1 = EVBREAK_RECURSE then None
      else do {
        st2 \<leftarrow> invoke env ([], s1\<lparr>loop_done := EVBREAK_CANCEL\<rparr>);
        st3 \<leftarrow> run_loop env flags 0 st2;
        let s4 = (if loop_done (snd st3) = EVBREAK_ONE then (snd st3)\<lparr>loop_done := EVBREAK_CANCEL\<rparr> else snd st3);
        let s5 = s4\<lparr>loop_depth := loop_depth s4 - 1\<rparr>;
        Some (activecnt s5, fst st3, s5) })"

section \<open>Blocking\<close>

text \<open>The loop sleeps and blocks for \<open>waittime + max 0 sleeptime\<close>.\<close>

definition may_block :: "u32_t \<Rightarrow> 'a ev_loop_scheme \<Rightarrow> bool" where
  "may_block flags s \<longleftrightarrow>
     flags AND EVRUN_NOWAIT = 0 \<and> idleall s = 0 \<and> activecnt s \<noteq> 0 \<and> \<not> pipe_write_skipped s"

lemma block_times_cases:
  assumes "block_times flags prev s = (w, sl)" "may_block flags s"
  obtains w2 where "w + max 0 sl = max (max w2 (timeout_blocktime s)) (backend_mintime s)" "w2 \<le> MAX_BLOCKTIME"
    "timercnt s \<noteq> 0 \<Longrightarrow> w2 \<le> ANHE_at (timers s HEAP0) - mn_now s"
    "periodiccnt s \<noteq> 0 \<Longrightarrow> w2 \<le> ANHE_at (periodics s HEAP0) - ev_rt_now s" "backend_mintime s \<le> w"
proof -
  let ?t = "ANHE_at (timers s HEAP0) - mn_now s" let ?p = "ANHE_at (periodics s HEAP0) - ev_rt_now s"
  obtain w1 where w1: "w1 = (if timercnt s \<noteq> 0 then min MAX_BLOCKTIME ?t else MAX_BLOCKTIME)" by simp
  obtain w2 where w2: "w2 = (if periodiccnt s \<noteq> 0 then min w1 ?p else w1)" by simp
  obtain w4 where w4: "w4 = max (max w2 (timeout_blocktime s)) (backend_mintime s)" by simp
  have e1: "(if timercnt s \<noteq> 0 then let tm = ?t in if MAX_BLOCKTIME > tm then tm else MAX_BLOCKTIME else MAX_BLOCKTIME) = w1"
    by (simp add: w1 Let_def min_def)
  have e2: "(if periodiccnt s \<noteq> 0 then let tm = ?p in if w1 > tm then tm else w1 else w1) = w2"
    by (simp add: w2 Let_def min_def)
  have e4: "(if (if w2 < timeout_blocktime s then timeout_blocktime s else w2) < backend_mintime s then backend_mintime s
      else (if w2 < timeout_blocktime s then timeout_blocktime s else w2)) = w4"
    by (simp add: w4 max_def)
  obtain s0 where s0: "s0 = min (io_blocktime s - (mn_now s - prev)) (w4 - backend_mintime s)" by simp
  have e0: "(if io_blocktime s - (mn_now s - prev) > w4 - backend_mintime s then w4 - backend_mintime s
      else io_blocktime s - (mn_now s - prev)) = s0"
    by (simp add: s0 min_def)
  have nb: "\<not> (flags AND EVRUN_NOWAIT \<noteq> 0 \<or> idleall s \<noteq> 0 \<or> activecnt s = 0 \<or> pipe_write_skipped s)"
    using assms(2) by (simp add: may_block_def)
  have b: "(if io_blocktime s \<noteq> 0 then if s0 > 0 then (w4 - s0, s0) else (w4, s0) else (w4, 0)) = (w, sl)"
    using assms(1) unfolding block_times_def if_P [OF nb] Let_def [of MAX_BLOCKTIME] e1 Let_def [of w1] e2 Let_def [of w2]
    by (simp only: Let_def e4 e0)
  have le: "backend_mintime s \<le> w4" "s0 \<le> w4 - backend_mintime s" by (simp_all add: w4 s0)
  have "w + max 0 sl = w4" "backend_mintime s \<le> w" using b le by (auto split: if_splits)
  moreover have "w2 \<le> w1" "w1 \<le> MAX_BLOCKTIME" unfolding w1 w2 by auto
  moreover have "w1 \<le> ?t" if "timercnt s \<noteq> 0" using that by (simp add: w1)
  moreover have "w2 \<le> ?p" if "periodiccnt s \<noteq> 0" using that by (simp add: w2)
  ultimately show ?thesis using w4 by (intro that [of w2]) (blast intro: order_trans)+
qed

text \<open>
  C13. The loop does not oversleep: it does not block at all when it must not; otherwise it hands the
  backend at least \<open>backend_mintime\<close>, and the time it spends sleeping and blocking together exceeds
  neither \<open>MAX_BLOCKTIME\<close> nor the remaining time of any timer or of the first periodic, unless
  \<open>timeout_blocktime\<close> or \<open>backend_mintime\<close> ask for more.
\<close>

theorem block_times_bounded:
  assumes "block_times flags prev s = (w, sl)" "timers_ok s"
  shows "(\<not> may_block flags s \<longrightarrow> w = 0 \<and> sl = 0)
    \<and> (may_block flags s \<longrightarrow> backend_mintime s \<le> w
      \<and> w + max 0 sl \<le> max MAX_BLOCKTIME (max (timeout_blocktime s) (backend_mintime s))
      \<and> (\<forall>v \<in> timer_set s. w + max 0 sl \<le> max (w_at (wt s v) - mn_now s) (max (timeout_blocktime s) (backend_mintime s)))
      \<and> (periodiccnt s \<noteq> 0 \<longrightarrow> w + max 0 sl
           \<le> max (ANHE_at (periodics s HEAP0) - ev_rt_now s) (max (timeout_blocktime s) (backend_mintime s))))"
proof (cases "may_block flags s")
  case False
  then show ?thesis using assms(1) by (auto simp: block_times_def may_block_def)
next
  case True
  from block_times_cases [OF assms(1) True] obtain w2 where w2:
    "w + max 0 sl = max (max w2 (timeout_blocktime s)) (backend_mintime s)" "w2 \<le> MAX_BLOCKTIME"
    "timercnt s \<noteq> 0 \<Longrightarrow> w2 \<le> ANHE_at (timers s HEAP0) - mn_now s"
    "periodiccnt s \<noteq> 0 \<Longrightarrow> w2 \<le> ANHE_at (periodics s HEAP0) - ev_rt_now s" "backend_mintime s \<le> w" by blast
  have tm: "w2 \<le> w_at (wt s v) - mn_now s" if "v \<in> timer_set s" for v
    using timer_root_least [OF assms(2) that] w2(3) by force
  let ?T = "w + max 0 sl" let ?b = "max (timeout_blocktime s) (backend_mintime s)"
  have cap: "?T \<le> max x ?b" if "w2 \<le> x" for x unfolding w2(1) max.assoc by (rule max.mono [OF that order_refl])
  show ?thesis using True w2(5) cap [OF w2(2)] cap [OF tm] cap [OF w2(4)] by simp
qed

text \<open>One loop with a reference held, five seconds before its only timer.\<close>

definition one_timer :: ev_loop where
  "one_timer = (zero_loop 1 2 ((\<lambda>_. idle_watcher 0)(3 := (idle_watcher 0)\<lparr>active := 3, w_at := 15\<rparr>)))
     \<lparr>activecnt := 1, mn_now := 10, timers := (\<lambda>_. \<lparr>ANHE_at = 15, ANHE_w = 3\<rparr>), timercnt := 1\<rparr>"

lemma one_timer_ok: "timers_ok one_timer" "timer_set one_timer = {3}"
  by (simp_all add: one_timer_def zero_loop_def timers_ok_def theap_def heap_ok_def cached_def members_def elems_def
      pend_ok_def idle_watcher_def ABSPRI_def EV_MINPRI_def pending_w_def HEAP0_def DHEAP_def less_Suc_eq_le)

lemma block_times_bounded_witness: "block_times 0 0 one_timer = (5, 0) \<and> (5 :: ev_tstamp) \<le> w_at (wt one_timer 3) - mn_now one_timer"
proof -
  have b: "block_times 0 0 one_timer = (5, 0)"
    by (simp add: block_times_def one_timer_def zero_loop_def MAX_BLOCKTIME_def Let_def)
  moreover have "may_block 0 one_timer" by (simp add: may_block_def one_timer_def zero_loop_def)
  moreover have "timeout_blocktime one_timer = 0" "backend_mintime one_timer = 0" "w_at (wt one_timer 3) - mn_now one_timer = 5"
    by (simp_all add: one_timer_def zero_loop_def)
  ultimately show ?thesis using block_times_bounded [OF b one_timer_ok(1)] by (simp add: one_timer_ok(2))
qed

section \<open>The flags of a run\<close>

text \<open>The test at the end of a round.\<close>

lemma run_once_flags:
  fixes flags :: u32_t
  assumes "flags AND EVRUN_NOWAIT \<noteq> 0"
  shows "flags AND (EVRUN_ONCE OR EVRUN_NOWAIT) \<noteq> 0"
proof
  assume z: "flags AND (EVRUN_ONCE OR EVRUN_NOWAIT) = 0"
  have "flags AND EVRUN_NOWAIT = (flags AND (EVRUN_ONCE OR EVRUN_NOWAIT)) AND EVRUN_NOWAIT"
    by (rule bit_eqI) (auto simp: bit_simps)
  then show False using assms z by simp
qed

text \<open>One round of a run that may not repeat.\<close>

lemma run_loop_single:
  assumes "flags AND (EVRUN_ONCE OR EVRUN_NOWAIT) \<noteq> 0"
  shows "run_loop env flags k st =
    Option.bind (before_poll env (env_pid env k) st) (\<lambda>st1.
      if loop_done (snd st1) \<noteq> 0 then Some st1
      else Option.bind (poll_phase env flags k (snd st1)) (\<lambda>s2. after_poll env (fst st1, s2)))"
  by (subst run_loop.simps) (simp add: assms cong: bind_option_cong if_cong)

lemma block_times_nowait: "flags AND EVRUN_NOWAIT \<noteq> 0 \<Longrightarrow> block_times flags prev s = (0, 0)"
  by (simp add: block_times_def)

lemma env_poll_irrelevant:
  "invoke (env\<lparr>env_poll := p\<rparr>) = invoke env" "loop_fork (env\<lparr>env_poll := p\<rparr>) = loop_fork env"
  "before_poll (env\<lparr>env_poll := p\<rparr>) = before_poll env" "after_poll (env\<lparr>env_poll := p\<rparr>) = after_poll env"
proof -
  show i: "invoke (env\<lparr>env_poll := p\<rparr>) = invoke env" by (intro ext) (simp add: invoke_def)
  show "loop_fork (env\<lparr>env_poll := p\<rparr>) = loop_fork env" by (intro ext) (simp add: loop_fork_def cong: if_cong)
  show "before_poll (env\<lparr>env_poll := p\<rparr>) = before_poll env" by (intro ext) (simp only: before_poll_def i)
  show "after_poll (env\<lparr>env_poll := p\<rparr>) = after_poll env" by (intro ext) (simp add: after_poll_def i)
qed

text \<open>
  \<open>ev_run\<close> with \<open>EVRUN_NOWAIT\<close> never blocks: whatever the state of the loop and the callbacks, the
  backend is polled with a waiting time of 0, so that the run is the one with a backend that ignores
  the time it is given.
\<close>

theorem nowait_never_blocks:
  assumes "flags AND EVRUN_NOWAIT \<noteq> 0"
  shows "ev_run (env\<lparr>env_poll := \<lambda>_. env_poll env 0\<rparr>) flags s = ev_run env flags s"
proof -
  let ?e = "env\<lparr>env_poll := \<lambda>_. env_poll env 0\<rparr>"
  have p: "poll_phase ?e flags k t = poll_phase env flags k t" for k t
    by (simp add: poll_phase_def env_poll_irrelevant block_times_nowait [OF assms] Let_def cong: bind_option_cong)
  have "run_loop ?e flags k st = run_loop env flags k st" for k st
    unfolding run_loop_single [OF run_once_flags [OF assms]] by (simp add: env_poll_irrelevant p cong: if_cong)
  then show ?thesis by (simp add: ev_run_def env_poll_irrelevant)
qed

lemma run_loop_ends:
  fixes env :: "'a ev_loop_scheme run_env"
  assumes "run_loop env flags k st = Some st'"
  shows "activecnt (snd st') = 0 \<or> flags AND (EVRUN_ONCE OR EVRUN_NOWAIT) \<noteq> 0 \<or> loop_done (snd st') \<noteq> 0"
proof -
  let ?P = "\<lambda>flags st'. activecnt (snd st') = 0 \<or> flags AND (EVRUN_ONCE OR EVRUN_NOWAIT) \<noteq> 0 \<or> loop_done (snd st') \<noteq> 0"
  show "?P flags st'"
  proof (rule run_loop.raw_induct [of "\<lambda>env flags k st st'. ?P flags st'", OF _ assms])
    fix rl :: "'a ev_loop_scheme run_env \<Rightarrow> u32_t \<Rightarrow> nat \<Rightarrow> 'a ev_loop_scheme traced \<Rightarrow> 'a ev_loop_scheme traced option"
      and env flags k st st'
    assume ih: "\<And>env flags k st st'. rl env flags k st = Some st' \<Longrightarrow> ?P flags st'"
    assume "Option.bind (before_poll env (env_pid env k) st) (\<lambda>st1.
       if loop_done (snd st1) \<noteq> 0 then Some st1
       else Option.bind (poll_phase env flags k (snd st1)) (\<lambda>s2.
         Option.bind (after_poll env (fst st1, s2)) (\<lambda>st3.
           if activecnt (snd st3) \<noteq> 0 \<and> loop_done (snd st3) = 0 \<and> flags AND (EVRUN_ONCE OR EVRUN_NOWAIT) = 0
           then rl env flags (Suc k) st3 else Some st3))) = Some st'"
    then obtain st1 where st1: "if loop_done (snd st1) \<noteq> 0 then st1 = st' else
         (\<exists>st3. (if activecnt (snd st3) \<noteq> 0 \<and> loop_done (snd st3) = 0 \<and> flags AND (EVRUN_ONCE OR EVRUN_NOWAIT) = 0
           then rl env flags (Suc k) st3 else Some st3) = Some st')"
      by (fastforce simp only: bind_eq_Some_conv option.inject split: if_splits)
    show "?P flags st'"
    proof (cases "loop_done (snd st1) \<noteq> 0")
      case False
      then obtain st3 where st3: "(if activecnt (snd st3) \<noteq> 0 \<and> loop_done (snd st3) = 0 \<and> flags AND (EVRUN_ONCE OR EVRUN_NOWAIT) = 0
           then rl env flags (Suc k) st3 else Some st3) = Some st'" using st1 by auto
      show ?thesis
      proof (cases "activecnt (snd st3) \<noteq> 0 \<and> loop_done (snd st3) = 0 \<and> flags AND (EVRUN_ONCE OR EVRUN_NOWAIT) = 0")
        case True
        then have "rl env flags (Suc k) st3 = Some st'" using st3 by simp
        then show ?thesis by (rule ih)
      next
        case False
        have "st3 = st'" using st3 unfolding if_not_P [OF False] by simp
        then show ?thesis using False by blast
      qed
    qed (use st1 in simp)
  qed
qed


text \<open>Nothing happens outside: the callbacks do nothing, and neither does the poll.\<close>

definition still_env :: "ev_loop run_env" where
  "still_env = \<lparr>env_cb = (\<lambda>w ev s. s), env_fuel = 10, env_modify = (\<lambda>fd oev nev s. Some s), env_poll = (\<lambda>w s. Some s),
     env_fork = Some, env_clock = (\<lambda>k i. 0), env_wall = (\<lambda>k i. 0), env_pid = (\<lambda>k. 1), env_pipe = (5, -1)\<rparr>"

lemma nowait_never_blocks_witness:
  "ev_run (still_env\<lparr>env_poll := \<lambda>_. env_poll still_env 0\<rparr>) EVRUN_NOWAIT one_timer = ev_run still_env EVRUN_NOWAIT one_timer"
  by (rule nowait_never_blocks) (simp add: EVRUN_NOWAIT_def)

lemma empty_run: "\<exists>s'. ev_run still_env 0 (zero_loop 1 2 (\<lambda>_. idle_watcher 0)) = Some (0, [], s')"
  apply (simp add: ev_run_def invoke_def ev_invoke_pending_def still_env_def zero_loop_def EVBREAK_RECURSE_def EVBREAK_CANCEL_def eval_nat_numeral)
  apply (subst run_loop.simps)
  apply (simp add: before_poll_def poll_phase_def fd_reify_def fd_reify_loop.simps time_update_def MIN_TIMEJUMP_def block_times_def
    EVBREAK_CANCEL_def EVBREAK_ONE_def after_poll_def timers_reify_def timer_due_def periodics_reify.simps periodic_due_def idle_reify_def
    invoke_def ev_invoke_pending_def eval_nat_numeral)
  done


section \<open>A round delivers what is due\<close>

lemma more_members:
  assumes "ev_times.more s' = ev_times.more (s :: 'a ev_loop_scheme)"
  shows "idleall s' = idleall s" "checks s' = checks s" "loop_done s' = loop_done s"
  using assms by (cases s; cases s'; simp)+

text \<open>
  C11. The end of a round delivers the timers that are due, each once, in the order of their priorities and
  within a priority in the order of their times: \<open>timers_reify\<close>, \<open>periodics_reify\<close>, \<open>idle_reify\<close> and
  \<open>ev_invoke_pending\<close> together, for a loop in which nothing else is to be done and callbacks that do
  not change the queues.
\<close>

theorem round_fires_timers:
  fixes s :: "'a ev_loop_scheme"
  assumes "timers_ok s" "timer_due s" "rfeeds s = []" "\<And>p. pendings s p = []"
    and "periodiccnt s = 0" "idleall s = 0" "checks s = []" "quiet (env_cb env)" "card (due s) * NUMPRI + NUMPRI \<le> env_fuel env"
  shows "\<exists>s' es. after_poll env (tr, s) = Some (tr @ concat (map (\<lambda>p. map (\<lambda>w. (w, EV_TIMER))
      (filter (\<lambda>w. ABSPRI (wt s w) = p) es)) [4, 3, 2, 1, 0]), s')
    \<and> distinct es \<and> set es = due s \<and> sorted_wrt (\<lambda>v w. w_at (wt s v) \<le> w_at (wt s w)) es"
proof -
  from timers_reify_order [OF assms(1,3,4,2)] obtain s1 es where es: "timers_reify s = Some s1" "distinct es" "set es = due s"
    "sorted_wrt (\<lambda>v w. w_at (wt s v) \<le> w_at (wt s w)) es"
    "\<forall>p. rev (pendings s1 p) = map (\<lambda>w. (w, EV_TIMER)) (filter (\<lambda>w. ABSPRI (wt s w) = p) es)" by blast
  have k: "periodiccnt s1 = 0" "idleall s1 = 0" "checks s1 = []"
    using timers_reify_beyond [OF es(1)] more_members [of s1 s] assms(5-7) by simp_all
  have r: "after_poll env (tr, s) = invoke env (tr, s1)"
    by (simp add: after_poll_def es(1) periodics_reify.simps periodic_due_def k idle_reify_def)
  let ?s = "s1\<lparr>pendingpri := NUMPRI - 1\<rparr>"
  have "length (pendings s1 p) \<le> card (due s)" for p
  proof -
    have "length (pendings s1 p) = length (filter (\<lambda>w. ABSPRI (wt s w) = p) es)"
      using es(5) by (metis length_map length_rev)
    also have "\<dots> \<le> length es" by (rule length_filter_le)
    also have "\<dots> = card (due s)" using es(2,3) distinct_card by metis
    finally show ?thesis .
  qed
  then have "(\<Sum>p \<le> 4. length (pendings s1 p) + 1) \<le> (\<Sum>p :: nat \<le> 4. card (due s) + 1)"
    by (intro sum_mono) simp
  then have "(\<Sum>p \<le> pendingpri ?s. length (pendings ?s p) + 1) \<le> env_fuel env" using assms(9) by simp
  from invoke_loop_quiet [OF assms(8) this] obtain s' where s': "ev_invoke_pending (env_fuel env) (env_cb env) s1
      = Some (deliveries ?s 4, s')" by (auto simp: ev_invoke_pending_def)
  have "deliveries ?s 4 = concat (map (\<lambda>p. rev (pendings s1 p)) [4, 3, 2, 1, 0])" by (simp add: eval_nat_numeral)
  also have "\<dots> = concat (map (\<lambda>p. map (\<lambda>w. (w, EV_TIMER)) (filter (\<lambda>w. ABSPRI (wt s w) = p) es)) [4, 3, 2, 1, 0])"
    using es(5) by simp
  finally show ?thesis using r s' es(2-4) by (auto simp: invoke_def)
qed

lemma round_fires_timers_witness:
  "\<exists>s'. after_poll still_env ([], one_timer\<lparr>mn_now := 20\<rparr>) = Some ([(3, EV_TIMER)], s')"
proof -
  let ?s = "one_timer\<lparr>mn_now := 20\<rparr>"
  have ok: "timers_ok ?s" "timer_set ?s = {3}" using one_timer_ok by (simp_all add: timers_ok_def pend_ok_def)
  have m: "rfeeds ?s = []" "\<And>p. pendings ?s p = []" "periodiccnt ?s = 0" "idleall ?s = 0" "checks ?s = []"
    "w_at (wt ?s 3) = 15" "ABSPRI (wt ?s 3) = 2"
    by (simp_all add: one_timer_def zero_loop_def ABSPRI_def EV_MINPRI_def idle_watcher_def)
  have d: "due ?s = {3}" using m(6) ok(2) by (auto simp: due_def)
  then have td: "timer_due ?s" using root_due(1) [OF ok(1)] by simp
  have q: "quiet (env_cb still_env)" "card (due ?s) * NUMPRI + NUMPRI \<le> env_fuel still_env"
    by (simp_all add: quiet_def still_env_def d)
  from round_fires_timers [OF ok(1) td m(1-5) q, of "[]"] obtain s' es where r:
    "after_poll still_env ([], ?s) = Some ([] @ concat (map (\<lambda>p. map (\<lambda>w. (w, EV_TIMER))
      (filter (\<lambda>w. ABSPRI (wt ?s w) = p) es)) [4, 3, 2, 1, 0]), s')" "distinct es" "set es = {3}" unfolding d by blast
  have "length es = 1" using r(2,3) distinct_card [of es] by simp
  then have "es = [3]" using r(3) by (cases es) auto
  then show ?thesis using r(1) m(7) by simp
qed

end
