(* ===== verification/EvSetup.thy ===== *)
theory EvSetup
  imports EvRun
begin

text \<open>
  \<open>libev-4.15/ev.c\<close>: creating and destroying a loop, the checks of \<open>ev_verify\<close>, and \<open>ev_once\<close>.  What
  the system says (process id, environment, clocks) is a parameter, and so are the \<open>init\<close> and
  \<open>destroy\<close> functions of the backends, listed in the order in which the code tries them; the descriptors
  of inotify and signalfd are left out.  \<open>ev_verify\<close> returns \<open>Some False\<close> where an assertion fails and
  \<open>None\<close> where it would not return; the capacities of the arrays are not part of the model.
\<close>

section \<open>Translation: creating a loop\<close>

text \<open>The callbacks of the loop's own watchers (a callback is a number).\<close>

definition PENDINGCB :: nat where "PENDINGCB = 1"
definition PIPECB :: nat where "PIPECB = 2"
definition CHILDCB :: nat where "CHILDCB = 3"
definition ONCE_CB_IO :: nat where "ONCE_CB_IO = 4"
definition ONCE_CB_TO :: nat where "ONCE_CB_TO = 5"

definition SIGCHLD :: int where "SIGCHLD = 17"

record 's setup_env =
  su_pid :: int
  su_secure :: bool
  su_flags :: "u32_t option"
  su_monotonic :: bool
  su_wall :: ev_tstamp
  su_clock :: ev_tstamp
  su_backends :: "(u32_t \<times> (u32_t \<Rightarrow> 's \<Rightarrow> u32_t \<times> 's)) list"

text \<open>\<open>if (!backend && (flags & BIT)) backend = init (EV_A_ flags);\<close>\<close>

definition try_backend :: "u32_t \<Rightarrow> u32_t \<times> (u32_t \<Rightarrow> 'a ev_loop_scheme \<Rightarrow> u32_t \<times> 'a ev_loop_scheme) \<Rightarrow>
    'a ev_loop_scheme \<Rightarrow> 'a ev_loop_scheme" where
  "try_backend flags bi s =
     (if backend s = 0 \<and> flags AND fst bi \<noteq> 0
      then let (b, s') = snd bi flags s in s'\<lparr>backend := b\<rparr>
      else s)"

definition loop_init :: "'a ev_loop_scheme setup_env \<Rightarrow> u32_t \<Rightarrow> 'a ev_loop_scheme \<Rightarrow> 'a ev_loop_scheme" where
  "loop_init env flags s =
     (if backend s \<noteq> 0 then s
      else
        let s1 = s\<lparr>origflags := flags\<rparr>;
            s2 = (if have_monotonic s1 then s1 else s1\<lparr>have_monotonic := su_monotonic env\<rparr>);
            s3 = (if flags AND EVFLAG_FORKCHECK \<noteq> 0 then s2\<lparr>curpid := su_pid env\<rparr> else s2);
            flags = (if flags AND EVFLAG_NOENV = 0 \<and> \<not> su_secure env
                     then (case su_flags env of Some f \<Rightarrow> f | None \<Rightarrow> flags) else flags);
            s4 = s3\<lparr>ev_rt_now := su_wall env, mn_now := su_clock env, now_floor := su_clock env,
                    rtmn_diff := su_wall env - su_clock env\<rparr>;
            s5 = s4\<lparr>io_blocktime := 0, timeout_blocktime := 0, backend := 0, backend_fd := -1, sig_pending := False,
                    async_pending := False, pipe_write_skipped := False, pipe_write_wanted := False,
                    evpipe0 := -1, evpipe1 := -1\<rparr>;
            flags = (if flags AND EVBACKEND_MASK = 0
                     then flags OR ev_recommended_backends (fold (\<lambda>bi acc. acc OR fst bi) (su_backends env) 0) else flags);
            s6 = fold (try_backend flags) (su_backends env) s5;
            s7 = upd_w pending_w (ev_init PENDINGCB) s6
        in upd_w (pipe_w s7) (\<lambda>x. ev_set_priority EV_MAXPRI (ev_init PIPECB x)) s7)"

definition ev_loop_new :: "ev_loop setup_env \<Rightarrow> u32_t \<Rightarrow> wid \<Rightarrow> wid \<Rightarrow> (wid \<Rightarrow> watcher) \<Rightarrow> ev_loop option" where
  "ev_loop_new env flags pw cw ws =
     (let s = loop_init env flags (zero_loop pw cw ws) in if ev_backend s \<noteq> 0 then Some s else None)"

text \<open>\<open>default_loop\<close> says that \<open>ev_default_loop_ptr\<close> points to this loop.\<close>

definition ev_default_loop ::
    "'a ev_loop_scheme setup_env \<Rightarrow> int \<times> int \<Rightarrow> u32_t \<Rightarrow> 'a ev_loop_scheme \<Rightarrow> 'a ev_loop_scheme option" where
  "ev_default_loop env fds flags s =
     (if default_loop s then Some s
      else
        let s1 = loop_init env flags (s\<lparr>default_loop := True\<rparr>) in
        if ev_backend s1 \<noteq> 0 then
          map_option ev_unref (ev_signal_start fds (childev s1)
            (upd_w (childev s1) (\<lambda>x. ev_set_priority EV_MAXPRI (ev_signal_init CHILDCB SIGCHLD x)) s1))
        else Some (s1\<lparr>default_loop := False\<rparr>))"

section \<open>Translation: destroying a loop\<close>

text \<open>\<open>array_free\<close> of all arrays.\<close>

definition free_arrays :: "'a ev_loop_scheme \<Rightarrow> 'a ev_loop_scheme" where
  "free_arrays s = s\<lparr>pendings := (\<lambda>_. []), idles := (\<lambda>_. []), anfds := [], rfeeds := [], fdchanges := [], timercnt := 0,
     periodiccnt := 0, forks := [], cleanups := [], prepares := [], checks := [], asyncs := []\<rparr>"

text \<open>The result: the callbacks made, the descriptors closed, and the loop, whose memory is given back
when it is not the default loop (\<open>None\<close>).  \<open>destroy\<close> are the functions of the backends.\<close>

definition ev_loop_destroy ::
    "'a ev_loop_scheme run_env \<Rightarrow> (u32_t \<Rightarrow> 'a ev_loop_scheme \<Rightarrow> 'a ev_loop_scheme) \<Rightarrow> 'a ev_loop_scheme \<Rightarrow>
     ((wid \<times> evmask) list \<times> int list \<times> 'a ev_loop_scheme option) option" where
  "ev_loop_destroy env destroy s = do {
     st1 \<leftarrow> (if cleanups s \<noteq> [] then invoke env ([], queue_events (cleanups s) EV_CLEANUP s) else Some ([], s));
     let s1 = snd st1;
     s2 \<leftarrow> (if default_loop s1 \<and> active (wt s1 (childev s1)) \<noteq> 0 then ev_signal_stop (childev s1) (ev_ref s1) else Some s1);
     let closed = (if active (wt s2 (pipe_w s2)) \<noteq> 0
                   then (if evpipe0 s2 \<ge> 0 then [evpipe0 s2] else []) @ (if evpipe1 s2 \<ge> 0 then [evpipe1 s2] else []) else [])
                 @ (if backend_fd s2 \<ge> 0 then [backend_fd s2] else []);
     let s3 = (free_arrays (destroy (backend s2) s2))\<lparr>backend := 0\<rparr>;
     Some (fst st1, closed, if default_loop s3 then Some (s3\<lparr>default_loop := False\<rparr>) else None) }"

section \<open>Translation: the checks\<close>

definition verify_watcher :: "'a ev_base_scheme \<Rightarrow> wid \<Rightarrow> bool" where
  "verify_watcher s w \<longleftrightarrow>
     priority (wt s w) - EV_MINPRI \<ge> 0 \<and> ABSPRI (wt s w) < NUMPRI
   \<and> (pending (wt s w) \<noteq> 0 \<longrightarrow>
        (let q = pendings s (ABSPRI (wt s w)); i = pending (wt s w) - 1 in i < length q \<and> fst (q ! i) = w))"

definition verify_heap :: "heap \<Rightarrow> nat \<Rightarrow> 'a ev_base_scheme \<Rightarrow> bool" where
  "verify_heap h N s \<longleftrightarrow>
     list_all (\<lambda>i. active (wt s (ANHE_w (h i))) = int i
       \<and> (i = HEAP0 \<or> ANHE_at (h (HPARENT i)) \<le> ANHE_at (h i))
       \<and> ANHE_at (h i) = w_at (wt s (ANHE_w (h i)))
       \<and> verify_watcher s (ANHE_w (h i))) [HEAP0..<N + HEAP0]"

fun array_verify :: "wid list \<Rightarrow> nat \<Rightarrow> 'a ev_base_scheme \<Rightarrow> bool" where
  "array_verify ws 0 s = True"
| "array_verify ws (Suc cnt) s =
     (active (wt s (ws ! cnt)) = int cnt + 1 \<and> verify_watcher s (ws ! cnt) \<and> array_verify ws cnt s)"

text \<open>\<open>w2\<close> follows \<open>w\<close> at half its speed, so that a list with a loop is noticed.\<close>

partial_function (option) verify_list :: "nat \<Rightarrow> wid option \<Rightarrow> wid option \<Rightarrow> nat \<Rightarrow> 'a ev_base_scheme \<Rightarrow> bool option" where
  "verify_list fd p p2 j s =
     (case p of
        None \<Rightarrow> Some True
      | Some w \<Rightarrow>
          if \<not> verify_watcher s w then Some False
          else if odd j \<and> Some w = p2 then Some False
          else if active (wt s w) \<noteq> 1 then Some False
          else if io_fd (wt s w) \<noteq> int fd then Some False
          else verify_list fd (w_next (wt s w))
            (if odd j then Option.bind p2 (\<lambda>v. w_next (wt s v)) else p2) (Suc j) s)"

fun verify_fds :: "nat list \<Rightarrow> 'a ev_fds_scheme \<Rightarrow> bool option" where
  "verify_fds [] s = Some True"
| "verify_fds (fd # fds) s =
     (let h = head (anfds s ! fd) in
      Option.bind (verify_list fd h h 0 s) (\<lambda>good. if good then verify_fds fds s else Some False))"

abbreviation whole_array :: "wid list \<Rightarrow> 'a ev_base_scheme \<Rightarrow> bool" where
  "whole_array ws \<equiv> array_verify ws (length ws)"

definition ev_verify :: "'a ev_pipe_scheme \<Rightarrow> bool option" where
  "ev_verify s =
     (if \<not> activecnt s \<ge> -1 then Some False
      else Option.bind (verify_fds [0..<length (anfds s)] s) (\<lambda>good. Some (good
        \<and> verify_heap (timers s) (timercnt s) s
        \<and> verify_heap (periodics s) (periodiccnt s) s
        \<and> list_all (\<lambda>i. idleall s \<ge> 0 \<and> whole_array (idles s i) s) (rev [0..<NUMPRI])
        \<and> whole_array (forks s) s \<and> whole_array (cleanups s) s \<and> whole_array (asyncs s) s
        \<and> whole_array (prepares s) s \<and> whole_array (checks s) s)))"

section \<open>Translation: one-shot callbacks\<close>

text \<open>\<open>io\<close> and \<open>tm\<close> are the two watchers of a \<open>struct ev_once\<close>, \<open>f\<close> is its callback with its argument.\<close>

type_synonym 's once_fun = "evmask \<Rightarrow> 's \<Rightarrow> 's"

definition once_cb ::
    "'a ev_times_scheme once_fun \<Rightarrow> wid \<Rightarrow> wid \<Rightarrow> evmask \<Rightarrow> 'a ev_times_scheme \<Rightarrow> 'a ev_times_scheme option" where
  "once_cb f io tm revents s = Option.bind (ev_io_stop io s) (\<lambda>s1. map_option (f revents) (ev_timer_stop tm s1))"

definition once_cb_io ::
    "'a ev_times_scheme once_fun \<Rightarrow> wid \<Rightarrow> wid \<Rightarrow> evmask \<Rightarrow> 'a ev_times_scheme \<Rightarrow> 'a ev_times_scheme option" where
  "once_cb_io f io tm revents s = (let (p, s1) = ev_clear_pending tm s in once_cb f io tm (revents OR p) s1)"

definition once_cb_to ::
    "'a ev_times_scheme once_fun \<Rightarrow> wid \<Rightarrow> wid \<Rightarrow> evmask \<Rightarrow> 'a ev_times_scheme \<Rightarrow> 'a ev_times_scheme option" where
  "once_cb_to f io tm revents s = (let (p, s1) = ev_clear_pending io s in once_cb f io tm (revents OR p) s1)"

text \<open>\<open>once\<close> is what the allocation of the structure returns.\<close>

definition ev_once :: "'a ev_times_scheme once_fun \<Rightarrow> (wid \<times> wid) option \<Rightarrow> int \<Rightarrow> evmask \<Rightarrow> ev_tstamp \<Rightarrow>
    'a ev_times_scheme \<Rightarrow> 'a ev_times_scheme option" where
  "ev_once f once fd events timeout s =
     (case once of
        None \<Rightarrow> Some (f (EV_ERROR OR EV_READ OR EV_WRITE OR EV_TIMER) s)
      | Some (io, tm) \<Rightarrow>
          (let s1 = upd_w io (ev_init ONCE_CB_IO) s in
           Option.bind (if fd \<ge> 0 then ev_io_start io (upd_w io (ev_io_set fd events) s1) else Some s1) (\<lambda>s2.
             let s3 = upd_w tm (ev_init ONCE_CB_TO) s2 in
             if timeout \<ge> 0 then ev_timer_start tm (upd_w tm (ev_timer_set timeout 0) s3) else Some s3)))"

section \<open>The checks are the invariants\<close>

lemma verify_heap_iff:
  "verify_heap h N s \<longleftrightarrow> theap N h (wt s) \<and> (\<forall>w \<in> members N h. verify_watcher s w)"
proof -
  let ?I = "{i. HEAP0 \<le> i \<and> i < N + HEAP0}"
  have "verify_heap h N s \<longleftrightarrow> (\<forall>i \<in> ?I. active (wt s (ANHE_w (h i))) = int i
      \<and> (i = HEAP0 \<or> ANHE_at (h (HPARENT i)) \<le> ANHE_at (h i)) \<and> ANHE_at (h i) = w_at (wt s (ANHE_w (h i)))
      \<and> verify_watcher s (ANHE_w (h i)))"
    by (auto simp: verify_heap_def list_all_iff)
  moreover have "distinct (map ANHE_w (elems HEAP0 N h))" if "\<forall>i \<in> ?I. active (wt s (ANHE_w (h i))) = int i"
    unfolding distinct_conv_nth
  proof (intro allI impI)
    fix i j assume ij: "i < length (map ANHE_w (elems HEAP0 N h))" "j < length (map ANHE_w (elems HEAP0 N h))" "i \<noteq> j"
    then have "active (wt s (ANHE_w (h (HEAP0 + i)))) = int (HEAP0 + i)" "active (wt s (ANHE_w (h (HEAP0 + j)))) = int (HEAP0 + j)"
      using that by (auto simp: elems_def)
    then show "map ANHE_w (elems HEAP0 N h) ! i \<noteq> map ANHE_w (elems HEAP0 N h) ! j"
      using ij by (auto simp: elems_def)
  qed
  ultimately show ?thesis
    by (auto simp: theap_def heap_ok_def cached_def members_def elems_def add.commute le_less)
qed

lemma array_verify_iff: "whole_array ws s \<longleftrightarrow> indexed (wt s) ws \<and> (\<forall>w \<in> set ws. verify_watcher s w)"
proof -
  have "n \<le> length ws \<Longrightarrow> array_verify ws n s \<longleftrightarrow> (\<forall>i < n. active (wt s (ws ! i)) = int i + 1 \<and> verify_watcher s (ws ! i))" for n
    by (induction n) (auto simp: less_Suc_eq)
  from this [of "length ws"] show ?thesis by (auto simp: indexed_def all_set_conv_all_nth)
qed

text \<open>The walk along a list: \<open>nth_link\<close> is what \<open>w\<close> points to after \<open>n\<close> steps.\<close>

fun nth_link :: "(wid \<Rightarrow> wid option) \<Rightarrow> wid option \<Rightarrow> nat \<Rightarrow> wid option" where
  "nth_link nx p 0 = p"
| "nth_link nx p (Suc n) = Option.bind (nth_link nx p n) nx"

lemma nth_link_add: "nth_link nx p a = nth_link nx p b \<Longrightarrow> nth_link nx p (a + n) = nth_link nx p (b + n)"
  by (induction n) simp_all

lemma chain_nth_link:
  "chain nx p xs \<Longrightarrow> nth_link nx p n = (if n < length xs then Some (xs ! n) else None)"
proof (induction n)
  case 0
  then show ?case by (cases xs) auto
next
  case (Suc n)
  have step: "chain nx q ys \<Longrightarrow> n < length ys \<Longrightarrow> nx (ys ! n) = (if Suc n < length ys then Some (ys ! Suc n) else None)" for q ys n
  proof (induction ys arbitrary: q n)
    case (Cons y ys)
    then show ?case by (cases n; cases ys) auto
  qed simp
  show ?case using Suc.IH [OF Suc.prems] step [OF Suc.prems, of n] by auto
qed

lemma chain_links_differ:
  assumes "chain nx p xs" "i < j" "j < length xs"
  shows "nth_link nx p i \<noteq> nth_link nx p j"
proof
  assume "nth_link nx p i = nth_link nx p j"
  from nth_link_add [OF this, of "length xs - j"] have "nth_link nx p (i + (length xs - j)) = None"
    using assms(3) by (simp add: chain_nth_link [OF assms(1)])
  moreover have "i + (length xs - j) < length xs" using assms(2,3) by simp
  ultimately show False by (simp only: chain_nth_link [OF assms(1)]) simp
qed

lemma links_repeat:
  assumes "finite W" "\<And>n. \<exists>w \<in> W. nth_link nx p n = Some w"
  shows "\<exists>m. nth_link nx p (2 * m + 1) = nth_link nx p m"
proof -
  have "\<not> inj (nth_link nx p)"
  proof
    assume "inj (nth_link nx p)"
    moreover have "range (nth_link nx p) \<subseteq> Some ` W" using assms(2) by (metis image_eqI image_subsetI)
    ultimately have "finite (UNIV :: nat set)" using assms(1) finite_imageD finite_subset finite_imageI by metis
    then show False by simp
  qed
  then obtain a b where ab: "a < b" "nth_link nx p a = nth_link nx p b" unfolding inj_def by (metis nat_neq_iff)
  let ?l = "b - a"
  have per: "nth_link nx p (a + i + k * ?l) = nth_link nx p (a + i)" for i k
  proof (induction k)
    case (Suc k)
    have "nth_link nx p (a + (i + k * ?l)) = nth_link nx p (b + (i + k * ?l))" by (rule nth_link_add [OF ab(2)])
    moreover have "b + (i + k * ?l) = a + i + Suc k * ?l" using ab(1) by simp
    ultimately show ?case using Suc.IH by (simp add: add.assoc)
  qed simp
  let ?m = "(a + 1) * ?l - 1"
  have ge: "a + 1 \<le> (a + 1) * ?l" using ab(1) mult_le_mono2 [of 1 ?l "a + 1"] by simp
  have "a \<le> ?m" using ge by linarith
  then obtain i where i: "?m = a + i" unfolding le_iff_add by blast
  then have "2 * ?m + 1 = a + i + (a + 1) * ?l" using ge by linarith
  then show ?thesis using per [of i "a + 1"] i by metis
qed

definition listed_ok :: "nat \<Rightarrow> 'a ev_base_scheme \<Rightarrow> wid \<Rightarrow> bool" where
  "listed_ok fd s w \<longleftrightarrow> verify_watcher s w \<and> active (wt s w) = 1 \<and> io_fd (wt s w) = int fd"

lemma verify_list_step:
  fixes s :: "'a ev_base_scheme" and p fd
  defines "x \<equiv> nth_link (nexts (wt s)) p"
  defines "r \<equiv> \<lambda>j. verify_list fd (x j) (x (j div 2)) j s"
  shows "x j = None \<Longrightarrow> r j = Some True"
    "x j = Some w \<Longrightarrow> r j = (if \<not> listed_ok fd s w \<or> odd j \<and> x j = x (j div 2) then Some False else r (Suc j))"
proof -
  show "x j = None \<Longrightarrow> r j = Some True" unfolding r_def by (subst verify_list.simps) simp
  assume w: "x j = Some w"
  have "x (Suc j) = w_next (wt s w)" using w by (simp add: x_def)
  moreover have "x (Suc j div 2) = (if odd j then Option.bind (x (j div 2)) (\<lambda>v. w_next (wt s v)) else x (j div 2))"
    by (auto simp: x_def elim!: oddE)
  ultimately show "r j = (if \<not> listed_ok fd s w \<or> odd j \<and> x j = x (j div 2) then Some False else r (Suc j))"
    unfolding r_def w by (subst verify_list.simps) (auto simp: listed_ok_def)
qed

lemma verify_list_sound:
  assumes "verify_list fd p p2 j s = Some True"
  shows "\<exists>xs. chain (nexts (wt s)) p xs \<and> (\<forall>w \<in> set xs. listed_ok fd s w)"
proof -
  let ?P = "\<lambda>fd p s b. b \<longrightarrow> (\<exists>xs. chain (nexts (wt s)) p xs \<and> (\<forall>w \<in> set xs. listed_ok fd s w))"
  have "?P fd p s True"
  proof (rule verify_list.raw_induct [of "\<lambda>fd p p2 j s b. ?P fd p s b", OF _ assms])
    fix vl :: "nat \<Rightarrow> wid option \<Rightarrow> wid option \<Rightarrow> nat \<Rightarrow> 'a ev_base_scheme \<Rightarrow> bool option" and fd p p2 j s b
    assume ih: "\<And>fd p p2 j s b. vl fd p p2 j s = Some b \<Longrightarrow> ?P fd p s b"
      and r: "(case p of
        None \<Rightarrow> Some True
      | Some w \<Rightarrow>
          if \<not> verify_watcher s w then Some False
          else if odd j \<and> Some w = p2 then Some False
          else if active (wt s w) \<noteq> 1 then Some False
          else if io_fd (wt s w) \<noteq> int fd then Some False
          else vl fd (w_next (wt s w)) (if odd j then Option.bind p2 (\<lambda>v. w_next (wt s v)) else p2) (Suc j) s) = Some b"
    show "?P fd p s b"
    proof (cases p)
      case None
      then have "chain (nexts (wt s)) p []" by simp
      then show ?thesis by fastforce
    next
      case (Some w)
      show ?thesis
      proof
        assume b
        then have ok: "listed_ok fd s w" and
          "vl fd (w_next (wt s w)) (if odd j then Option.bind p2 (\<lambda>v. w_next (wt s v)) else p2) (Suc j) s = Some True"
          using r unfolding Some by (auto simp: listed_ok_def split: if_splits)
        from ih [OF this(2)] obtain xs where xs: "chain (nexts (wt s)) (w_next (wt s w)) xs" "\<forall>v \<in> set xs. listed_ok fd s v"
          by iprover
        show "\<exists>xs. chain (nexts (wt s)) p xs \<and> (\<forall>w \<in> set xs. listed_ok fd s w)"
          by (rule exI [of _ "w # xs"]) (use xs ok Some in simp)
      qed
    qed
  qed
  then show ?thesis by simp
qed

text \<open>A list in a finite memory: it ends or comes back, and either is noticed.\<close>

definition in_memory :: "wid set \<Rightarrow> (wid \<Rightarrow> wid option) \<Rightarrow> wid option \<Rightarrow> bool" where
  "in_memory W nx p \<longleftrightarrow> finite W \<and> (\<forall>w. p = Some w \<longrightarrow> w \<in> W) \<and> (\<forall>v \<in> W. \<forall>w. nx v = Some w \<longrightarrow> w \<in> W)"

lemma in_memory_nth: "in_memory W nx p \<Longrightarrow> nth_link nx p n = Some w \<Longrightarrow> w \<in> W"
proof (induction n arbitrary: w)
  case 0
  then show ?case by (simp add: in_memory_def)
next
  case (Suc n)
  then obtain v where "nth_link nx p n = Some v" "nx v = Some w" by (auto simp: bind_eq_Some_conv)
  then show ?case using Suc.IH [of v] Suc.prems(1) by (simp add: in_memory_def)
qed

lemma verify_list_ends:
  assumes "in_memory W (nexts (wt s)) p"
  shows "verify_list fd p p 0 s \<noteq> None"
proof -
  let ?x = "nth_link (nexts (wt s)) p"
  let ?r = "\<lambda>j. verify_list fd (?x j) (?x (j div 2)) j s"
  have stop: "\<exists>j. ?r j \<noteq> None"
  proof (cases "\<exists>n. ?x n = None")
    case True
    then obtain n where n: "?x n = None" by blast
    have "?r n = Some True" by (rule verify_list_step(1)) (rule n)
    then show ?thesis by blast
  next
    case False
    then have "\<And>n. \<exists>w \<in> W. ?x n = Some w" using in_memory_nth [OF assms] by (metis not_None_eq)
    from links_repeat [OF _ this] obtain m where m: "?x (2 * m + 1) = ?x m" using assms by (auto simp: in_memory_def)
    obtain w where w: "?x (2 * m + 1) = Some w" using False by (cases "?x (2 * m + 1)") blast+
    have "?r (2 * m + 1) = Some False" using m by (subst verify_list_step(2) [OF w]) simp
    then show ?thesis by blast
  qed
  have down: "?r j \<noteq> None" if "?r (Suc j) \<noteq> None" for j :: nat
  proof (cases "?x j")
    case None
    have "?r j = Some True" by (rule verify_list_step(1)) (rule None)
    then show ?thesis by simp
  next
    case (Some w)
    have "?r j = Some False \<or> ?r j = ?r (Suc j)" by (subst (1 2) verify_list_step(2) [OF Some]) simp
    then show ?thesis
    proof
      assume "?r j = Some False"
      then show ?thesis by simp
    next
      assume "?r j = ?r (Suc j)"
      then show ?thesis using that by (simp only: not_False_eq_True)
    qed
  qed
  from stop obtain j where "?r j \<noteq> None" by blast
  then have "?r 0 \<noteq> None" by (induction j) (use down in blast)+
  then show ?thesis by simp
qed

lemma verify_list_complete:
  assumes ch: "chain (nexts (wt s)) p xs" and ok: "\<forall>w \<in> set xs. listed_ok fd s w"
  shows "verify_list fd p p 0 s = Some True"
proof -
  let ?x = "nth_link (nexts (wt s)) p"
  let ?r = "\<lambda>j. verify_list fd (?x j) (?x (j div 2)) j s"
  note x = chain_nth_link [OF ch]
  have "j \<le> length xs \<Longrightarrow> ?r j = Some True" for j
  proof (induction "length xs - j" arbitrary: j)
    case 0
    then have "?x j = None" by (simp add: x)
    then show ?case by (rule verify_list_step(1))
  next
    case (Suc n)
    then have j: "j < length xs" by simp
    have w: "?x j = Some (xs ! j)" using j by (simp add: x)
    have "\<not> (odd j \<and> ?x j = ?x (j div 2))"
    proof
      assume o: "odd j \<and> ?x j = ?x (j div 2)"
      then have "j div 2 < j" by (cases j) auto
      from chain_links_differ [OF ch this j] o show False by metis
    qed
    moreover have "listed_ok fd s (xs ! j)" using ok j by simp
    moreover have "?r (Suc j) = Some True" by (rule Suc.hyps(1)) (use Suc.hyps(2) j in linarith)+
    ultimately show ?case by (subst verify_list_step(2) [OF w]) (simp only: simp_thms if_False)
  qed
  from this [of 0] show ?thesis by simp
qed

lemma verify_list_iff:
  assumes "in_memory W (nexts (wt s)) p"
  shows "verify_list fd p p 0 s = Some (\<exists>xs. chain (nexts (wt s)) p xs \<and> (\<forall>w \<in> set xs. listed_ok fd s w))"
proof -
  obtain b where b: "verify_list fd p p 0 s = Some b" using verify_list_ends [OF assms] by blast
  show ?thesis
  proof (cases b)
    case True
    then show ?thesis using verify_list_sound [of fd p p 0 s] b by simp
  next
    case False
    then show ?thesis using verify_list_complete [of s p _ fd] b by auto
  qed
qed

lemma verify_fds_iff:
  assumes "\<And>fd. fd \<in> set fds \<Longrightarrow> in_memory W (nexts (wt s)) (head (anfds s ! fd))"
  shows "verify_fds fds s = Some (\<forall>fd \<in> set fds. \<exists>xs. chain (nexts (wt s)) (head (anfds s ! fd)) xs
    \<and> (\<forall>w \<in> set xs. listed_ok fd s w))"
  using assms
proof (induction fds)
  case (Cons fd fds)
  note h = verify_list_iff [OF Cons.prems [of fd], of fd]
  show ?case using Cons.IH Cons.prems by (simp add: h)
qed simp

definition verified_array :: "wid list \<Rightarrow> 'a ev_base_scheme \<Rightarrow> bool" where
  "verified_array ws s \<longleftrightarrow> indexed (wt s) ws \<and> (\<forall>w \<in> set ws. verify_watcher s w)"

definition verified_heap :: "heap \<Rightarrow> nat \<Rightarrow> 'a ev_base_scheme \<Rightarrow> bool" where
  "verified_heap h N s \<longleftrightarrow> theap N h (wt s) \<and> (\<forall>w \<in> members N h. verify_watcher s w)"


text \<open>A descriptor whose only watcher is linked to itself.\<close>

definition self_linked :: ev_loop where
  "self_linked = (zero_loop 1 2 (\<lambda>w. (idle_watcher 0)\<lparr>active := 1, w_next := Some 3\<rparr>))\<lparr>anfds := [anfd_zero\<lparr>head := Some 3\<rparr>]\<rparr>"


section \<open>A new loop\<close>

text \<open>What a backend's \<open>init\<close> may change: nothing that the invariants look at.\<close>

definition modest_init :: "(u32_t \<Rightarrow> 'a ev_loop_scheme \<Rightarrow> u32_t \<times> 'a ev_loop_scheme) \<Rightarrow> bool" where
  "modest_init f \<longleftrightarrow> (\<forall>flags s. ev_pipe.truncate (snd (f flags s)) = ev_pipe.truncate s)"

text \<open>No watcher is started, nothing is queued.\<close>

definition empty_loop :: "'a ev_pipe_scheme \<Rightarrow> bool" where
  "empty_loop s \<longleftrightarrow>
     activecnt s = 0 \<and> (\<forall>p. pendings s p = []) \<and> rfeeds s = [] \<and> anfds s = [] \<and> fdchanges s = []
   \<and> timercnt s = 0 \<and> periodiccnt s = 0 \<and> (\<forall>p. idles s p = []) \<and> idleall s = 0
   \<and> prepares s = [] \<and> checks s = [] \<and> forks s = [] \<and> cleanups s = [] \<and> asyncs s = []"

lemma truncate_members:
  assumes "ev_pipe.truncate s' = ev_pipe.truncate (s :: 'a ev_pipe_scheme)"
  shows "wt s' = wt s" "empty_loop s' = empty_loop s" "pipe_w s' = pipe_w s"
  using assms by (cases s; cases s'; simp add: ev_pipe.truncate_def empty_loop_def)+

lemma fold_try_backend:
  "\<forall>bi \<in> set bs. modest_init (snd bi) \<Longrightarrow> ev_pipe.truncate (fold (try_backend flags) bs s) = ev_pipe.truncate s"
proof (induction bs arbitrary: s)
  case (Cons bi bs)
  have b: "ev_pipe.truncate (t\<lparr>backend := b\<rparr>) = ev_pipe.truncate t" for t :: "'a ev_loop_scheme" and b
    by (cases t) (simp add: ev_pipe.truncate_def)
  have "ev_pipe.truncate (try_backend flags bi s) = ev_pipe.truncate s"
    using Cons.prems by (auto simp: try_backend_def modest_init_def b split: prod.splits) (metis snd_conv)
  then show ?case using Cons by simp
qed simp

lemma empty_loop_invariants:
  assumes "empty_loop s" "\<And>w. pending (wt s w) = 0"
  shows "fd_ok (\<lambda>_. []) s" "pend_ok s" "timers_ok s" "ev_verify s = Some True"
proof -
  have e: "activecnt s = 0" "\<And>p. pendings s p = []" "anfds s = []" "fdchanges s = []" "timercnt s = 0" "periodiccnt s = 0"
    "\<And>p. idles s p = []" "idleall s = 0" "prepares s = []" "checks s = []" "forks s = []" "cleanups s = []" "asyncs s = []"
    using assms(1) by (simp_all add: empty_loop_def)
  show "fd_ok (\<lambda>_. []) s" by (simp add: fd_ok_def fd_lists_def changes_ok_def synced_def e)
  show p: "pend_ok s" using assms(2) by (simp add: pend_ok_def e)
  show "timers_ok s" by (simp add: timers_ok_def p theap_def heap_ok_def cached_def members_def elems_def e)
  show "ev_verify s = Some True" by (simp add: ev_verify_def verify_heap_def e list_all_iff)
qed

lemma loop_init_steps:
  assumes "backend s = 0"
  shows "\<exists>fl s5. loop_init env flags s = (let s7 = upd_w pending_w (ev_init PENDINGCB) (fold (try_backend fl) (su_backends env) s5)
       in upd_w (pipe_w s7) (\<lambda>x. ev_set_priority EV_MAXPRI (ev_init PIPECB x)) s7)
    \<and> ev_pipe.truncate s5 = ev_pipe.truncate (s\<lparr>have_monotonic := have_monotonic s \<or> su_monotonic env, ev_rt_now := su_wall env,
        mn_now := su_clock env, now_floor := su_clock env, rtmn_diff := su_wall env - su_clock env, sig_pending := False,
        async_pending := False, pipe_write_skipped := False, pipe_write_wanted := False, evpipe0 := -1, evpipe1 := -1\<rparr>)"
proof -
  have nb: "\<not> backend s \<noteq> 0" using assms by simp
  show ?thesis unfolding loop_init_def if_not_P [OF nb] Let_def
    by (intro exI conjI, rule refl) (simp add: ev_pipe.truncate_def)
qed


text \<open>A build with only a select backend that always works.\<close>

definition select_only :: "ev_loop setup_env" where
  "select_only = \<lparr>su_pid = 42, su_secure = False, su_flags = None, su_monotonic = True, su_wall = 1000, su_clock = 10,
     su_backends = [(EVBACKEND_SELECT, \<lambda>flags s. (EVBACKEND_SELECT, s))]\<rparr>"


end
