(* ===== verification/Server.thy ===== *)
theory Server
  imports EvSetup MemPool ListMq ObdFrame ThreadPool
begin

text \<open>
  \<open>main-ev.c\<close> and the last part of \<open>OBD_struct.h\<close>: the server.  The event loop accepts connections
  and receives messages (\<open>accept_func_cb\<close>, \<open>read_func_cb\<close>), one thread moves them from the message queue
  to the thread pool (\<open>thread_func_cb\<close>), the workers decode them (\<open>OBD_decode_thread\<close>).  The state is the
  loop extended by the variables of the program; watchers and messages live in blocks of two memory
  pools, and an address of a block is the identity of the watcher, of the message, and of its list node
  (\<open>list_entry\<close> is the identity).  What \<open>recv\<close>, \<open>accept\<close>, \<open>socket\<close> and the allocator return are
  parameters.  An undefined access (a null pointer, an index out of range, a value that was never
  returned) is \<open>Fault\<close>, waiting for ever for a mutex is \<open>Blocked\<close>.  \<open>closed\<close>, \<open>sent\<close> and
  \<open>printed\<close> record the effects outside.
\<close>

section \<open>State\<close>

definition READ_CB :: nat where "READ_CB = 11"
definition ACCEPT_CB :: nat where "ACCEPT_CB = 12"
definition SIGNAL_CB :: nat where "SIGNAL_CB = 13"
definition DECODE_FN :: nat where "DECODE_FN = 14"
definition SIGINT :: int where "SIGINT = 2"

definition sizeof_ev_io :: u32_t where "sizeof_ev_io = 48"
definition sizeof_OBD_t :: u32_t where "sizeof_OBD_t = 536"

record server = ev_loop +
  sheap :: mheap
  ev_pool :: "addr option"
  obd_pool :: "addr option"
  libev_list :: "wid option list"
  obds :: "addr \<Rightarrow> OBD_t"
  obd_mq :: mq_t
  thread_pool :: "threadpool_t option"
  mq_flag :: bool
  server_socket :: int
  socket_accept :: wid
  signal_watcher :: wid
  closed :: "int list"
  sent :: "(int \<times> string) list"
  printed :: "u8_t list list"

datatype recv_result = RecvError | Received "u8_t list"

section \<open>Messages\<close>

definition OBD_init :: "allocator \<Rightarrow> 'a server_scheme \<Rightarrow> (addr \<times> 'a server_scheme) run" where
  "OBD_init mal s =
     run_bind (Malloc mal (obd_pool s) (sheap s)) (\<lambda>(r, h).
       case r of
         None \<Rightarrow> Fault
       | Some a \<Rightarrow> Done (a, s\<lparr>sheap := h, obd_mq := list_init a (obd_mq s),
           obds := (obds s)(a := (obds s a)\<lparr>data_length := 0, data := replicate BUF_SIZE 0, hex := replicate BUF_SIZE 0\<rparr>)\<rparr>))"

definition OBD_release :: "addr option \<Rightarrow> 'a server_scheme \<Rightarrow> 'a server_scheme run" where
  "OBD_release obd s =
     (case obd of
        None \<Rightarrow> Done s
      | Some a \<Rightarrow>
          (let s1 = s\<lparr>obd_mq := list_init a (obd_mq s), obds := (obds s)(a := (obds s a)\<lparr>data := replicate BUF_SIZE 0\<rparr>)\<rparr> in
           run_bind (Free (obd_pool s1) obd (sheap s1)) (\<lambda>h. Done (s1\<lparr>sheap := h\<rparr>))))"

text \<open>\<open>obd->data[k] = c\<close>: behind the array lies \<open>data_length\<close>.\<close>

definition data_put :: "nat \<Rightarrow> u8_t \<Rightarrow> OBD_t \<Rightarrow> OBD_t run" where
  "data_put k c ob =
     (if k < BUF_SIZE then Done (ob\<lparr>data := (data ob)[k := c]\<rparr>)
      else if k = BUF_SIZE then Done (ob\<lparr>data_length := c\<rparr>)
      else Fault)"

section \<open>Connections\<close>

definition free_libev :: "int \<Rightarrow> 'a server_scheme \<Rightarrow> 'a server_scheme run" where
  "free_libev fd s =
     (if fd > SOCKET_ALLOC_MAX_CLIENT then Done s
      else if \<not> (0 \<le> fd \<and> fd < int (length (libev_list s))) then Fault
      else
        (case libev_list s ! nat fd of
           None \<Rightarrow> Done s
         | Some w \<Rightarrow>
             let s1 = s\<lparr>closed := closed s @ [fd]\<rparr> in
             run_bind (run_of_option (ev_io_stop w s1)) (\<lambda>s2.
             run_bind (Free (ev_pool s2) (Some w) (sheap s2)) (\<lambda>h.
               Done (s2\<lparr>sheap := h, libev_list := (libev_list s2)[nat fd := None]\<rparr>)))))"

definition ev_signal_cb :: "wid \<Rightarrow> evmask \<Rightarrow> 'a server_scheme \<Rightarrow> 'a server_scheme" where
  "ev_signal_cb w revents s = ev_break EVBREAK_ALL s"

definition read_func_cb :: "allocator \<Rightarrow> recv_result \<Rightarrow> wid \<Rightarrow> evmask \<Rightarrow> 'a server_scheme \<Rightarrow> 'a server_scheme run" where
  "read_func_cb mal rcv w revents s =
     run_bind (OBD_init mal s) (\<lambda>(obd, s1).
       if EV_ERROR AND revents \<noteq> 0 then OBD_release (Some obd) s1
       else
         (case rcv of
            RecvError \<Rightarrow> OBD_release (Some obd) s1
          | Received [] \<Rightarrow> run_bind (OBD_release (Some obd) s1) (\<lambda>s2. free_libev (io_fd (wt s2 w)) s2)
          | Received bs \<Rightarrow>
              (let ob = obds s1 obd in
               run_bind (data_put (length bs) 0 (ob\<lparr>data := bs @ drop (length bs) (data ob)\<rparr>)) (\<lambda>ob.
               run_bind (run_of_option (strlen (obd_bytes ob))) (\<lambda>n.
                 let ob = ob\<lparr>data_length := of_nat n\<rparr>; s2 = s1\<lparr>obds := (obds s1)(obd := ob)\<rparr> in
                 if data_length ob = 0 then OBD_release (Some obd) s2
                 else
                   run_bind (OBD_get_cmd ob) (\<lambda>cmd.
                     let s3 = s2\<lparr>obds := (obds s2)(obd := ob\<lparr>obd_id := cmd\<rparr>),
                                 sent := sent s2 @ [(io_fd (wt s2 w), ''OK'')],
                                 obd_mq := list_init obd (obd_mq s2)\<rparr>
                     in run_bind (mq_put obd (obd_mq s3)) (\<lambda>q. Done (s3\<lparr>obd_mq := q\<rparr>))))))))"

definition accept_func_cb :: "allocator \<Rightarrow> int \<Rightarrow> wid \<Rightarrow> evmask \<Rightarrow> 'a server_scheme \<Rightarrow> 'a server_scheme run" where
  "accept_func_cb mal client_socket w revents s =
     run_bind (Malloc mal (ev_pool s) (sheap s)) (\<lambda>(w_client, h).
       let s1 = s\<lparr>sheap := h\<rparr>;
           give_back = (\<lambda>s. run_bind (Free (ev_pool s) w_client (sheap s)) (\<lambda>h. Done (s\<lparr>sheap := h\<rparr>)))
       in case w_client of
            None \<Rightarrow> give_back s1
          | Some wc \<Rightarrow>
              if EV_ERROR AND revents \<noteq> 0 then give_back s1
              else if client_socket < 0 then give_back s1
              else if client_socket > SOCKET_ALLOC_MAX_CLIENT then
                run_bind (give_back s1) (\<lambda>s2. Done (s2\<lparr>closed := closed s2 @ [client_socket]\<rparr>))
              else if \<not> client_socket < int (length (libev_list s1)) then Fault
              else if libev_list s1 ! nat client_socket \<noteq> None then give_back s1
              else
                run_bind (run_of_option (ev_io_start wc (upd_w wc (ev_io_init READ_CB client_socket EV_READ) s1))) (\<lambda>s2.
                  Done (s2\<lparr>libev_list := (libev_list s2)[nat client_socket := Some wc]\<rparr>)))"

section \<open>The dispatcher and the workers\<close>

text \<open>What \<open>printf\<close> and \<open>OBD_decode\<close> show: the command byte and the identifier.\<close>

definition OBD_decode_thread :: "nat \<Rightarrow> addr \<Rightarrow> 'a server_scheme \<Rightarrow> 'a server_scheme run" where
  "OBD_decode_thread n a s =
     run_bind (OBD_filter_escape_and_transfer_to_hex n (obds s a)) (\<lambda>(r, ob).
       OBD_release (Some a) (s\<lparr>obds := (obds s)(a := ob), printed := printed s @ [hex ob ! 1 # OBD_decode ob]\<rparr>))"

text \<open>One round of the loop of \<open>thread_func_cb\<close>; the result says whether the loop is left.\<close>

definition dispatch :: "pthread_rc \<Rightarrow> 'a server_scheme \<Rightarrow> (bool \<times> 'a server_scheme) run" where
  "dispatch rc s =
     run_bind (if mq_flag s then mq_is_empty (obd_mq s) else Done (False, obd_mq s)) (\<lambda>(e, q).
       let s1 = s\<lparr>obd_mq := q\<rparr> in
       if e then Done (True, s1)
       else
         run_bind (mq_get (obd_mq s1)) (\<lambda>(list, q).
           let s2 = s1\<lparr>obd_mq := q\<rparr> in
           case list of
             None \<Rightarrow> Done (False, s2)
           | Some a \<Rightarrow> Done (False, s2\<lparr>thread_pool := snd (threadpool_add rc (thread_pool s2) DECODE_FN a)\<rparr>)))"

fun thread_func_cb :: "nat \<Rightarrow> pthread_rc \<Rightarrow> 'a server_scheme \<Rightarrow> 'a server_scheme run" where
  "thread_func_cb 0 rc s = OutOfFuel"
| "thread_func_cb (Suc n) rc s =
     run_bind (dispatch rc s) (\<lambda>(stop, s'). if stop then Done s' else thread_func_cb n rc s')"

section \<open>The main program\<close>

text \<open>Up to \<open>ev_run\<close>: \<open>sock\<close> is what \<open>socket\<close> returns, \<open>fds\<close> are the descriptors of the loop's pipe.\<close>

definition main_setup ::
    "allocator \<Rightarrow> 'a server_scheme setup_env \<Rightarrow> int \<times> int \<Rightarrow> pthread_rc \<Rightarrow> (threadpool_t \<Rightarrow> threadpool_t) \<Rightarrow> int \<Rightarrow>
     'a server_scheme \<Rightarrow> 'a server_scheme run" where
  "main_setup mal senv fds rc workers sock s =
     run_bind (run_of_option (ev_default_loop senv fds 0 s)) (\<lambda>s1.
     if \<not> default_loop s1 then Fault
     else
       let s2 = s1\<lparr>obd_mq := mq_init ((obd_mq s1)\<lparr>mq_mutex := Unlocked\<rparr>)\<rparr> in
       run_bind (CreateMemoryPool mal sizeof_ev_io (sheap s2)) (\<lambda>(p, h).
       run_bind (CreateMemoryPool mal sizeof_OBD_t h) (\<lambda>(p', h').
         let s3 = s2\<lparr>sheap := h', ev_pool := Some p, obd_pool := Some p',
                     thread_pool := fst (threadpool_create rc workers True True True 8 8), server_socket := sock\<rparr>;
             s4 = upd_w (signal_watcher s3) (ev_signal_init SIGNAL_CB SIGINT) s3
         in run_bind (run_of_option (ev_signal_start fds (signal_watcher s4) s4)) (\<lambda>s5.
              run_of_option (ev_io_start (socket_accept s5)
                (upd_w (socket_accept s5) (ev_io_init ACCEPT_CB (server_socket s5) EV_READ) s5))))))"

text \<open>After \<open>ev_run\<close>: \<open>n\<close> bounds the rounds of the dispatcher that \<open>pthread_join\<close> waits for, \<open>m\<close> the
blocks of the pools.\<close>

definition main_shutdown ::
    "pthread_rc \<Rightarrow> (threadpool_t \<Rightarrow> threadpool_t) \<Rightarrow> 'a server_scheme run_env \<Rightarrow>
     (u32_t \<Rightarrow> 'a server_scheme \<Rightarrow> 'a server_scheme) \<Rightarrow> nat \<Rightarrow> nat \<Rightarrow> 'a server_scheme \<Rightarrow> int run" where
  "main_shutdown rc workers env destroy n m s =
     run_bind (thread_func_cb n rc (s\<lparr>mq_flag := True\<rparr>)) (\<lambda>s1.
       let s2 = s1\<lparr>closed := closed s1 @ [server_socket s1]\<rparr>;
           s3 = s2\<lparr>thread_pool := fst (snd (threadpool_destroy rc workers (thread_pool s2) 0))\<rparr>
       in run_bind (DestroyMemoryPool m (obd_pool s3) (sheap s3)) (\<lambda>(p, h).
          run_bind (DestroyMemoryPool m (ev_pool s3) h) (\<lambda>(p', h').
            let s4 = s3\<lparr>sheap := h', obd_pool := p, ev_pool := p', obd_mq := mq_release (obd_mq s3)\<rparr> in
            run_bind (run_of_option (ev_loop_destroy env destroy s4)) (\<lambda>_. Done 0))))"

end
