(* ===== verification/ServerNet.thy ===== *)
theory ServerNet
  imports Server
begin

text \<open>
  The loop, the connections and the memory of the server.  Two pools share one heap, and the static
  watchers and queue heads are apart from both.  The invariant \<open>net_ok\<close> says which watcher is started on which
  descriptor and which events are queued; opening and closing a connection, kernel events, signals and the
  callbacks of the loop itself keep it.
\<close>

section \<open>Two pools on one heap\<close>

text \<open>\<open>S\<close> are the addresses of static variables; \<open>hp\<close> and \<open>hq\<close> are the blocks in use.\<close>

definition pools_ok :: "addr set \<Rightarrow> addr \<Rightarrow> addr \<Rightarrow> addr set \<Rightarrow> addr set \<Rightarrow> mheap \<Rightarrow> bool" where
  "pools_ok S p q hp hq h \<longleftrightarrow> (\<exists>fp fq. pool_inv p fp hp h \<and> pool_inv q fq hq h
     \<and> insert p (set fp \<union> hp) \<inter> insert q (set fq \<union> hq) = {}
     \<and> S \<subseteq> set (live h) \<and> S \<inter> (insert p (set fp \<union> hp) \<union> insert q (set fq \<union> hq)) = {})"

lemma pools_swap: "pools_ok S p q hp hq h \<Longrightarrow> pools_ok S q p hq hp h"
  unfolding pools_ok_def by blast

lemma pools_disjoint:
  assumes "pools_ok S p q hp hq h"
  shows "hp \<inter> hq = {}" "S \<inter> hp = {}" "S \<inter> hq = {}"
  using assms by (auto simp: pools_ok_def)

lemma pools_malloc:
  assumes "pools_ok S p q hp hq h" "fresh_malloc mal"
  shows "Malloc mal (Some p) h = Done (None, h) \<or>
    (\<exists>a h'. Malloc mal (Some p) h = Done (Some a, h') \<and> a \<notin> hp \<union> hq \<union> S \<and> pools_ok S p q (insert a hp) hq h')"
proof -
  from assms(1) obtain fp fq where i: "pool_inv p fp hp h" "pool_inv q fq hq h"
    "insert p (set fp \<union> hp) \<inter> insert q (set fq \<union> hq) = {}" "S \<subseteq> set (live h)"
    "S \<inter> (insert p (set fp \<union> hp) \<union> insert q (set fq \<union> hq)) = {}" unfolding pools_ok_def by blast
  have qs: "insert q (set fq \<union> hq) \<subseteq> set (live h)" "hp \<subseteq> set (live h)" using i(1,2) by (auto simp: pool_inv_def)
  show ?thesis
  proof (cases fp)
    case (Cons a fp')
    have m: "Malloc mal (Some p) h = Done (Some a, h\<lparr>head_of := (head_of h)(p := (head_of h p)\<lparr>pFirstAvailable := next_of h a\<rparr>)\<rparr>)"
      (is "_ = Done (_, ?h)") using i(1) by (simp add: Malloc_def pool_inv_def Cons)
    have "pool_inv p fp' (insert a hp) ?h" using i(1) by (auto simp: pool_inv_def Cons)
    moreover have "pool_inv q fq hq ?h" using i(2,3) by (auto simp: pool_inv_def)
    ultimately have "pools_ok S p q (insert a hp) hq ?h" using i(3-5) unfolding pools_ok_def
      by (intro exI [of _ fp'] exI [of _ fq]) (auto simp: Cons)
    moreover have "a \<notin> hp \<union> hq \<union> S" using i(1,3,5) by (auto simp: Cons pool_inv_def)
    ultimately show ?thesis using m by blast
  next
    case Nil
    have none: "pFirstAvailable (head_of h p) = None" using i(1) by (simp add: pool_inv_def Nil)
    show ?thesis
    proof (cases "mal (unat (uBlockSize (head_of h p))) h")
      case None
      then show ?thesis by (simp add: Malloc_def none sys_malloc_def)
    next
      case (Some a)
      then have f: "a \<notin> set (live h)" by (rule fresh_mallocD [OF assms(2)])
      have m: "Malloc mal (Some p) h = Done (Some a, h\<lparr>live := a # live h\<rparr>)"
        by (simp add: Malloc_def none sys_malloc_def Some)
      have "pool_inv p [] (insert a hp) (h\<lparr>live := a # live h\<rparr>)" "pool_inv q fq hq (h\<lparr>live := a # live h\<rparr>)"
        using i(1,2) f by (auto simp: pool_inv_def Nil)
      moreover have "a \<notin> hp \<union> hq \<union> S" "a \<notin> insert q (set fq \<union> hq)" using f qs i(4) by auto
      ultimately have "pools_ok S p q (insert a hp) hq (h\<lparr>live := a # live h\<rparr>)" unfolding pools_ok_def
        by (intro exI [of _ "[]"] exI [of _ fq]) (use i(3-5) in \<open>auto simp: Nil\<close>)
      then show ?thesis using m \<open>a \<notin> hp \<union> hq \<union> S\<close> by blast
    qed
  qed
qed

lemma pools_free:
  assumes "pools_ok S p q hp hq h" "a \<in> hp"
  shows "\<exists>h'. Free (Some p) (Some a) h = Done h' \<and> pools_ok S p q (hp - {a}) hq h'"
proof -
  from assms(1) obtain fp fq where i: "pool_inv p fp hp h" "pool_inv q fq hq h"
    "insert p (set fp \<union> hp) \<inter> insert q (set fq \<union> hq) = {}" "S \<subseteq> set (live h)"
    "S \<inter> (insert p (set fp \<union> hp) \<union> insert q (set fq \<union> hq)) = {}" unfolding pools_ok_def by blast
  from free_to_chain [OF i(1) assms(2)] obtain h' where
    h': "Free (Some p) (Some a) h = Done h'" "pool_inv p (a # fp) (hp - {a}) h'" "live h' = live h" by blast
  have e: "h' = h\<lparr>next_of := (next_of h)(a := pFirstAvailable (head_of h p)),
                  head_of := (head_of h)(p := (head_of h p)\<lparr>pFirstAvailable := Some a\<rparr>)\<rparr>"
    using h'(1) by (simp add: Free_def)
  have "a \<notin> set fq" "p \<noteq> q" using i(3) assms(2) by auto
  then have "pool_inv q fq hq h'" using i(2) by (simp add: e pool_inv_def)
  then have "pools_ok S p q (hp - {a}) hq h'" unfolding pools_ok_def
    by (intro exI [of _ "a # fp"] exI [of _ fq]) (use h'(2,3) i(3-5) assms(2) in auto)
  then show ?thesis using h'(1) by blast
qed

section \<open>What the operations on descriptors leave alone\<close>

lemma clear_pending_frame [simp]:
  "ev_fds.more (clear_pending w s) = ev_fds.more s" "cb (wt (clear_pending w s) v) = cb (wt s v)"
  by (simp_all add: clear_pending_def Let_def)

lemma feed_frame [simp]:
  "ev_fds.more (ev_feed_event w ev s) = ev_fds.more s" "cb (wt (ev_feed_event w ev s) v) = cb (wt s v)"
  "signum (wt (ev_feed_event w ev s) v) = signum (wt s v)"
  by (simp_all add: ev_feed_event_def Let_def)

lemma io_start_frame:
  "ev_io_start w s = Some s' \<Longrightarrow> ev_fds.more s' = ev_fds.more s \<and> cb (wt s' v) = cb (wt s v)"
  by (auto simp: ev_io_start_def Let_def ev_start_def pri_adjust_def ev_ref_def ev_set_priority_def wlist_add_def
      upd_anfd_def fd_change_def split: if_splits)

lemma wlist_del_from_only:
  assumes "wlist_del_from r el st = Some st'"
  shows "cb (snd st' v) = cb (snd st v)"
proof (rule wlist_del_from.raw_induct [of "\<lambda>r el st st'. \<forall>v. cb (snd st' v) = cb (snd st v)", OF _ assms, THEN spec])
  fix wd :: "wl_ref \<Rightarrow> wid \<Rightarrow> wl_state \<Rightarrow> wl_state option" and r el st st'
  assume ih: "\<And>r el st st'. wd r el st = Some st' \<Longrightarrow> \<forall>v. cb (snd st' v) = cb (snd st v)"
    and r: "(case wl_read r st of None \<Rightarrow> Some st
      | Some x \<Rightarrow> if x = el then Some (wl_write r (w_next (snd st el)) st) else wd (NextRef x) el st) = Some st'"
  have "cb (snd (wl_write r p st) v) = cb (snd st v)" for p v by (cases r) simp_all
  then show "\<forall>v. cb (snd st' v) = cb (snd st v)" using r ih by (auto split: option.splits if_splits)
qed

lemma io_stop_frame:
  assumes "ev_io_stop w s = Some s'"
  shows "ev_fds.more s' = ev_fds.more s \<and> cb (wt s' v) = cb (wt s v)"
proof (cases "active (wt s w) = 0")
  case True
  then show ?thesis using assms by (auto simp: ev_io_stop_def Let_def)
next
  case False
  let ?s = "clear_pending w s" let ?fd = "nat (io_fd (wt ?s w))"
  from assms False obtain h wm where d: "wlist_del w (head (anfds ?s ! ?fd), wt ?s) = Some (h, wm)"
    "s' = fd_change ?fd EV_ANFD_REIFY (ev_stop w (upd_anfd ?fd (\<lambda>a. a\<lparr>head := h\<rparr>) (?s\<lparr>wt := wm\<rparr>)))"
    by (auto simp: ev_io_stop_def Let_def split: if_splits option.splits)
  have "cb (wm v) = cb (wt ?s v)" for v using wlist_del_from_only [OF d(1) [unfolded wlist_del_def], of v] by simp
  then show ?thesis unfolding d(2) by (auto simp: fd_change_def upd_anfd_def Let_def ev_stop_def ev_unref_def)
qed

lemma io_stop_other:
  assumes ok: "fd_ok L s" and w: "w \<in> set (L fd)" and r: "ev_io_stop w s = Some s'"
  shows "signum (wt s' v) = signum (wt s v)" "v \<notin> set (L fd) \<Longrightarrow> w_next (wt s' v) = w_next (wt s v)"
proof -
  let ?s = "clear_pending w s"
  have l: "fd_lists L s" using ok by (simp add: fd_ok_def)
  note m = fd_listsD [OF l w]
  have ok1: "fd_ok L ?s" by (rule fd_ok_cong [OF ok]) simp_all
  have ch: "chain (nexts (wt ?s)) (head (anfds ?s ! fd)) (L fd)" "distinct (L fd)"
    using ok1 m(4) by (simp_all add: fd_ok_def fd_lists_def)
  obtain h wm where d: "wlist_del w (head (anfds ?s ! fd), wt ?s) = Some (h, wm)" "only_next (set (L fd)) (wt ?s) wm"
    using wlist_del_spec [OF ch, of w] by blast
  have fdw: "nat (io_fd (wt ?s w)) = fd" using m(1) by simp
  have s': "s' = fd_change fd EV_ANFD_REIFY (ev_stop w (upd_anfd fd (\<lambda>a. a\<lparr>head := h\<rparr>) (?s\<lparr>wt := wm\<rparr>)))"
    using r m(2) d(1) fdw by (auto simp: ev_io_stop_def Let_def split: if_splits option.splits)
  have e: "signum (wt s' v) = signum (wm v)" "w_next (wt s' v) = w_next (wm v)"
    by (simp_all add: s' fd_change_def upd_anfd_def Let_def ev_stop_def ev_unref_def)
  have c: "signum (wt ?s v) = signum (wt s v)" "w_next (wt ?s v) = w_next (wt s v)" by (simp_all add: clear_pending_def Let_def)
  have on: "\<forall>w. wm w = (wt ?s w)\<lparr>w_next := w_next (wm w)\<rparr>" "\<forall>w. w \<notin> set (L fd) \<longrightarrow> wm w = wt ?s w"
    using d(2) by (simp_all add: only_next_def)
  have "signum (wm v) = signum ((wt ?s v)\<lparr>w_next := w_next (wm v)\<rparr>)" using on(1) by (rule_tac arg_cong [of _ _ signum]) blast
  then show "signum (wt s' v) = signum (wt s v)" using e c by simp
  show "v \<notin> set (L fd) \<Longrightarrow> w_next (wt s' v) = w_next (wt s v)" using e c on(2) by simp
qed

lemma fd_event_loop_frame:
  assumes "fd_event_loop p revents s = Some s'"
  shows "ev_fds.more s' = ev_fds.more s \<and> (\<forall>v. cb (wt s' v) = cb (wt s v) \<and> io_fd (wt s' v) = io_fd (wt s v)
      \<and> w_next (wt s' v) = w_next (wt s v) \<and> signum (wt s' v) = signum (wt s v) \<and> active (wt s' v) = active (wt s v)
      \<and> ABSPRI (wt s' v) = ABSPRI (wt s v))"
proof (rule fd_event_loop.raw_induct [of "\<lambda>p revents s s'. ev_fds.more s' = ev_fds.more s \<and> (\<forall>v. cb (wt s' v) = cb (wt s v) \<and> io_fd (wt s' v) = io_fd (wt s v)
      \<and> w_next (wt s' v) = w_next (wt s v) \<and> signum (wt s' v) = signum (wt s v) \<and> active (wt s' v) = active (wt s v)
      \<and> ABSPRI (wt s' v) = ABSPRI (wt s v))", OF _ assms])
  fix fl :: "wid option \<Rightarrow> evmask \<Rightarrow> 'a ev_fds_scheme \<Rightarrow> 'a ev_fds_scheme option" and p revents s s'
  assume ih: "\<And>p revents s s'. fl p revents s = Some s' \<Longrightarrow>
      ev_fds.more s' = ev_fds.more s \<and> (\<forall>v. cb (wt s' v) = cb (wt s v) \<and> io_fd (wt s' v) = io_fd (wt s v)
      \<and> w_next (wt s' v) = w_next (wt s v) \<and> signum (wt s' v) = signum (wt s v) \<and> active (wt s' v) = active (wt s v)
      \<and> ABSPRI (wt s' v) = ABSPRI (wt s v))"
    and r: "(case p of None \<Rightarrow> Some s
      | Some w \<Rightarrow> (let ev = io_events (wt s w) AND revents; s' = (if ev \<noteq> 0 then ev_feed_event w ev s else s)
           in fl (w_next (wt s' w)) revents s')) = Some s'"
  show "ev_fds.more s' = ev_fds.more s \<and> (\<forall>v. cb (wt s' v) = cb (wt s v) \<and> io_fd (wt s' v) = io_fd (wt s v)
      \<and> w_next (wt s' v) = w_next (wt s v) \<and> signum (wt s' v) = signum (wt s v) \<and> active (wt s' v) = active (wt s v)
      \<and> ABSPRI (wt s' v) = ABSPRI (wt s v))"
  proof (cases p)
    case None
    then show ?thesis using r by simp
  next
    case (Some w)
    let ?s = "if io_events (wt s w) AND revents \<noteq> 0 then ev_feed_event w (io_events (wt s w) AND revents) s else s"
    have "fl (w_next (wt ?s w)) revents ?s = Some s'" using r by (simp add: Some Let_def)
    from ih [OF this] show ?thesis by (auto split: if_splits)
  qed
qed

lemma more_server:
  assumes "ev_fds.more s' = ev_fds.more (s :: 'a server_scheme)"
  shows "sheap s' = sheap s" "ev_pool s' = ev_pool s" "obd_pool s' = obd_pool s" "libev_list s' = libev_list s" "obds s' = obds s"
    "obd_mq s' = obd_mq s" "thread_pool s' = thread_pool s" "mq_flag s' = mq_flag s" "socket_accept s' = socket_accept s"
    "closed s' = closed s" "sent s' = sent s" "printed s' = printed s" "server.more s' = server.more s"
    "sig_head s' = sig_head s" "sig_loop s' = sig_loop s" "sig_pend s' = sig_pend s" "childs s' = childs s" "asyncs s' = asyncs s"
    "pipe_w s' = pipe_w s"
  using assms by (cases s; cases s'; simp)+

section \<open>The invariant\<close>

text \<open>The pending event \<open>ev_invoke_pending\<close> takes next, and the loop without it.\<close>

definition next_event :: "'a ev_base_scheme \<Rightarrow> nat \<Rightarrow> wid \<times> evmask \<Rightarrow> bool" where
  "next_event s p we \<longleftrightarrow> pendings s p \<noteq> [] \<and> (\<forall>p' > p. pendings s p' = []) \<and> last (pendings s p) = we"

definition without_event :: "nat \<Rightarrow> wid \<Rightarrow> 'a ev_base_scheme \<Rightarrow> 'a ev_base_scheme" where
  "without_event p w s =
     (upd_w w (\<lambda>x. x\<lparr>pending := 0\<rparr>) (s\<lparr>pendingpri := p\<rparr>))\<lparr>pendings := (pendings s)(p := butlast (pendings s p))\<rparr>"

definition max_fd :: nat where "max_fd = nat SOCKET_ALLOC_MAX_CLIENT"

lemma max_fd: "int max_fd = SOCKET_ALLOC_MAX_CLIENT" "0 < max_fd"
  by (simp_all add: max_fd_def SOCKET_ALLOC_MAX_CLIENT_def)

definition conns :: "'a server_scheme \<Rightarrow> wid set" where
  "conns s = {w. Some w \<in> set (libev_list s)}"

text \<open>The watchers of the loop itself: those of the signals, in the lists \<open>G\<close>, and that of the wake-up
pipe.  They are among the static addresses \<open>S\<close>.\<close>

definition sys_ok :: "addr set \<Rightarrow> (nat \<Rightarrow> wid list) \<Rightarrow> 'a ev_pipe_scheme \<Rightarrow> bool" where
  "sys_ok S L s \<longleftrightarrow>
     (\<exists>G. sig_ok G s \<and> (\<forall>i. set (G i) \<subseteq> S) \<and> (\<forall>i fd. set (G i) \<inter> set (L fd) = {}))
   \<and> (\<forall>i. sig_pend s i \<longrightarrow> sig_loop s i \<noteq> None)
   \<and> (\<forall>i l. sig_loop s i = Some l \<longrightarrow> l = this_loop \<and> i < EV_NSIG - 1)
   \<and> childs s = (\<lambda>_. None) \<and> asyncs s = [] \<and> pipe_w s \<in> S \<and> (\<exists>fd. pipe_w s \<in> set (L fd))"

text \<open>The loop and the connections: \<open>L fd\<close> are the watchers of a descriptor.\<close>

definition net_ok :: "addr set \<Rightarrow> (nat \<Rightarrow> wid list) \<Rightarrow> 'a server_scheme \<Rightarrow> bool" where
  "net_ok S L s \<longleftrightarrow>
     fd_ok L s \<and> pend_ok s \<and> length (libev_list s) = max_fd
   \<and> (\<forall>fd < max_fd. \<forall>w. libev_list s ! fd = Some w \<longrightarrow> w \<in> set (L fd) \<and> cb (wt s w) = READ_CB)
   \<and> (\<forall>fd w. w \<in> set (L fd) \<longrightarrow> w \<in> conns s \<or> w \<in> S)
   \<and> (\<forall>w. pending (wt s w) \<noteq> 0 \<longrightarrow> (\<exists>fd. w \<in> set (L fd)) \<or> w \<in> S)
   \<and> (\<forall>w \<in> S. cb (wt s w) \<noteq> READ_CB) \<and> pending_w \<in> S \<and> sys_ok S L s"

lemma sys_ok_cong:
  assumes "sys_ok S L s" and m: "ev_fds.more s' = ev_fds.more s"
    and w: "\<And>v. v \<in> S \<Longrightarrow> \<forall>fd. v \<notin> set (L fd) \<Longrightarrow> w_next (wt s' v) = w_next (wt s v) \<and> signum (wt s' v) = signum (wt s v)
      \<and> active (wt s' v) = active (wt s v) \<and> ABSPRI (wt s' v) = ABSPRI (wt s v)"
    and L': "\<And>fd v. v \<in> set (L' fd) \<Longrightarrow> v \<in> set (L fd) \<or> v \<notin> S"
    and p: "\<And>fd. pipe_w s \<in> set (L fd) \<Longrightarrow> \<exists>fd. pipe_w s \<in> set (L' fd)"
  shows "sys_ok S L' s'"
proof -
  from assms(1) obtain G where G: "sig_ok G s" "\<forall>i. set (G i) \<subseteq> S" "\<forall>i fd. set (G i) \<inter> set (L fd) = {}" unfolding sys_ok_def by blast
  have e: "sig_head s' = sig_head s" "sig_loop s' = sig_loop s" "sig_pend s' = sig_pend s" "childs s' = childs s" "asyncs s' = asyncs s"
    "pipe_w s' = pipe_w s" using m by (cases s; cases s'; simp)+
  have same: "w_next (wt s' v) = w_next (wt s v) \<and> signum (wt s' v) = signum (wt s v)
      \<and> active (wt s' v) = active (wt s v) \<and> ABSPRI (wt s' v) = ABSPRI (wt s v)" if "v \<in> set (G i)" for v i
    using w [of v] G(2,3) that by blast
  have "chain (nexts (wt s')) p (G i) = chain (nexts (wt s)) p (G i)" for p i using same by (intro chain_cong) auto
  then have "sig_ok G s'" using G(1) same by (simp add: sig_ok_def e)
  moreover have "set (G i) \<inter> set (L' fd) = {}" for i fd using G(2,3) L' by blast
  ultimately show ?thesis using assms(1) G(2) p unfolding sys_ok_def e by blast
qed

lemma conns_at: "net_ok S L s \<Longrightarrow> w \<in> conns s \<Longrightarrow> \<exists>fd < max_fd. libev_list s ! fd = Some w \<and> w \<in> set (L fd)"
  unfolding conns_def net_ok_def by (auto simp: in_set_conv_nth)

lemma next_event_live:
  assumes "net_ok S L s" "next_event s p (w, ev)" "w \<noteq> pending_w"
  shows "(\<exists>fd. w \<in> set (L fd)) \<or> w \<in> S" "ABSPRI (wt s w) < NUMPRI"
proof -
  have ok: "pend_ok s" using assms(1) by (simp add: net_ok_def)
  have i: "length (pendings s p) - 1 < length (pendings s p)" "fst (pendings s p ! (length (pendings s p) - 1)) = w"
    using assms(2) by (auto simp: next_event_def last_conv_nth)
  from pend_ok_entry [OF ok i(1)] i assms(3) have e: "pending (wt s w) \<noteq> 0" "ABSPRI (wt s w) = p" by simp_all
  then show "(\<exists>fd. w \<in> set (L fd)) \<or> w \<in> S" using assms(1) by (simp add: net_ok_def)
  have "pendings s p \<noteq> []" using assms(2) by (simp add: next_event_def)
  then show "ABSPRI (wt s w) < NUMPRI" using ok e(2) unfolding pend_ok_def by (meson not_le)
qed

lemma without_event_net:
  assumes "net_ok S L s" "next_event s p (w, ev)"
  shows "net_ok S L (without_event p w s)"
proof -
  let ?s = "s\<lparr>pendingpri := p\<rparr>"
  have "deliver_ok ?s" using assms by (auto simp: deliver_ok_def net_ok_def next_event_def pend_ok_def)
  from take_last_ok [OF this, of w ev] assms(2) have "pend_ok (without_event p w s)"
    by (simp add: next_event_def without_event_def deliver_ok_def)
  moreover have "fd_ok L (without_event p w s)"
    by (rule fd_ok_cong [of L s]) (use assms(1) in \<open>auto simp: net_ok_def without_event_def\<close>)
  moreover have "sys_ok S L (without_event p w s)"
    by (rule sys_ok_cong [of S L s]) (use assms(1) in \<open>auto simp: net_ok_def without_event_def\<close>)
  ultimately show ?thesis using assms(1)
    by (auto simp: net_ok_def without_event_def conns_def split: if_splits)
qed

section \<open>Kernel events\<close>

lemma fd_event_loop_pending:
  assumes "chain (nexts (wt s)) p xs" "fd_event_loop p revents s = Some s'" "pending (wt s' v) \<noteq> 0"
  shows "pending (wt s v) \<noteq> 0 \<or> v \<in> set xs"
  using assms
proof (induction xs arbitrary: p s)
  case Nil
  then show ?case by (simp add: fd_event_loop.simps)
next
  case (Cons w xs)
  let ?s1 = "if io_events (wt s w) AND revents \<noteq> 0 then ev_feed_event w (io_events (wt s w) AND revents) s else s"
  have r: "fd_event_loop (w_next (wt ?s1 w)) revents ?s1 = Some s'"
    using Cons.prems(1,2) by (subst (asm) fd_event_loop.simps) (simp add: Let_def)
  have ch: "chain (nexts (wt ?s1)) (w_next (wt ?s1 w)) xs"
    using Cons.prems(1) chain_cong [of xs "nexts (wt ?s1)" "nexts (wt s)"] by auto
  have "pending (wt ?s1 v) \<noteq> 0 \<Longrightarrow> pending (wt s v) \<noteq> 0 \<or> v = w"
    by (auto simp: ev_feed_event_def Let_def split: if_splits)
  then show ?case using Cons.IH [OF ch r Cons.prems(3)] by auto
qed

lemma kernel_net:
  fixes s :: "'a server_scheme"
  assumes n: "net_ok S L s" and r: "ev_feed_fd_event fd revents s = Some s'"
  shows "net_ok S L s'" "ev_fds.more s' = ev_fds.more s"
proof -
  have "net_ok S L s' \<and> ev_fds.more s' = ev_fds.more s"
  proof (cases "fd \<ge> 0 \<and> fd < int (length (anfds s))")
    case True
    then have nf: "nat fd < length (anfds s)" by auto
    have ok: "fd_ok L s" "pend_ok s" using n by (simp_all add: net_ok_def)
    then have ch: "chain (nexts (wt s)) (head (anfds s ! nat fd)) (L (nat fd))" "distinct (L (nat fd))"
      using nf by (auto simp: fd_ok_def fd_lists_def)
    have run: "fd_event_loop (head (anfds s ! nat fd)) revents s = Some s'"
      using r True by (simp add: ev_feed_fd_event_def fd_event_nocheck_def)
    have side: "w \<noteq> pending_w \<and> ABSPRI (wt s w) < NUMPRI" if "w \<in> set (L (nat fd))" for w
      using fd_listsD [of L s w "nat fd"] that ok(1) by (simp add: fd_ok_def)
    from fd_event_loop_spec [OF ch ok(2) side ok(1), of revents] run have ok': "fd_ok L s'" "pend_ok s'" by auto
    note fr = fd_event_loop_frame [OF run]
    note sv = more_server [OF fr [THEN conjunct1]]
    have pe: "(\<exists>fd. v \<in> set (L fd)) \<or> v \<in> S" if "pending (wt s' v) \<noteq> 0" for v
    proof -
      have "pending (wt s v) \<noteq> 0 \<longrightarrow> (\<exists>fd. v \<in> set (L fd)) \<or> v \<in> S" using n by (simp add: net_ok_def)
      then show ?thesis using fd_event_loop_pending [OF ch(1) run that] by blast
    qed
    have "sys_ok S L s'" by (rule sys_ok_cong [of S L s]) (use n fr in \<open>auto simp: net_ok_def\<close>)
    then have "net_ok S L s'" unfolding net_ok_def conns_def sv
      using n ok' fr pe by (simp add: net_ok_def conns_def)
    then show ?thesis using fr by blast
  next
    case False
    then have "s' = s" using r by (auto simp: ev_feed_fd_event_def split: if_splits)
    then show ?thesis using n by simp
  qed
  then show "net_ok S L s'" "ev_fds.more s' = ev_fds.more s" by simp_all
qed

section \<open>Connections\<close>

text \<open>What a callback on a connection leaves alone.\<close>

definition same_rest :: "'a server_scheme \<Rightarrow> 'a server_scheme \<Rightarrow> bool" where
  "same_rest s s' \<longleftrightarrow> ev_pool s' = ev_pool s \<and> obd_pool s' = obd_pool s \<and> obds s' = obds s \<and> obd_mq s' = obd_mq s
     \<and> thread_pool s' = thread_pool s \<and> mq_flag s' = mq_flag s \<and> socket_accept s' = socket_accept s
     \<and> sent s' = sent s \<and> printed s' = printed s \<and> server.more s' = server.more s"

lemma net_ok_heap [simp]:
  "net_ok S L (s\<lparr>sheap := h\<rparr>) = net_ok S L s" "net_ok S L (s\<lparr>closed := c\<rparr>) = net_ok S L s"
  "conns (s\<lparr>sheap := h\<rparr>) = conns s" "conns (s\<lparr>closed := c\<rparr>) = conns s"
  by (auto simp: net_ok_def conns_def fd_ok_def fd_lists_def changes_ok_def synced_def pend_ok_def sys_ok_def sig_ok_def)

lemma conns_add:
  assumes "i < length (libev_list s)" "libev_list s ! i = None"
  shows "conns (s\<lparr>libev_list := (libev_list s)[i := Some w]\<rparr>) = insert w (conns s)"
  using assms by (auto simp: conns_def in_set_conv_nth nth_list_update) (metis option.distinct(1))

lemma conns_drop:
  assumes "net_ok S L s" "i < max_fd" "libev_list s ! i = Some w"
  shows "conns (s\<lparr>libev_list := (libev_list s)[i := None]\<rparr>) = conns s - {w}"
proof -
  have n: "length (libev_list s) = max_fd" "fd_lists L s"
    "\<And>j v. j < max_fd \<Longrightarrow> libev_list s ! j = Some v \<Longrightarrow> v \<in> set (L j)"
    using assms(1) by (auto simp: net_ok_def fd_ok_def)
  have "j = i" if "j < max_fd" "libev_list s ! j = Some w" for j
    using fd_listsD(1) [OF n(2) n(3) [OF that]] fd_listsD(1) [OF n(2) n(3) [OF assms(2,3)]] by simp
  then have only: "libev_list s ! j = Some w \<longleftrightarrow> j = i" if "j < max_fd" for j using that assms(3) by blast
  have "Some v \<in> set ((libev_list s)[i := None]) \<longleftrightarrow> Some v \<in> set (libev_list s) \<and> v \<noteq> w" for v
  proof
    assume "Some v \<in> set ((libev_list s)[i := None])"
    then obtain j where j: "j < max_fd" "(libev_list s)[i := None] ! j = Some v"
      using n(1) by (auto simp: in_set_conv_nth)
    then have "j \<noteq> i" using n(1) by auto
    then show "Some v \<in> set (libev_list s) \<and> v \<noteq> w" using j only [OF j(1)] n(1) by (auto simp: in_set_conv_nth)
  next
    assume v: "Some v \<in> set (libev_list s) \<and> v \<noteq> w"
    then obtain j where j: "j < max_fd" "libev_list s ! j = Some v" using n(1) by (auto simp: in_set_conv_nth)
    then have "j \<noteq> i" using v assms(3) by auto
    then have "(libev_list s)[i := None] ! j = Some v" using j by simp
    then show "Some v \<in> set ((libev_list s)[i := None])" using j(1) n(1) by (metis length_list_update nth_mem)
  qed
  then show ?thesis by (auto simp: conns_def)
qed

lemma io_client: "legal_io (ev_io_init READ_CB fd EV_READ x) \<longleftrightarrow> fd \<ge> 0"
  by (simp add: legal_io_def EV_READ_def EV_WRITE_def EV__IOFDSET_def)

lemma open_connection:
  fixes s :: "'a server_scheme"
  assumes n: "net_ok S L s" and fd: "0 \<le> fd" "fd < int max_fd" "libev_list s ! nat fd = None"
    and w: "w \<notin> conns s" "w \<notin> S"
    and r: "ev_io_start w (upd_w w (ev_io_init READ_CB fd EV_READ) s) = Some s1"
    and s': "s' = s1\<lparr>libev_list := (libev_list s1)[nat fd := Some w]\<rparr>"
  shows "net_ok S (L(nat fd := w # L (nat fd))) s'" "conns s' = insert w (conns s)" "same_rest s s'" "sheap s' = sheap s"
    "closed s' = closed s"
proof -
  let ?s = "upd_w w (ev_io_init READ_CB fd EV_READ) s" let ?L = "L(nat fd := w # L (nat fd))"
  have wL: "w \<notin> set (L i)" for i using n w by (auto simp: net_ok_def)
  have wp: "w \<noteq> pending_w" "pending (wt s w) = 0" using n w wL by (auto simp: net_ok_def)
  have ok: "fd_ok L ?s" "pend_ok ?s"
  proof -
    show "fd_ok L ?s" by (rule fd_ok_cong [of L s]) (use n wL in \<open>auto simp: net_ok_def\<close>)
    have pk: "pend_ok s" using n by (simp add: net_ok_def)
    have nq: "fst (pendings s p ! i) \<noteq> w" if "i < length (pendings s p)" for p i
    proof
      assume "fst (pendings s p ! i) = w"
      then have "fst (pendings s p ! i) \<noteq> pending_w" using wp(1) by simp
      from pend_ok_entry [OF pk that this] \<open>fst (pendings s p ! i) = w\<close> wp(2) show False by simp
    qed
    show "pend_ok ?s" using pk wp(1) nq by (auto simp: pend_ok_def)
  qed
  have a: "active (wt ?s w) = 0" "legal_io (wt ?s w)" "nat (io_fd (wt ?s w)) = nat fd"
    using fd(1) by (simp_all add: io_client)
  from io_start_spec [OF ok(1) a(1) wp(1) a(2)] r have s1: "fd_ok ?L s1" "pendings s1 = pendings ?s"
    "\<forall>v. pending (wt s1 v) = pending (wt ?s v)" "\<forall>v. v \<noteq> w \<longrightarrow> wt s1 v = wt ?s v"
    unfolding a(3) by auto
  have fr: "ev_fds.more s1 = ev_fds.more ?s \<and> cb (wt s1 v) = cb (wt ?s v)" for v by (rule io_start_frame [OF r])
  have "ev_fds.more s1 = ev_fds.more s" using fr by simp
  note sv = more_server [OF this]
  have sr: "same_rest s s'" "sheap s' = sheap s" "closed s' = closed s" by (simp_all add: s' same_rest_def sv)
  then show "same_rest s s'" "sheap s' = sheap s" "closed s' = closed s" by simp_all
  have len: "nat fd < length (libev_list s)" using n fd by (auto simp: net_ok_def)
  have cs: "conns s' = insert w (conns s)"
    using conns_add [OF len fd(3), of w] by (simp add: s' conns_def sv)
  then show "conns s' = insert w (conns s)" .
  have pk: "pend_ok s'"
  proof -
    have pri: "ABSPRI (wt s1 v) = ABSPRI (wt ?s v)" if "v \<noteq> w" for v using s1(4) that by simp
    have e: "pend_ok s' = pend_ok s1" by (rule pend_ok_cong) (simp_all add: s')
    show ?thesis unfolding e unfolding pend_ok_def s1(2)
    proof (intro conjI allI impI)
      fix p i assume x: "i < length (pendings ?s p) \<and> fst (pendings ?s p ! i) \<noteq> pending_w"
      note en = pend_ok_entry [OF ok(2), of i p] x
      then have "fst (pendings ?s p ! i) \<noteq> w" using s1(3) wp(2) by auto
      then show "pending (wt s1 (fst (pendings ?s p ! i))) = i + 1" "ABSPRI (wt s1 (fst (pendings ?s p ! i))) = p"
        using en s1(3) pri by auto
    next
      fix v assume v: "v \<noteq> pending_w \<and> pending (wt s1 v) \<noteq> 0"
      then have vw: "v \<noteq> w" using s1(3) by auto
      note d = pend_okD [OF ok(2), of v]
      show "pending (wt s1 v) \<le> length (pendings ?s (ABSPRI (wt s1 v)))"
        "fst (pendings ?s (ABSPRI (wt s1 v)) ! (pending (wt s1 v) - 1)) = v"
        using d v s1(3) pri [OF vw] by auto
    next
      show "pending (wt s1 pending_w) = 0" using s1(3) ok(2) by (simp add: pend_ok_def)
    next
      fix p assume "NUMPRI \<le> p"
      then show "pendings ?s p = []" using ok(2) unfolding pend_ok_def by blast
    qed
  qed
  have fdo: "fd_ok ?L s'" by (rule fd_ok_cong [OF s1(1)]) (simp_all add: s')
  have cbs: "cb (wt s' v) = (if v = w then READ_CB else cb (wt s v))" for v
    using fr [of v, THEN conjunct2] by (simp add: s' ev_io_init_def ev_io_set_def)
  show "net_ok S ?L s'" unfolding net_ok_def
  proof (intro conjI allI impI fdo pk)
    show "length (libev_list s') = max_fd" using n by (simp add: s' sv net_ok_def)
    fix i v assume i: "i < max_fd" "libev_list s' ! i = Some v"
    have c: "i = nat fd \<and> v = w \<or> i \<noteq> nat fd \<and> libev_list s ! i = Some v"
      using i(2) len by (auto simp: s' sv nth_list_update split: if_splits)
    have o: "libev_list s ! i = Some v \<Longrightarrow> v \<in> set (L i) \<and> cb (wt s v) = READ_CB" using n i(1) by (simp add: net_ok_def)
    show "v \<in> set (?L i)" using c o by auto
    show "cb (wt s' v) = READ_CB" using c o by (auto simp: cbs)
  next
    fix i v assume "v \<in> set (?L i)"
    then have "v = w \<or> v \<in> conns s \<or> v \<in> S" using n by (auto simp: net_ok_def split: if_splits)
    then show "v \<in> conns s' \<or> v \<in> S" unfolding cs by blast
  next
    fix v assume "pending (wt s' v) \<noteq> 0"
    then have "pending (wt s v) \<noteq> 0" using s1(3) by (auto simp: s' split: if_splits)
    then have i: "(\<exists>i. v \<in> set (L i)) \<or> v \<in> S" using n by (simp add: net_ok_def)
    have "v \<in> set (?L i)" if "v \<in> set (L i)" for i using that by auto
    then show "(\<exists>fd. v \<in> set (?L fd)) \<or> v \<in> S" using i by blast
  next
    show "\<forall>v \<in> S. cb (wt s' v) \<noteq> READ_CB" using n w(2) by (auto simp: cbs net_ok_def)
    show "pending_w \<in> S" using n by (simp add: net_ok_def)
    have mo: "ev_fds.more s1 = ev_fds.more s" using fr by simp
    have "sys_ok S ?L s1"
    proof (rule sys_ok_cong [of S L s, OF _ mo])
      show "sys_ok S L s" using n by (simp add: net_ok_def)
      fix v assume "v \<in> S"
      then have "wt s1 v = wt s v" using s1(4) w(2) by auto
      then show "w_next (wt s1 v) = w_next (wt s v) \<and> signum (wt s1 v) = signum (wt s v) \<and> active (wt s1 v) = active (wt s v)
        \<and> ABSPRI (wt s1 v) = ABSPRI (wt s v)" by simp
    next
      fix i v assume "v \<in> set (?L i)"
      then show "v \<in> set (L i) \<or> v \<notin> S" using w(2) by (auto split: if_splits)
    next
      fix i assume "pipe_w s \<in> set (L i)"
      then have "pipe_w s \<in> set (?L i)" by auto
      then show "\<exists>i. pipe_w s \<in> set (?L i)" by blast
    qed
    then show "sys_ok S ?L s'" by (simp add: s' sys_ok_def sig_ok_def)
  qed
qed

lemma close_connection:
  fixes s :: "'a server_scheme"
  assumes n: "net_ok S L s" and fd: "0 \<le> fd" "fd < SOCKET_ALLOC_MAX_CLIENT" "libev_list s ! nat fd = Some w"
  shows "\<exists>s1. ev_io_stop w s = Some s1 \<and> ev_fds.more s1 = ev_fds.more s
    \<and> net_ok S (L(nat fd := remove1 w (L (nat fd)))) (s1\<lparr>libev_list := (libev_list s1)[nat fd := None]\<rparr>)
    \<and> conns (s1\<lparr>libev_list := (libev_list s1)[nat fd := None]\<rparr>) = conns s - {w}
    \<and> active (wt s1 w) = 0"
proof -
  let ?L = "L(nat fd := remove1 w (L (nat fd)))"
  have i: "nat fd < max_fd" using fd by (simp add: max_fd_def)
  have ok: "fd_ok L s" "pend_ok s" using n by (simp_all add: net_ok_def)
  have w: "w \<in> set (L (nat fd))" using n i fd(3) by (simp add: net_ok_def)
  from io_stop_spec [OF ok(1) w] obtain s1 where s1: "ev_io_stop w s = Some s1" "fd_ok ?L s1" "active (wt s1 w) = 0"
    "pendings s1 = pendings (clear_pending w s)"
    "\<forall>v. pending (wt s1 v) = pending (wt (clear_pending w s) v) \<and> priority (wt s1 v) = priority (wt s v)"
    "\<forall>v. v \<noteq> w \<longrightarrow> active (wt s1 v) = active (wt s v)" by blast
  have fr: "ev_fds.more s1 = ev_fds.more s \<and> cb (wt s1 v) = cb (wt s v)" for v by (rule io_stop_frame [OF s1(1)])
  note sv = more_server [OF fr [THEN conjunct1]]
  let ?s' = "s1\<lparr>libev_list := (libev_list s1)[nat fd := None]\<rparr>"
  have cs: "conns ?s' = conns s - {w}" using conns_drop [OF n i fd(3)] by (simp add: conns_def sv)
  have pk: "pend_ok ?s'"
  proof -
    have "pend_ok ?s' = pend_ok (clear_pending w s)" by (rule pend_ok_cong) (use s1(4,5) in simp_all)
    then show ?thesis using clear_pend_ok [OF ok(2)] by simp
  qed
  have l: "fd_lists L s" using ok(1) by (simp add: fd_ok_def)
  have pz: "pending (wt s1 w) = 0" using s1(5) clear_pending_zero [of w s] by simp
  have po: "pending (wt s1 v) \<noteq> 0 \<Longrightarrow> pending (wt s v) \<noteq> 0" for v
    using s1(5) by (auto simp: clear_pending_def Let_def split: if_splits)
  have keep: "v \<in> set (?L j)" if "v \<in> set (L j)" "v \<noteq> w" for v j using that by auto
  have less: "v \<in> set (L j) \<and> v \<noteq> w" if "v \<in> set (?L j)" for v j
  proof (cases "j = nat fd")
    case True
    have "distinct (L (nat fd))" using l fd_listsD(4) [OF l w] by (simp add: fd_lists_def)
    then show ?thesis using that True by auto
  next
    case False
    then have v: "v \<in> set (L j)" using that by simp
    then have "v \<noteq> w" using fd_lists_disjoint [OF l False] w by auto
    then show ?thesis using v by simp
  qed
  have "net_ok S ?L ?s'" unfolding net_ok_def
  proof (intro conjI allI impI pk)
    show "fd_ok ?L ?s'" by (rule fd_ok_cong [OF s1(2)]) simp_all
    show "length (libev_list ?s') = max_fd" using n by (simp add: sv net_ok_def)
  next
    fix j v assume j: "j < max_fd" "libev_list ?s' ! j = Some v"
    then have jn: "j \<noteq> nat fd" using n by (auto simp: sv net_ok_def)
    then have "libev_list s ! j = Some v" using j(2) by (simp add: sv)
    then have "v \<in> set (L j) \<and> cb (wt s v) = READ_CB" using n j(1) by (simp add: net_ok_def)
    then show "v \<in> set (?L j)" "cb (wt ?s' v) = READ_CB" using jn fr by simp_all
  next
    fix j v assume "v \<in> set (?L j)"
    then have "v \<in> set (L j)" "v \<noteq> w" using less by blast+
    then have "v \<in> conns s \<or> v \<in> S" "v \<noteq> w" using n by (auto simp: net_ok_def)
    then show "v \<in> conns ?s' \<or> v \<in> S" unfolding cs by blast
  next
    fix v assume v: "pending (wt ?s' v) \<noteq> 0"
    then have "v \<noteq> w" using pz by auto
    have "(\<exists>j. v \<in> set (L j)) \<or> v \<in> S" using po [of v] v n by (simp add: net_ok_def)
    then show "(\<exists>fd. v \<in> set (?L fd)) \<or> v \<in> S" using keep [OF _ \<open>v \<noteq> w\<close>] by blast
  next
    have "cb (wt s w) = READ_CB" using n i fd(3) by (simp add: net_ok_def)
    then have wS: "w \<notin> S" using n by (auto simp: net_ok_def)
    show "\<forall>v \<in> S. cb (wt ?s' v) \<noteq> READ_CB" "pending_w \<in> S" using n fr by (simp_all add: net_ok_def)
    have "sys_ok S ?L s1"
    proof (rule sys_ok_cong [of S L s, OF _ fr [THEN conjunct1]])
      show "sys_ok S L s" using n by (simp add: net_ok_def)
      fix v assume v: "v \<in> S" "\<forall>fd. v \<notin> set (L fd)"
      then have "v \<noteq> w" using wS by blast
      then show "w_next (wt s1 v) = w_next (wt s v) \<and> signum (wt s1 v) = signum (wt s v) \<and> active (wt s1 v) = active (wt s v)
        \<and> ABSPRI (wt s1 v) = ABSPRI (wt s v)"
        using io_stop_other [OF ok(1) w s1(1), of v] v(2) s1(5,6) by (simp add: ABSPRI_def)
    next
      fix j v assume "v \<in> set (?L j)"
      then show "v \<in> set (L j) \<or> v \<notin> S" using less by blast
    next
      fix j assume "pipe_w s \<in> set (L j)"
      moreover have "pipe_w s \<noteq> w" using n wS by (auto simp: net_ok_def sys_ok_def)
      ultimately show "\<exists>j. pipe_w s \<in> set (?L j)" using keep by blast
    qed
    then show "sys_ok S ?L ?s'" by (simp add: sys_ok_def sig_ok_def)
  qed
  then show ?thesis using s1(1,3) fr cs by blast
qed

text \<open>The state after a callback of the accepting socket, or the closing of a connection: the loop, the
connections and the pool of the watchers agree (\<open>hq\<close> are the messages).\<close>

definition conn_step :: "addr set \<Rightarrow> addr \<Rightarrow> addr \<Rightarrow> addr set \<Rightarrow> 'a server_scheme \<Rightarrow> 'a server_scheme \<Rightarrow> bool" where
  "conn_step S p q hq s s' \<longleftrightarrow> (\<exists>L'. net_ok S L' s') \<and> pools_ok S p q (conns s') hq (sheap s') \<and> same_rest s s'"

lemma same_rest_heap: "same_rest s (s\<lparr>sheap := h\<rparr>)" "same_rest s (s\<lparr>sheap := h, closed := c\<rparr>)"
  by (simp_all add: same_rest_def)

lemma insert_remove: "a \<notin> A \<Longrightarrow> insert a A - {a} = A"
  by auto

lemma accept_spec:
  fixes s :: "'a server_scheme"
  assumes n: "net_ok S L s" and p: "ev_pool s = Some p" "pools_ok S p q (conns s) hq (sheap s)" and m: "fresh_malloc mal"
  shows "accept_func_cb mal acc w ev s = Fault \<and> (acc = SOCKET_ALLOC_MAX_CLIENT \<or> (\<exists>h. Malloc mal (Some p) (sheap s) = Done (None, h)))
    \<or> (\<exists>s'. accept_func_cb mal acc w ev s = Done s' \<and> conn_step S p q hq s s')"
proof (cases "\<exists>h. Malloc mal (Some p) (sheap s) = Done (None, h)")
  case True
  then show ?thesis by (auto simp: accept_func_cb_def p(1) Free_def Let_def)
next
  case False
  then obtain a h where a: "Malloc mal (Some p) (sheap s) = Done (Some a, h)" "a \<notin> conns s \<union> hq \<union> S"
    "pools_ok S p q (insert a (conns s)) hq h" using pools_malloc [OF p(2) m] by blast
  from pools_free [OF a(3), of a] obtain h' where h': "Free (Some p) (Some a) h = Done h'"
    "pools_ok S p q (insert a (conns s) - {a}) hq h'" by blast
  have undo: "conn_step S p q hq s (s\<lparr>sheap := h'\<rparr>)" "conn_step S p q hq s (s\<lparr>sheap := h', closed := c\<rparr>)" for c
    using n h'(2) a(2) by (auto simp: conn_step_def insert_remove same_rest_heap)
  have len: "int (length (libev_list s)) = SOCKET_ALLOC_MAX_CLIENT" using n by (simp add: net_ok_def max_fd)
  let ?s = "s\<lparr>sheap := h\<rparr>"
  consider "EV_ERROR AND ev \<noteq> 0 \<or> acc < 0" | "EV_ERROR AND ev = 0" "acc > SOCKET_ALLOC_MAX_CLIENT" | "acc = SOCKET_ALLOC_MAX_CLIENT"
    | "EV_ERROR AND ev = 0" "0 \<le> acc" "acc < SOCKET_ALLOC_MAX_CLIENT" by linarith
  then show ?thesis
  proof cases
    case 1
    then have "accept_func_cb mal acc w ev s = Done (s\<lparr>sheap := h'\<rparr>)"
      by (auto simp: accept_func_cb_def p(1) a(1) h'(1) Let_def)
    then show ?thesis using undo(1) by blast
  next
    case 2
    then have "\<not> acc < 0" using max_fd by linarith
    then have "accept_func_cb mal acc w ev s = Done (s\<lparr>sheap := h', closed := closed s @ [acc]\<rparr>)"
      using 2 by (simp add: accept_func_cb_def p(1) a(1) h'(1) Let_def)
    then show ?thesis using undo(2) by blast
  next
    case 3
    have "\<not> acc < 0" using max_fd 3 by linarith
    show ?thesis
    proof (cases "EV_ERROR AND ev = 0")
      case True
      then have "accept_func_cb mal acc w ev s = Fault"
        using 3 \<open>\<not> acc < 0\<close> len by (simp add: accept_func_cb_def p(1) a(1) h'(1) Let_def)
      then show ?thesis using 3 by simp
    next
      case False
      then have "accept_func_cb mal acc w ev s = Done (s\<lparr>sheap := h'\<rparr>)"
        by (simp add: accept_func_cb_def p(1) a(1) h'(1) Let_def)
      then show ?thesis using undo(1) by blast
    qed
  next
    case 4
    show ?thesis
    proof (cases "libev_list s ! nat acc")
      case (Some v)
      then have "accept_func_cb mal acc w ev s = Done (s\<lparr>sheap := h'\<rparr>)"
        using 4 len by (simp add: accept_func_cb_def p(1) a(1) h'(1) Let_def)
      then show ?thesis using undo(1) by blast
    next
      case None
      let ?u = "upd_w a (ev_io_init READ_CB acc EV_READ) ?s"
      have n': "net_ok S L ?s" "a \<notin> conns ?s" "a \<notin> S" "libev_list ?s ! nat acc = None" using n a(2) None by simp_all
      have "\<exists>s1. ev_io_start a ?u = Some s1"
      proof -
        have wL: "a \<notin> set (L i)" for i using n'(1-3) by (auto simp: net_ok_def)
        have "fd_ok L ?u" by (rule fd_ok_cong [of L ?s]) (use n'(1) wL in \<open>auto simp: net_ok_def\<close>)
        moreover have "active (wt ?u a) = 0" "legal_io (wt ?u a)" using 4(2) by (simp_all add: io_client)
        moreover have "a \<noteq> pending_w" using n'(1,3) by (auto simp: net_ok_def)
        ultimately show ?thesis using io_start_spec [of L ?u a] by blast
      qed
      then obtain s1 where s1: "ev_io_start a ?u = Some s1" ..
      let ?s' = "s1\<lparr>libev_list := (libev_list s1)[nat acc := Some a]\<rparr>"
      have acc': "acc < int max_fd" using 4(3) by (simp add: max_fd)
      note oc = open_connection [OF n'(1) 4(2) acc' n'(4) n'(2,3) s1 refl]
      have "accept_func_cb mal acc w ev s = Done ?s'"
        using 4 len None s1 by (simp add: accept_func_cb_def p(1) a(1) h'(1) Let_def)
      moreover have "same_rest s ?s'" using oc(3) by (simp add: same_rest_def)
      ultimately show ?thesis using oc(1,2,4) a(3) by (auto simp: conn_step_def)
    qed
  qed
qed

lemma free_libev_spec:
  fixes s :: "'a server_scheme"
  assumes n: "net_ok S L s" and p: "ev_pool s = Some p" "pools_ok S p q (conns s) hq (sheap s)" and fd: "0 \<le> fd" "fd \<noteq> SOCKET_ALLOC_MAX_CLIENT"
  shows "\<exists>s'. free_libev fd s = Done s' \<and> conn_step S p q hq s s'
    \<and> (\<forall>w. fd < SOCKET_ALLOC_MAX_CLIENT \<and> libev_list s ! nat fd = Some w \<longrightarrow>
         libev_list s' = (libev_list s)[nat fd := None] \<and> conns s' = conns s - {w} \<and> closed s' = closed s @ [fd] \<and> active (wt s' w) = 0)"
proof -
  have len: "int (length (libev_list s)) = SOCKET_ALLOC_MAX_CLIENT" using n by (simp add: net_ok_def max_fd)
  have id: "conn_step S p q hq s s" using n p(2) by (auto simp: conn_step_def same_rest_def)
  show ?thesis
  proof (cases "fd < SOCKET_ALLOC_MAX_CLIENT \<and> libev_list s ! nat fd \<noteq> None")
    case False
    then have "free_libev fd s = Done s" using fd len by (auto simp: free_libev_def)
    then show ?thesis using id False by auto
  next
    case True
    then obtain w where w: "libev_list s ! nat fd = Some w" by auto
    let ?s = "s\<lparr>closed := closed s @ [fd]\<rparr>"
    have n': "net_ok S L ?s" "libev_list ?s ! nat fd = Some w" using n w by simp_all
    from close_connection [OF n'(1) fd(1) _ n'(2)] True obtain s1 where s1: "ev_io_stop w ?s = Some s1"
      "ev_fds.more s1 = ev_fds.more ?s"
      "net_ok S (L(nat fd := remove1 w (L (nat fd)))) (s1\<lparr>libev_list := (libev_list s1)[nat fd := None]\<rparr>)"
      "conns (s1\<lparr>libev_list := (libev_list s1)[nat fd := None]\<rparr>) = conns ?s - {w}" "active (wt s1 w) = 0" by blast
    note sv = more_server [OF s1(2)]
    have "Some w \<in> set (libev_list s)" using w True len fd(1) by (metis nat_less_iff nth_mem)
    then have "w \<in> conns s" by (simp add: conns_def)
    from pools_free [OF p(2) this] obtain h' where h': "Free (Some p) (Some w) (sheap s) = Done h'"
      "pools_ok S p q (conns s - {w}) hq h'" by blast
    let ?s' = "s1\<lparr>sheap := h', libev_list := (libev_list s1)[nat fd := None]\<rparr>"
    have r: "free_libev fd s = Done ?s'"
      using True fd len w s1(1) h'(1) p(1) by (simp add: free_libev_def sv)
    have e: "?s' = (s1\<lparr>libev_list := (libev_list s1)[nat fd := None]\<rparr>)\<lparr>sheap := h'\<rparr>" by simp
    have c: "conns ?s' = conns s - {w}" unfolding e net_ok_heap(3) s1(4) by simp
    have "net_ok S (L(nat fd := remove1 w (L (nat fd)))) ?s'" unfolding e net_ok_heap(1) by (rule s1(3))
    moreover have "same_rest s ?s'" by (simp add: same_rest_def sv)
    ultimately have "conn_step S p q hq s ?s'" using c h'(2) unfolding conn_step_def by auto
    then show ?thesis using r c w s1(5) by (intro exI [of _ ?s']) (auto simp: sv)
  qed
qed

section \<open>The loop's own callbacks\<close>

text \<open>Steps that only queue events and set flags of the loop.\<close>

definition loop_frame :: "'a ev_pipe_scheme \<Rightarrow> 'a ev_pipe_scheme \<Rightarrow> bool" where
  "loop_frame s s' \<longleftrightarrow> ev_pipe.more s' = ev_pipe.more s \<and> anfds s' = anfds s \<and> fdchanges s' = fdchanges s
     \<and> pipe_w s' = pipe_w s \<and> childs s' = childs s \<and> asyncs s' = asyncs s \<and> sig_head s' = sig_head s \<and> sig_loop s' = sig_loop s
     \<and> (\<forall>v. w_next (wt s' v) = w_next (wt s v) \<and> io_fd (wt s' v) = io_fd (wt s v) \<and> active (wt s' v) = active (wt s v)
          \<and> io_events (wt s' v) = io_events (wt s v) \<and> ABSPRI (wt s' v) = ABSPRI (wt s v) \<and> signum (wt s' v) = signum (wt s v)
          \<and> cb (wt s' v) = cb (wt s v))"

lemma loop_frame_refl: "loop_frame s s"
  by (simp add: loop_frame_def)

lemma loop_frame_trans: "loop_frame s t \<Longrightarrow> loop_frame t u \<Longrightarrow> loop_frame s u"
  by (simp add: loop_frame_def)

lemma loop_frame_feed: "loop_frame s (ev_feed_event w ev s)"
  by (simp add: loop_frame_def) (simp add: ev_feed_event_def Let_def)

lemma loop_frame_fold: "loop_frame s (fold (\<lambda>w. ev_feed_event w ev) ws s)"
proof (induction ws arbitrary: s)
  case (Cons w ws)
  then show ?case using loop_frame_trans [OF loop_frame_feed [of s w ev]] by simp
qed (simp add: loop_frame_refl)

lemma more_pipe:
  assumes "ev_pipe.more s' = ev_pipe.more (s :: 'a server_scheme)"
  shows "sheap s' = sheap s" "ev_pool s' = ev_pool s" "obd_pool s' = obd_pool s" "libev_list s' = libev_list s" "obds s' = obds s"
    "obd_mq s' = obd_mq s" "thread_pool s' = thread_pool s" "mq_flag s' = mq_flag s" "socket_accept s' = socket_accept s"
    "closed s' = closed s" "sent s' = sent s" "printed s' = printed s" "server.more s' = server.more s"
  using assms by (cases s; cases s'; simp)+

lemma loop_frame_net:
  fixes s :: "'a server_scheme"
  assumes n: "net_ok S L s" and f: "loop_frame s s'" and pk: "pend_ok s'"
    and pe: "\<And>v. pending (wt s' v) \<noteq> 0 \<Longrightarrow> pending (wt s v) \<noteq> 0 \<or> v \<in> S"
    and sp: "\<And>i. sig_pend s' i \<Longrightarrow> sig_pend s i \<or> sig_loop s i \<noteq> None"
  shows "net_ok S L s'"
proof -
  have m: "ev_pipe.more s' = ev_pipe.more s" "anfds s' = anfds s" "fdchanges s' = fdchanges s"
    "pipe_w s' = pipe_w s" "childs s' = childs s" "asyncs s' = asyncs s" "sig_head s' = sig_head s" "sig_loop s' = sig_loop s"
    "w_next (wt s' v) = w_next (wt s v)" "io_fd (wt s' v) = io_fd (wt s v)" "active (wt s' v) = active (wt s v)"
    "io_events (wt s' v) = io_events (wt s v)" "ABSPRI (wt s' v) = ABSPRI (wt s v)" "signum (wt s' v) = signum (wt s v)"
    "cb (wt s' v) = cb (wt s v)" for v using f by (simp_all add: loop_frame_def)
  note sv = more_pipe [OF m(1)]
  have fd: "fd_ok L s'" by (rule fd_ok_cong [of L s]) (use n m in \<open>auto simp: net_ok_def\<close>)
  from n obtain G where G: "sig_ok G s" "\<forall>i. set (G i) \<subseteq> S" "\<forall>i fd. set (G i) \<inter> set (L fd) = {}"
    unfolding net_ok_def sys_ok_def by blast
  have "sig_ok G s'" by (rule sig_ok_cong [OF G(1)]) (simp_all add: m)
  moreover have so: "\<forall>i. sig_pend s i \<longrightarrow> sig_loop s i \<noteq> None" "\<forall>i l. sig_loop s i = Some l \<longrightarrow> l = this_loop \<and> i < EV_NSIG - 1"
    "childs s = (\<lambda>_. None)" "asyncs s = []" "pipe_w s \<in> S" "\<exists>fd. pipe_w s \<in> set (L fd)"
    using n by (simp_all add: net_ok_def sys_ok_def)
  moreover have "\<forall>i. sig_pend s' i \<longrightarrow> sig_loop s i \<noteq> None" using sp so(1) by blast
  ultimately have "sys_ok S L s'" using G(2,3) unfolding sys_ok_def m by blast
  then show ?thesis using n fd pk pe unfolding net_ok_def conns_def sv m by blast
qed

lemma feed_loop_net:
  fixes s :: "'a server_scheme"
  assumes n: "net_ok S L s" and w: "w \<in> S" "w \<noteq> pending_w" "ABSPRI (wt s w) < NUMPRI"
  shows "net_ok S L (ev_feed_event w ev s)"
proof (rule loop_frame_net [OF n loop_frame_feed])
  show "pend_ok (ev_feed_event w ev s)" using feed_pend_ok n w by (auto simp: net_ok_def)
  show "pending (wt (ev_feed_event w ev s) v) \<noteq> 0 \<Longrightarrow> pending (wt s v) \<noteq> 0 \<or> v \<in> S" for v
    using w(1) by (cases "v = w") (simp_all add: ev_feed_event_def Let_def split: if_splits)
qed simp

text \<open>The wake-up event that \<open>ev_run\<close> queues itself.\<close>

lemma wake_net:
  fixes s :: "'a server_scheme"
  assumes n: "net_ok S L s"
  shows "net_ok S L (ev_feed_event (pipe_w s) ev s)"
proof -
  from n have "sys_ok S L s" by (simp add: net_ok_def)
  then obtain fd where fd: "pipe_w s \<in> set (L fd)" "pipe_w s \<in> S" by (auto simp: sys_ok_def)
  have "fd_lists L s" using n by (simp add: net_ok_def fd_ok_def)
  from feed_loop_net [OF n fd(2) fd_listsD(3,5) [OF this fd(1)]] show ?thesis .
qed

lemma sighandler_net:
  fixes s :: "'a server_scheme"
  assumes n: "net_ok S L s"
  shows "net_ok S L (ev_sighandler sg s)" "ev_pipe.more (ev_sighandler sg s) = ev_pipe.more s"
proof -
  let ?s = "ev_sighandler sg s"
  have f: "loop_frame s ?s" "wt ?s = wt s" "pendings ?s = pendings s"
    and sp: "sig_pend ?s i \<Longrightarrow> sig_pend s i \<or> sig_loop s i \<noteq> None" for i
    by (auto simp: loop_frame_def ev_sighandler_def ev_feed_signal_def evpipe_write_def Let_def split: option.splits if_splits)
  have "pend_ok ?s = pend_ok s" by (rule pend_ok_cong) (simp_all add: f)
  then have "pend_ok ?s" using n by (simp add: net_ok_def)
  from loop_frame_net [OF n f(1) this _ sp] show "net_ok S L ?s" by (simp add: f)
  show "ev_pipe.more ?s = ev_pipe.more s" using f(1) by (simp add: loop_frame_def)
qed

text \<open>The pipe callback feeds the watchers of the signals that have arrived.\<close>

lemma signal_event_net:
  fixes s :: "'a server_scheme"
  assumes n: "net_ok S L s" and i: "sig_pend s i"
  shows "\<exists>s'. ev_feed_signal_event (int i + 1) s = Some s' \<and> net_ok S L s' \<and> ev_pipe.more s' = ev_pipe.more s
    \<and> (\<forall>j. sig_pend s' j \<longrightarrow> sig_pend s j)"
proof -
  from n obtain G where G: "sig_ok G s" "\<forall>i. set (G i) \<subseteq> S" unfolding net_ok_def sys_ok_def by blast
  from n i have l: "i < EV_NSIG - 1" "sig_loop s i = Some this_loop"
    by (auto simp: net_ok_def sys_ok_def)
  have pk: "pend_ok s" using n by (simp add: net_ok_def)
  from feed_signal_event_spec [OF G(1) pk l] obtain s' where s': "ev_feed_signal_event (int i + 1) s = Some s'" "pend_ok s'"
    "sig_pend s' = (sig_pend s)(i := False)" by blast
  let ?s1 = "s\<lparr>sig_pend := (sig_pend s)(i := False)\<rparr>"
  have ch: "chain (nexts (wt ?s1)) (sig_head ?s1 i) (G i)" using G(1) by (simp add: sig_ok_def)
  have "ev_feed_signal_event (int i + 1) s = Some (fold (\<lambda>w. ev_feed_event w EV_SIGNAL) (G i) ?s1)"
    using l feed_wlist_eq [OF ch] by (simp add: ev_feed_signal_event_def Let_def)
  then have e: "s' = fold (\<lambda>w. ev_feed_event w EV_SIGNAL) (G i) ?s1" using s'(1) by simp
  have "loop_frame s ?s1" by (simp add: loop_frame_def)
  then have f: "loop_frame s s'" unfolding e using loop_frame_trans loop_frame_fold by blast
  have pe: "pending (wt (fold (\<lambda>w. ev_feed_event w EV_SIGNAL) ws u) v) \<noteq> 0 \<Longrightarrow> pending (wt u v) \<noteq> 0 \<or> v \<in> set ws"
    for ws v and u :: "'a server_scheme"
  proof (induction ws arbitrary: u)
    case (Cons w ws)
    have "pending (wt (ev_feed_event w EV_SIGNAL u) v) \<noteq> 0 \<Longrightarrow> pending (wt u v) \<noteq> 0 \<or> v = w"
      by (cases "v = w") (simp_all add: ev_feed_event_def Let_def split: if_splits)
    then show ?case using Cons.IH [of "ev_feed_event w EV_SIGNAL u"] Cons.prems by auto
  qed simp
  have pe': "pending (wt s v) \<noteq> 0 \<or> v \<in> S" if "pending (wt s' v) \<noteq> 0" for v
    using pe [of "G i" ?s1 v] that G(2) unfolding e by auto
  have sp: "sig_pend s' j \<Longrightarrow> sig_pend s j" for j using s'(3) by (auto split: if_splits)
  have "net_ok S L s'" by (rule loop_frame_net [OF n f s'(2) pe']) (use sp in blast)+
  then show ?thesis using s'(1) f sp by (auto simp: loop_frame_def)
qed

lemma signals_loop_net:
  fixes s :: "'a server_scheme"
  assumes "net_ok S L s"
  shows "\<exists>s'. signals_loop k s = Some s' \<and> net_ok S L s' \<and> ev_pipe.more s' = ev_pipe.more s"
  using assms
proof (induction k arbitrary: s)
  case (Suc k)
  show ?case
  proof (cases "sig_pend s k")
    case True
    from signal_event_net [OF Suc.prems True] obtain s1 where s1: "ev_feed_signal_event (int k + 1) s = Some s1" "net_ok S L s1"
      "ev_pipe.more s1 = ev_pipe.more s" by blast
    from Suc.IH [OF s1(2)] s1 True show ?thesis by auto
  next
    case False
    then show ?thesis using Suc by simp
  qed
qed simp

lemma net_ok_flags [simp]:
  "net_ok S L (s\<lparr>pipe_bytes := a\<rparr>) = net_ok S L s" "net_ok S L (s\<lparr>pipe_write_skipped := b\<rparr>) = net_ok S L s"
  "net_ok S L (s\<lparr>sig_pending := b\<rparr>) = net_ok S L s" "net_ok S L (s\<lparr>async_pending := b\<rparr>) = net_ok S L s"
  "net_ok S L (s\<lparr>loop_done := d\<rparr>) = net_ok S L s"
  by (auto simp: net_ok_def conns_def fd_ok_def fd_lists_def changes_ok_def synced_def pend_ok_def sys_ok_def sig_ok_def)

lemma pipecb_net:
  fixes s :: "'a server_scheme"
  assumes n: "net_ok S L s"
  shows "\<exists>s'. pipecb ev s = Some s' \<and> net_ok S L s' \<and> ev_pipe.more s' = ev_pipe.more s"
proof -
  let ?s1 = "if ev AND EV_READ \<noteq> 0 then s\<lparr>pipe_bytes := (if evpipe0 s < 0 then 0 else pipe_bytes s - 4)\<rparr> else s"
  let ?s2 = "?s1\<lparr>pipe_write_skipped := False\<rparr>"
  let ?r = "if sig_pending ?s2 then signals_loop (EV_NSIG - 1) (?s2\<lparr>sig_pending := False\<rparr>) else Some ?s2"
  have n2: "net_ok S L ?s2" "net_ok S L (?s2\<lparr>sig_pending := False\<rparr>)" using n by simp_all
  have m2: "ev_pipe.more ?s2 = ev_pipe.more s" "ev_pipe.more (?s2\<lparr>sig_pending := False\<rparr>) = ev_pipe.more s" by simp_all
  obtain s3 where s3: "?r = Some s3" "net_ok S L s3" "ev_pipe.more s3 = ev_pipe.more s"
  proof (cases "sig_pending ?s2")
    case True
    from signals_loop_net [OF n2(2), of "EV_NSIG - 1"] obtain s3 where
      "signals_loop (EV_NSIG - 1) (?s2\<lparr>sig_pending := False\<rparr>) = Some s3" "net_ok S L s3"
      "ev_pipe.more s3 = ev_pipe.more (?s2\<lparr>sig_pending := False\<rparr>)" by blast
    then show ?thesis using that True m2(2) by simp
  next
    case False
    then show ?thesis using that [of ?s2] n2(1) m2(1) by simp
  qed
  have a: "asyncs s3 = []" using s3(2) by (simp add: net_ok_def sys_ok_def)
  have "pipecb ev s = Some (if async_pending s3 then s3\<lparr>async_pending := False\<rparr> else s3)"
    unfolding pipecb_def Let_def s3(1) by (simp add: a)
  then show ?thesis using s3(2,3) by auto
qed

lemma childcb_net:
  fixes s :: "'a server_scheme"
  assumes n: "net_ok S L s" and w: "w \<in> S" "w \<noteq> pending_w" "ABSPRI (wt s w) < NUMPRI"
  shows "\<exists>s'. childcb traced wait w s = Some s' \<and> net_ok S L s' \<and> ev_pipe.more s' = ev_pipe.more s"
proof -
  have c: "childs s = (\<lambda>_. None)" using n by (simp add: net_ok_def sys_ok_def)
  let ?s = "ev_feed_event w EV_SIGNAL s"
  have "child_reap traced ch pd st ?s = Some ?s" for ch pd st
    by (simp add: child_reap_def c child_loop.simps)
  then have "childcb traced wait w s = Some (if wait = None then s else ?s)"
    by (auto simp: childcb_def split: option.splits)
  moreover have "ev_pipe.more ?s = ev_pipe.more s" using loop_frame_feed [of s w EV_SIGNAL] by (simp add: loop_frame_def)
  ultimately show ?thesis using n feed_loop_net [OF n w] by auto
qed

section \<open>Changes handed to the backend\<close>

text \<open>The backend keeps its table outside the state of the loop, and the calls succeed.\<close>

definition backend_apart :: "'a ev_fds_scheme backend_modify" where
  "backend_apart fd old new s = Some s"

lemma reify_loop_apart:
  assumes "fd_lists L s" "distinct fds" "drop i (fdchanges s) = fds" "\<And>fd. fd \<in> set fds \<Longrightarrow> fd < length (anfds s)"
  shows "\<exists>an. fd_reify_loop backend_apart i s = Some (s\<lparr>anfds := an\<rparr>) \<and> length an = length (anfds s)
    \<and> (\<forall>fd < length (anfds s). an ! fd = (if fd \<in> set fds then reified L s fd else anfds s ! fd))"
  using assms
proof (induction fds arbitrary: i s)
  case Nil
  then have "\<not> i < length (fdchanges s)" by auto
  then show ?case by (subst fd_reify_loop.simps) (auto intro: exI [of _ "anfds s"])
next
  case (Cons fd fds)
  have i1: "i < length (fdchanges s)" using Cons.prems(3) by (cases "i < length (fdchanges s)") auto
  then have i: "fdchanges s ! i = fd" "drop (Suc i) (fdchanges s) = fds"
    using Cons_nth_drop_Suc [OF i1] Cons.prems(3) by auto
  have fd: "fd < length (anfds s)" "fd \<notin> set fds" using Cons.prems(2,4) by auto
  let ?s1 = "upd_anfd fd (\<lambda>_. reified L s fd) s"
  have "or_events (head (anfds s ! fd)) (wt s) 0 = Some (mask_of (wt s) (L fd))"
    unfolding mask_of_def using Cons.prems(1) fd(1) by (intro or_events_spec) (simp add: fd_lists_def)
  then have "fd_reify_one backend_apart fd s = Some ?s1"
    by (auto simp: fd_reify_one_def Let_def backend_apart_def reified_def upd_anfd_def)
  then have eq: "fd_reify_loop backend_apart i s = fd_reify_loop backend_apart (Suc i) ?s1"
    using i1 i by (subst fd_reify_loop.simps) simp
  have at: "anfds ?s1 ! k = (if k = fd then reified L s fd else anfds s ! k)" if "k < length (anfds s)" for k
    using that by (simp add: nth_upd_anfd)
  have fl: "fd_lists L ?s1" using Cons.prems(1) at by (auto simp: fd_lists_def reified_def)
  have rest: "reified L ?s1 k = reified L s k" if "k \<in> set fds" for k
    using at [of k] fd Cons.prems(4) that by (auto simp: reified_def)
  have "drop (Suc i) (fdchanges ?s1) = fds" using i by simp
  from Cons.IH [OF fl _ this] obtain an where an: "fd_reify_loop backend_apart (Suc i) ?s1 = Some (?s1\<lparr>anfds := an\<rparr>)"
    "length an = length (anfds ?s1)"
    "\<forall>k < length (anfds ?s1). an ! k = (if k \<in> set fds then reified L ?s1 k else anfds ?s1 ! k)"
    using Cons.prems(2,4) by auto
  have "an ! k = (if k \<in> set (fd # fds) then reified L s k else anfds s ! k)" if "k < length (anfds s)" for k
    using an(3) at [OF that] that rest [of k] fd(2) by auto
  moreover have "?s1\<lparr>anfds := an\<rparr> = s\<lparr>anfds := an\<rparr>" by (simp add: upd_anfd_def)
  ultimately show ?case using eq an by auto
qed

lemma reify_net:
  fixes s :: "'a server_scheme"
  assumes n: "net_ok S L s"
  shows "\<exists>s'. fd_reify backend_apart s = Some s' \<and> net_ok S L s' \<and> ev_fds.more s' = ev_fds.more s \<and> fdchanges s' = []"
proof -
  have ok: "fd_ok L s" using n by (simp add: net_ok_def)
  have l: "fd_lists L s" "distinct (fdchanges s)" "\<And>fd. fd \<in> set (fdchanges s) \<Longrightarrow> fd < length (anfds s)"
    using ok by (auto simp: fd_ok_def changes_ok_def)
  obtain an where an: "fd_reify_loop backend_apart 0 s = Some (s\<lparr>anfds := an\<rparr>)" "length an = length (anfds s)"
    "\<forall>fd < length (anfds s). an ! fd = (if fd \<in> set (fdchanges s) then reified L s fd else anfds s ! fd)"
    using reify_loop_apart [OF l(1,2), of 0] l(3) by auto
  have r: "reify (an ! fd) = 0 \<and> af_events (an ! fd) = mask_of (wt s) (L fd) \<and> head (an ! fd) = head (anfds s ! fd)"
    if "fd < length (anfds s)" for fd
    using an(3) that ok by (cases "fd \<in> set (fdchanges s)") (auto simp: reified_def fd_ok_def changes_ok_def synced_def)
  let ?s = "s\<lparr>anfds := an, fdchanges := []\<rparr>"
  have "fd_ok L ?s" using ok r an(2) by (auto simp: fd_ok_def fd_lists_def changes_ok_def synced_def)
  moreover have "sys_ok S L ?s" by (rule sys_ok_cong [of S L s]) (use n in \<open>auto simp: net_ok_def\<close>)
  ultimately have "net_ok S L ?s" using n by (auto simp: net_ok_def conns_def pend_ok_def)
  then show ?thesis using an(1) by (auto simp: fd_reify_def)
qed

lemma kernel_event_net:
  fixes s :: "'a server_scheme"
  assumes "net_ok S L s" "fd < length (anfds s)" "fd_event fd revents s = Some s'"
  shows "net_ok S L s'" "ev_fds.more s' = ev_fds.more s"
proof -
  have "s' = s \<or> ev_feed_fd_event (int fd) revents s = Some s'"
    using assms(2,3) by (auto simp: fd_event_def ev_feed_fd_event_def split: if_splits)
  then show "net_ok S L s'" "ev_fds.more s' = ev_fds.more s" using kernel_net [OF assms(1)] assms(1) by auto
qed

end
