(* ===== verification/ServerLaws.thy ===== *)
theory ServerLaws
  imports ServerNet
begin

text \<open>
  What the server promises.  Its threads are taken apart into steps: a round of the loop hands changes to
  the backend, gets kernel events, makes one callback at a time; a signal may arrive at any moment; the
  dispatcher moves one message; a worker takes a task or finishes one.  Each step is atomic: the races on
  the memory pools, which the code does not lock, are shown in \<open>MemPool\<close>.  In every state that can
  be reached so, a callback is only made for a connection that is open, and every message received is
  decoded once, in order and unchanged, unless the thread pool refused it.
\<close>

section \<open>The server as a system of steps\<close>

text \<open>
  \<open>working\<close> are the messages the workers have taken, \<open>leaked\<close> those the thread pool refused.  The rest is
  history: the messages put into the queue, those handed to the thread pool with its answer, those a
  worker has begun to decode, each as it was at that moment.
\<close>

record srv_sys = server +
  working :: "addr list"
  leaked :: "addr list"
  rcvd :: "OBD_t list"
  handed :: "(OBD_t \<times> bool) list"
  begun :: "OBD_t list"

text \<open>What the system calls of a callback return.\<close>

record world =
  wd_recv :: recv_result
  wd_accept :: int
  wd_traced :: "int \<Rightarrow> bool"
  wd_wait :: "(int \<times> int) option"

definition call_back :: "allocator \<Rightarrow> world \<Rightarrow> wid \<Rightarrow> evmask \<Rightarrow> 'a server_scheme \<Rightarrow> 'a server_scheme run" where
  "call_back mal wd w revents s =
     (if w = pending_w then Done s
      else if cb (wt s w) = ACCEPT_CB then accept_func_cb mal (wd_accept wd) w revents s
      else if cb (wt s w) = READ_CB then read_func_cb mal (wd_recv wd) w revents s
      else if cb (wt s w) = SIGNAL_CB then Done (ev_signal_cb w revents s)
      else if cb (wt s w) = PIPECB then run_of_option (pipecb revents s)
      else if cb (wt s w) = CHILDCB then run_of_option (childcb (wd_traced wd) (wd_wait wd) w s)
      else Done s)"

definition log_received :: "nat \<Rightarrow> srv_sys \<Rightarrow> srv_sys" where
  "log_received n s = s\<lparr>rcvd := rcvd s @ map (obds s) (drop n (mq_elems (obd_mq s)))\<rparr>"

definition log_handed :: "srv_sys \<Rightarrow> srv_sys \<Rightarrow> srv_sys" where
  "log_handed s s' =
     (case mq_elems (obd_mq s) of
        [] \<Rightarrow> s'
      | a # _ \<Rightarrow>
          let ok = (fst (threadpool_add rc_ok (thread_pool s) DECODE_FN a) = 0)
          in s'\<lparr>handed := handed s' @ [(obds s a, ok)], leaked := (if ok then leaked s' else a # leaked s')\<rparr>)"

definition recv_ok :: "recv_result \<Rightarrow> bool" where
  "recv_ok r \<longleftrightarrow> (\<forall>bs. r = Received bs \<longrightarrow> length bs \<le> BUF_SIZE)"

text \<open>\<open>Reify\<close>, \<open>Kernel\<close> and \<open>Wake\<close> are what \<open>ev_run\<close> does around the poll, \<open>Callback\<close> is one turn of
\<open>ev_invoke_pending\<close>.\<close>

inductive srv_step :: "allocator \<Rightarrow> srv_sys \<Rightarrow> srv_sys \<Rightarrow> bool" for mal where
  Reify: "fd_reify backend_apart s = Some s' \<Longrightarrow> srv_step mal s s'"
| Kernel: "fd < length (anfds s) \<Longrightarrow> fd_event fd revents s = Some s' \<Longrightarrow> srv_step mal s s'"
| Wake: "pipe_write_skipped s \<Longrightarrow> srv_step mal s (ev_feed_event (pipe_w s) EV_CUSTOM s)"
| Signal: "srv_step mal s (ev_sighandler sg s)"
| Callback: "next_event s p (w, ev) \<Longrightarrow> recv_ok (wd_recv wd) \<Longrightarrow> length (mq_elems (obd_mq s)) < 2 ^ 32 - 1 \<Longrightarrow>
     call_back mal wd w ev (without_event p w s) = Done s' \<Longrightarrow>
     srv_step mal s (log_received (length (mq_elems (obd_mq s))) s')"
| Dispatch: "dispatch rc_ok s = Done (False, s') \<Longrightarrow> srv_step mal s (log_handed s s')"
| Take: "thread_pool s = Some tp \<Longrightarrow> tp_tasks tp \<noteq> [] \<Longrightarrow> task_take tp = (t, tp') \<Longrightarrow>
     srv_step mal s (s\<lparr>thread_pool := Some tp', working := task_argument t # working s,
       begun := begun s @ [obds s (task_argument t)]\<rparr>)"
| Finish: "a \<in> set (working s) \<Longrightarrow> OBD_decode_thread n a s = Done s' \<Longrightarrow>
     srv_step mal s (s'\<lparr>working := remove1 a (working s)\<rparr>)"

inductive srv_reach :: "allocator \<Rightarrow> srv_sys \<Rightarrow> srv_sys \<Rightarrow> bool" for mal s0 where
  Start: "srv_reach mal s0 s0"
| Step: "srv_reach mal s0 s \<Longrightarrow> srv_step mal s s' \<Longrightarrow> srv_reach mal s0 s'"

section \<open>The invariant of the messages\<close>

definition queued :: "'a server_scheme \<Rightarrow> addr list" where
  "queued s = map task_argument (tp_tasks (the (thread_pool s)))"

text \<open>The messages that are not in the queue: every block of the pool in use is in exactly one place.\<close>

definition others :: "srv_sys \<Rightarrow> addr list" where
  "others s = queued s @ working s @ leaked s"

definition pool_runs :: "'a server_scheme \<Rightarrow> bool" where
  "pool_runs s \<longleftrightarrow> \<not> mq_flag s \<and> (\<exists>tp. thread_pool s = Some tp \<and> tp_ok tp \<and> shutdown tp = 0)"

definition history_ok :: "srv_sys \<Rightarrow> bool" where
  "history_ok s \<longleftrightarrow>
     rcvd s = map fst (handed s) @ map (obds s) (mq_elems (obd_mq s))
   \<and> map fst (filter snd (handed s)) = begun s @ map (obds s) (queued s)"

section \<open>Messages\<close>

lemma list_init_other:
  assumes "mq_ok q" "a \<notin> set (mq_list q # mq_elems q)"
  shows "mq_ok (list_init a q)" "mq_elems (list_init a q) = mq_elems q" "mq_list (list_init a q) = mq_list q"
proof -
  have r: "ring q (rev (mq_elems q))" "mq_mutex q = Unlocked" using assms(1) by (simp_all add: mq_ok_def)
  have "ring (list_init a q) (rev (mq_elems q))" using r(1) assms(2) by (simp add: ring_def mq_prims)
  moreover have "unat (size_of (list_init a q)) = length (rev (mq_elems q))" by (simp add: mq_prims length_mq_elems)
  ultimately have "mq_ok (list_init a q) \<and> mq_elems (list_init a q) = rev (rev (mq_elems q))"
    using r(2) by (intro mq_okI) (simp_all add: mq_prims)
  then show "mq_ok (list_init a q)" "mq_elems (list_init a q) = mq_elems q" by simp_all
  show "mq_list (list_init a q) = mq_list q" by (simp add: mq_prims)
qed

lemma net_ok_msgs [simp]:
  "net_ok S L (s\<lparr>obd_mq := q\<rparr>) = net_ok S L s" "net_ok S L (s\<lparr>obds := ob\<rparr>) = net_ok S L s"
  "net_ok S L (s\<lparr>sent := x\<rparr>) = net_ok S L s" "net_ok S L (s\<lparr>printed := y\<rparr>) = net_ok S L s"
  "net_ok S L (s\<lparr>thread_pool := tp\<rparr>) = net_ok S L s"
  "conns (s\<lparr>obd_mq := q\<rparr>) = conns s" "conns (s\<lparr>obds := ob\<rparr>) = conns s" "conns (s\<lparr>sent := x\<rparr>) = conns s"
  "conns (s\<lparr>printed := y\<rparr>) = conns s" "conns (s\<lparr>thread_pool := tp\<rparr>) = conns s"
  by (auto simp: net_ok_def conns_def fd_ok_def fd_lists_def changes_ok_def synced_def pend_ok_def sys_ok_def sig_ok_def)

lemma obd_init_spec:
  assumes "obd_pool s = Some q" "pools_ok S p q hp hq (sheap s)" "fresh_malloc mal"
  shows "OBD_init mal s = Fault \<and> (\<exists>h. Malloc mal (Some q) (sheap s) = Done (None, h)) \<or>
    (\<exists>a h. OBD_init mal s = Done (a, s\<lparr>sheap := h, obd_mq := list_init a (obd_mq s),
        obds := (obds s)(a := (obds s a)\<lparr>data_length := 0, data := replicate BUF_SIZE 0, hex := replicate BUF_SIZE 0\<rparr>)\<rparr>)
      \<and> a \<notin> hp \<union> hq \<union> S \<and> pools_ok S p q hp (insert a hq) h)"
proof -
  from pools_malloc [OF pools_swap [OF assms(2)] assms(3)] show ?thesis
  proof (elim disjE exE conjE)
    assume "Malloc mal (Some q) (sheap s) = Done (None, sheap s)"
    then show ?thesis by (simp add: OBD_init_def assms(1))
  next
    fix a h' assume m: "Malloc mal (Some q) (sheap s) = Done (Some a, h')" "a \<notin> hq \<union> hp \<union> S"
      "pools_ok S q p (insert a hq) hp h'"
    have "pools_ok S p q hp (insert a hq) h'" by (rule pools_swap [OF m(3)])
    moreover have "a \<notin> hp \<union> hq \<union> S" using m(2) by blast
    moreover have "OBD_init mal s = Done (a, s\<lparr>sheap := h', obd_mq := list_init a (obd_mq s),
        obds := (obds s)(a := (obds s a)\<lparr>data_length := 0, data := replicate BUF_SIZE 0, hex := replicate BUF_SIZE 0\<rparr>)\<rparr>)"
      by (simp add: OBD_init_def assms(1) m(1))
    ultimately show ?thesis by blast
  qed
qed

lemma obd_release_spec:
  assumes "obd_pool s = Some q" "pools_ok S p q hp hq (sheap s)" "a \<in> hq"
  shows "\<exists>h. OBD_release (Some a) s = Done (s\<lparr>obd_mq := list_init a (obd_mq s),
      obds := (obds s)(a := (obds s a)\<lparr>data := replicate BUF_SIZE 0\<rparr>), sheap := h\<rparr>) \<and> pools_ok S p q hp (hq - {a}) h"
proof -
  from pools_free [OF pools_swap [OF assms(2)] assms(3)] obtain h where
    h: "Free (Some q) (Some a) (sheap s) = Done h" "pools_ok S q p (hq - {a}) hp h" by blast
  have "pools_ok S p q hp (hq - {a}) h" by (rule pools_swap [OF h(2)])
  then show ?thesis by (intro exI [of _ h]) (simp add: OBD_release_def assms(1) Let_def h(1))
qed

text \<open>The queue and the memory of the messages while a callback works: \<open>R\<close> are the messages in other hands.\<close>

definition msg_ok :: "addr set \<Rightarrow> addr set \<Rightarrow> 'a server_scheme \<Rightarrow> bool" where
  "msg_ok S R s \<longleftrightarrow> mq_ok (obd_mq s) \<and> mq_list (obd_mq s) \<in> S \<and> distinct (mq_elems (obd_mq s))
     \<and> set (mq_elems (obd_mq s)) \<inter> R = {} \<and> (\<forall>a. obd_wf (obds s a))
     \<and> (\<exists>p q. ev_pool s = Some p \<and> obd_pool s = Some q
          \<and> pools_ok S p q (conns s) (set (mq_elems (obd_mq s)) \<union> R) (sheap s))"

text \<open>What a callback may do to the messages: add one behind the others.\<close>

definition msg_step :: "addr set \<Rightarrow> addr list \<Rightarrow> 'a server_scheme \<Rightarrow> 'a server_scheme \<Rightarrow> bool" where
  "msg_step R new s s' \<longleftrightarrow> mq_elems (obd_mq s') = mq_elems (obd_mq s) @ new
     \<and> (\<forall>b \<in> set (mq_elems (obd_mq s)) \<union> R. obds s' b = obds s b)
     \<and> thread_pool s' = thread_pool s \<and> mq_flag s' = mq_flag s \<and> server.more s' = server.more s"

lemma msg_ok_apart:
  assumes "msg_ok S R s" "ev_pool s = Some p" "obd_pool s = Some q"
  shows "pools_ok S p q (conns s) (set (mq_elems (obd_mq s)) \<union> R) (sheap s)"
  using assms by (auto simp: msg_ok_def)

lemma release_fresh:
  fixes s :: "'a server_scheme"
  assumes "msg_ok S R s0" "obd_pool s0 = Some q" "ev_pool s0 = Some p" and a: "a \<notin> set (mq_elems (obd_mq s0)) \<union> R \<union> S"
    and s: "pools_ok S p q (conns s0) (insert a (set (mq_elems (obd_mq s0)) \<union> R)) h"
    and wf: "obd_wf ob"
  shows "\<exists>s'. OBD_release (Some a) (s0\<lparr>sheap := h, obd_mq := list_init a (obd_mq s0), obds := (obds s0)(a := ob)\<rparr>) = Done s'
    \<and> msg_ok S R s' \<and> msg_step R [] s0 s' \<and> conns s' = conns s0 \<and> (\<forall>L. net_ok S L s' = net_ok S L s0)
    \<and> ev_pool s' = ev_pool s0 \<and> wt s' = wt s0 \<and> libev_list s' = libev_list s0 \<and> closed s' = closed s0"
proof -
  let ?s = "s0\<lparr>sheap := h, obd_mq := list_init a (obd_mq s0), obds := (obds s0)(a := ob)\<rparr>"
  have pq: "obd_pool ?s = Some q" "pools_ok S p q (conns s0) (insert a (set (mq_elems (obd_mq s0)) \<union> R)) (sheap ?s)"
    using assms(2) s by simp_all
  from obd_release_spec [OF pq, of a] obtain h' where h': "OBD_release (Some a) ?s = Done (?s\<lparr>obd_mq := list_init a (obd_mq ?s),
      obds := (obds ?s)(a := (obds ?s a)\<lparr>data := replicate BUF_SIZE 0\<rparr>), sheap := h'\<rparr>)"
    "pools_ok S p q (conns s0) (insert a (set (mq_elems (obd_mq s0)) \<union> R) - {a}) h'" by blast
  let ?s' = "?s\<lparr>obd_mq := list_init a (obd_mq ?s), obds := (obds ?s)(a := (obds ?s a)\<lparr>data := replicate BUF_SIZE 0\<rparr>), sheap := h'\<rparr>"
  have mq: "mq_ok (obd_mq s0)" "mq_list (obd_mq s0) \<in> S" using assms(1) by (simp_all add: msg_ok_def)
  have out: "a \<notin> set (mq_list (obd_mq s0) # mq_elems (obd_mq s0))" using a mq(2) by auto
  note i1 = list_init_other [OF mq(1) out]
  note i2 = list_init_other [OF i1(1), of a, unfolded i1(2,3), OF out]
  have eq: "insert a (set (mq_elems (obd_mq s0)) \<union> R) - {a} = set (mq_elems (obd_mq s0)) \<union> R" using a by auto
  have "obd_wf (ob\<lparr>data := replicate BUF_SIZE 0\<rparr>)" using wf by (simp add: obd_wf_def)
  then have "msg_ok S R ?s'"
    using assms(1,2,3) i2 h'(2) unfolding eq by (auto simp: msg_ok_def)
  moreover have "msg_step R [] s0 ?s'" using a i2 by (auto simp: msg_step_def)
  ultimately show ?thesis using h'(1) by (intro exI [of _ ?s']) simp
qed

text \<open>What \<open>recv\<close> delivers: the text up to the first zero byte, its length in eight bits.  A length of 0
there is a message that is thrown away.\<close>

definition arrived :: "u8_t list \<Rightarrow> OBD_t list" where
  "arrived bs =
     (let n = length (takeWhile (\<lambda>c. c \<noteq> 0) bs); d = bs @ replicate (BUF_SIZE - length bs) 0 in
      if (of_nat n :: u8_t) = 0 then []
      else [\<lparr>data = d, data_length = of_nat n, hex = replicate BUF_SIZE 0, obd_id = str2hex (d ! 2) (d ! 3)\<rparr>])"

definition delivered :: "evmask \<Rightarrow> recv_result \<Rightarrow> OBD_t list" where
  "delivered ev rcv = (case rcv of RecvError \<Rightarrow> [] | Received bs \<Rightarrow> if EV_ERROR AND ev \<noteq> 0 then [] else arrived bs)"

lemma arrived_text:
  assumes "0 \<notin> set bs" "bs \<noteq> []" "length bs < 256"
  shows "arrived bs = [(received bs)\<lparr>obd_id := str2hex (data (received bs) ! 2) (data (received bs) ! 3)\<rparr>]"
proof -
  have "takeWhile (\<lambda>c. c \<noteq> 0) bs = bs" using assms(1) by (auto simp: takeWhile_eq_all_conv)
  then have "length (takeWhile (\<lambda>c. c \<noteq> 0) bs) = length bs" by (rule arg_cong)
  moreover have "(of_nat (length bs) :: u8_t) \<noteq> 0"
    using assms(2,3) by (simp add: of_nat_eq_0_iff flip: unat_eq_zero) (simp add: unat_of_nat)
  ultimately show ?thesis by (simp add: arrived_def received_def Let_def)
qed

lemma strlen_arrived:
  fixes bs :: "u8_t list"
  assumes "length bs < BUF_SIZE \<or> x = 0" "length bs \<le> BUF_SIZE"
  shows "strlen (bs @ replicate (BUF_SIZE - length bs) 0 @ x # rest) = Some (length (takeWhile (\<lambda>c. c \<noteq> 0) bs))"
proof -
  obtain rest' where r: "replicate (BUF_SIZE - length bs) 0 @ x # rest = 0 # rest'"
    using assms by (cases "BUF_SIZE - length bs") auto
  have "strlen (bs @ 0 # rest') = Some (length (takeWhile (\<lambda>c. c \<noteq> 0) bs))" by (induction bs) auto
  then show ?thesis by (simp add: r)
qed

text \<open>\<open>recv\<close> writes \<open>bs\<close> at the start of the cleared buffer; the zero behind it may hit the length.\<close>

lemma received_fields:
  assumes "length bs \<le> BUF_SIZE" "bs \<noteq> []"
    and ob: "ob = old\<lparr>data_length := 0, data := replicate BUF_SIZE 0, hex := replicate BUF_SIZE 0\<rparr>"
  defines "ob' \<equiv> ob\<lparr>data := bs @ replicate (BUF_SIZE - length bs) 0\<rparr>"
  shows "data_put (length bs) 0 (ob\<lparr>data := bs @ drop (length bs) (data ob)\<rparr>) = Done ob'"
    "strlen (obd_bytes ob') = Some (length (takeWhile (\<lambda>c. c \<noteq> 0) bs))"
    "OBD_get_cmd (ob'\<lparr>data_length := l\<rparr>) = Done (str2hex (data ob' ! 2) (data ob' ! 3))" "obd_wf ob'"
proof -
  show wf: "obd_wf ob'" using assms(1) by (simp add: ob'_def ob obd_wf_def)
  have "(replicate (BUF_SIZE - length bs) 0)[0 := 0] = replicate (BUF_SIZE - length bs) (0 :: u8_t)"
    by (cases "BUF_SIZE - length bs") simp_all
  then show "data_put (length bs) 0 (ob\<lparr>data := bs @ drop (length bs) (data ob)\<rparr>) = Done ob'"
    using assms(1) by (simp add: data_put_def ob'_def ob list_update_append)
  show "strlen (obd_bytes ob') = Some (length (takeWhile (\<lambda>c. c \<noteq> 0) bs))"
    using strlen_arrived [of bs 0] assms(1) by (simp add: obd_bytes_def ob'_def ob)
  have "obd_wf (ob'\<lparr>data_length := l\<rparr>)" using wf by (simp add: obd_wf_def)
  from hex_pair_data [OF this, of 2 3] show "OBD_get_cmd (ob'\<lparr>data_length := l\<rparr>) = Done (str2hex (data ob' ! 2) (data ob' ! 3))"
    by (simp add: OBD_get_cmd_def)
qed

lemma msg_ok_old:
  "msg_ok S R s \<Longrightarrow> a \<in> set (mq_elems (obd_mq s)) \<union> R \<Longrightarrow> \<exists>q. obd_pool s = Some q"
  by (auto simp: msg_ok_def)

lemma put_fresh:
  fixes s :: "'a server_scheme"
  assumes m: "msg_ok S R s" "obd_pool s = Some q" "ev_pool s = Some p" and a: "a \<notin> set (mq_elems (obd_mq s)) \<union> R \<union> S"
    and h: "pools_ok S p q (conns s) (insert a (set (mq_elems (obd_mq s)) \<union> R)) h"
    and wf: "obd_wf ob" and len: "length (mq_elems (obd_mq s)) < 2 ^ 32 - 1"
  shows "\<exists>q'. mq_put a (list_init a (list_init a (obd_mq s))) = Done q'
    \<and> msg_ok S R (s\<lparr>sheap := h, obds := (obds s)(a := ob), sent := x, obd_mq := q'\<rparr>)
    \<and> msg_step R [a] s (s\<lparr>sheap := h, obds := (obds s)(a := ob), sent := x, obd_mq := q'\<rparr>)"
proof -
  have mq: "mq_ok (obd_mq s)" "mq_list (obd_mq s) \<in> S" using m(1) by (simp_all add: msg_ok_def)
  have out: "a \<notin> set (mq_list (obd_mq s) # mq_elems (obd_mq s))" using a mq(2) by auto
  note i1 = list_init_other [OF mq(1) out]
  note i2 = list_init_other [OF i1(1), of a, unfolded i1(2,3), OF out]
  let ?q = "list_init a (list_init a (obd_mq s))"
  have "mq_fits a ?q" unfolding mq_fits_def i2(2,3) using out len by simp
  from mq_put_spec [OF i2(1) this] obtain q' where q': "mq_put a ?q = Done q'" "mq_ok q'"
    "mq_elems q' = mq_elems (obd_mq s) @ [a]" "mq_list q' = mq_list (obd_mq s)" unfolding i2(2,3) by blast
  have e: "set (mq_elems (obd_mq s) @ [a]) \<union> R = insert a (set (mq_elems (obd_mq s)) \<union> R)" by auto
  let ?s' = "s\<lparr>sheap := h, obds := (obds s)(a := ob), sent := x, obd_mq := q'\<rparr>"
  have c: "conns ?s' = conns s" by (simp add: conns_def)
  have d: "set (mq_elems (obd_mq s) @ [a]) \<inter> R = {}" using m(1) a by (auto simp: msg_ok_def)
  have "msg_ok S R ?s'" unfolding msg_ok_def c using m q' h wf a d
    by (auto simp: msg_ok_def e simp del: set_append)
  moreover have "msg_step R [a] s ?s'" using a q'(3) by (auto simp: msg_step_def)
  ultimately show ?thesis using q'(1) by blast
qed

text \<open>The handler of a connection: it fails only without memory; a message it keeps is behind the others.\<close>

definition cb_step :: "addr set \<Rightarrow> addr set \<Rightarrow> OBD_t list \<Rightarrow> 'a server_scheme \<Rightarrow> 'a server_scheme \<Rightarrow> bool" where
  "cb_step S R obs s s' \<longleftrightarrow> (\<exists>L'. net_ok S L' s') \<and> msg_ok S R s'
     \<and> (\<exists>new. msg_step R new s s' \<and> map (obds s') new = obs)"

lemma read_spec:
  fixes s :: "'a server_scheme"
  assumes n: "net_ok S L s" and m: "msg_ok S R s" and mal: "fresh_malloc mal" and w: "w \<in> conns s" and rcv: "recv_ok rcv"
    and len: "length (mq_elems (obd_mq s)) < 2 ^ 32 - 1"
  shows "read_func_cb mal rcv w ev s = Fault \<and> (\<exists>h. Malloc mal (obd_pool s) (sheap s) = Done (None, h))
    \<or> (\<exists>s'. read_func_cb mal rcv w ev s = Done s' \<and> cb_step S R (delivered ev rcv) s s'
         \<and> (EV_ERROR AND ev = 0 \<and> rcv = Received [] \<longrightarrow> w \<notin> conns s' \<and> io_fd (wt s w) \<in> set (closed s')))"
proof -
  from m obtain p q where pq: "ev_pool s = Some p" "obd_pool s = Some q"
    "pools_ok S p q (conns s) (set (mq_elems (obd_mq s)) \<union> R) (sheap s)" by (auto simp: msg_ok_def)
  from obd_init_spec [OF pq(2,3) mal] show ?thesis
  proof (elim disjE exE conjE)
    assume "OBD_init mal s = Fault"
    moreover fix h assume "Malloc mal (Some q) (sheap s) = Done (None, h)"
    ultimately show ?thesis by (simp add: read_func_cb_def pq(2))
  next
    fix a h
    let ?ob = "(obds s a)\<lparr>data_length := 0, data := replicate BUF_SIZE 0, hex := replicate BUF_SIZE 0\<rparr>"
    let ?s = "s\<lparr>sheap := h, obd_mq := list_init a (obd_mq s), obds := (obds s)(a := ?ob)\<rparr>"
    assume i: "OBD_init mal s = Done (a, ?s)" and a: "a \<notin> conns s \<union> (set (mq_elems (obd_mq s)) \<union> R) \<union> S"
      and h: "pools_ok S p q (conns s) (insert a (set (mq_elems (obd_mq s)) \<union> R)) h"
    have a': "a \<notin> set (mq_elems (obd_mq s)) \<union> R \<union> S" using a by blast
    have drop: "\<exists>s'. OBD_release (Some a) (s\<lparr>sheap := h, obd_mq := list_init a (obd_mq s), obds := (obds s)(a := ob)\<rparr>) = Done s'
        \<and> cb_step S R [] s s' \<and> net_ok S L s' \<and> msg_step R [] s s' \<and> conns s' = conns s \<and> wt s' = wt s
        \<and> libev_list s' = libev_list s \<and> closed s' = closed s \<and> ev_pool s' = Some p" if "obd_wf ob" for ob
      using release_fresh [OF m pq(2,1) a' h that] n unfolding cb_step_def by (auto simp: pq(1))
    have wf: "obd_wf ?ob" by (simp add: obd_wf_def)
    consider "EV_ERROR AND ev \<noteq> 0 \<or> rcv = RecvError" | "EV_ERROR AND ev = 0" "rcv = Received []"
      | bs where "EV_ERROR AND ev = 0" "rcv = Received bs" "bs \<noteq> []" by (cases rcv) auto
    then show ?thesis
    proof cases
      case 1
      then have d: "delivered ev rcv = []" by (auto simp: delivered_def split: recv_result.splits)
      have "read_func_cb mal rcv w ev s = OBD_release (Some a) ?s" using 1 by (auto simp: read_func_cb_def i)
      then show ?thesis using drop [OF wf] 1 d by auto
    next
      case 2
      from drop [OF wf] obtain s' where s': "OBD_release (Some a) ?s = Done s'" "net_ok S L s'" "msg_ok S R s'"
        "msg_step R [] s s'" "conns s' = conns s" "wt s' = wt s" "libev_list s' = libev_list s" "ev_pool s' = Some p"
        unfolding cb_step_def by blast
      from conns_at [OF n w] obtain fd where fd: "fd < max_fd" "libev_list s ! fd = Some w" "w \<in> set (L fd)" by blast
      have "fd_lists L s" using n by (simp add: net_ok_def fd_ok_def)
      from fd_listsD(1) [OF this fd(3)] have io: "io_fd (wt s w) = int fd" .
      have mf: "int fd < SOCKET_ALLOC_MAX_CLIENT" using fd(1) by (simp flip: max_fd(1))
      from s'(3,8) obtain q' where po: "pools_ok S p q' (conns s') (set (mq_elems (obd_mq s')) \<union> R) (sheap s')" "obd_pool s' = Some q'"
        by (auto simp: msg_ok_def)
      from free_libev_spec [OF s'(2,8) po(1), of "int fd"] mf fd(2) s'(7) obtain s'' where s'': "free_libev (int fd) s' = Done s''"
        "conn_step S p q' (set (mq_elems (obd_mq s')) \<union> R) s' s''" "conns s'' = conns s' - {w}" "closed s'' = closed s' @ [int fd]"
        by auto
      have r: "read_func_cb mal rcv w ev s = Done s''" using 2 by (simp add: read_func_cb_def i s'(1,6) io s''(1))
      have cs: "\<exists>L'. net_ok S L' s''" "pools_ok S p q' (conns s'') (set (mq_elems (obd_mq s')) \<union> R) (sheap s'')" "same_rest s' s''"
        using s''(2) by (simp_all add: conn_step_def)
      have "msg_ok S R s''" using s'(3,8) cs(2,3) po(2) by (auto simp: msg_ok_def same_rest_def)
      moreover have "msg_step R [] s s''" using s'(4) cs(3) by (auto simp: msg_step_def same_rest_def)
      moreover have "delivered ev rcv = []" using 2 by (simp add: delivered_def arrived_def)
      ultimately have "cb_step S R (delivered ev rcv) s s''" using cs(1) s''(3) s'(5) by (auto simp: cb_step_def)
      then show ?thesis using r s''(3,4) io by auto
    next
      case 3
      then have bl: "length bs \<le> BUF_SIZE" using rcv by (simp add: recv_ok_def)
      define ob' where "ob' = ?ob\<lparr>data := bs @ replicate (BUF_SIZE - length bs) 0\<rparr>"
      note rf = received_fields [where old = "obds s a", OF bl 3(3) refl, folded ob'_def]
      let ?n = "of_nat (length (takeWhile (\<lambda>c. c \<noteq> 0) bs)) :: u8_t"
      have dl: "delivered ev rcv = arrived bs" using 3 by (simp add: delivered_def)
      have obs: "obds ?s a = ?ob" by simp
      show ?thesis
      proof (cases "?n = 0")
        case True
        have "read_func_cb mal rcv w ev s = OBD_release (Some a) (?s\<lparr>obds := (obds ?s)(a := ob'\<lparr>data_length := ?n\<rparr>)\<rparr>)"
          using 3 rf(1,2) True by (cases bs) (simp_all add: read_func_cb_def i Let_def)
        moreover have "arrived bs = []" using True by (simp add: arrived_def)
        moreover have "obd_wf (ob'\<lparr>data_length := ?n\<rparr>)" using rf(4) by (simp add: obd_wf_def)
        ultimately show ?thesis using drop 3 dl by auto
      next
        case False
        let ?o = "ob'\<lparr>data_length := ?n, obd_id := str2hex (data ob' ! 2) (data ob' ! 3)\<rparr>"
        let ?x = "sent s @ [(io_fd (wt s w), ''OK'')]"
        have wf': "obd_wf ?o" using rf(4) by (simp add: obd_wf_def)
        from put_fresh [OF m pq(2,1) a' h wf' len, of ?x] obtain q' where q': "mq_put a (list_init a (list_init a (obd_mq s))) = Done q'"
          "msg_ok S R (s\<lparr>sheap := h, obds := (obds s)(a := ?o), sent := ?x, obd_mq := q'\<rparr>)"
          "msg_step R [a] s (s\<lparr>sheap := h, obds := (obds s)(a := ?o), sent := ?x, obd_mq := q'\<rparr>)" by blast
        let ?s' = "s\<lparr>sheap := h, obds := (obds s)(a := ?o), sent := ?x, obd_mq := q'\<rparr>"
        have r: "read_func_cb mal rcv w ev s = Done ?s'"
          using 3 rf(1-3) False q'(1) by (cases bs) (simp_all add: read_func_cb_def i Let_def)
        have "?o = \<lparr>data = bs @ replicate (BUF_SIZE - length bs) 0, data_length = ?n, hex = replicate BUF_SIZE 0,
            obd_id = str2hex ((bs @ replicate (BUF_SIZE - length bs) 0) ! 2) ((bs @ replicate (BUF_SIZE - length bs) 0) ! 3)\<rparr>"
          by (simp add: ob'_def)
        then have "map (obds ?s') [a] = arrived bs" using False by (simp add: arrived_def Let_def)
        moreover have "net_ok S L ?s'" "conns ?s' = conns s" using n by simp_all
        ultimately have "cb_step S R (delivered ev rcv) s ?s'" using q'(2,3) dl unfolding cb_step_def by fastforce
        then show ?thesis using r 3 by auto
      qed
    qed
  qed
qed

section \<open>The invariant is kept\<close>

definition srv_inv :: "addr set \<Rightarrow> srv_sys \<Rightarrow> bool" where
  "srv_inv S s \<longleftrightarrow> (\<exists>L. net_ok S L s) \<and> msg_ok S (set (others s)) s \<and> distinct (others s) \<and> pool_runs s \<and> history_ok s"

lemma more_srv:
  assumes "server.more s' = server.more (s :: srv_sys)"
  shows "working s' = working s" "leaked s' = leaked s" "rcvd s' = rcvd s" "handed s' = handed s" "begun s' = begun s"
  using assms by (cases s; cases s'; simp)+

lemma without_event_rest:
  fixes s :: "'a server_scheme"
  shows "ev_fds.more (without_event p w s) = ev_fds.more s" "conns (without_event p w s) = conns s"
    "msg_ok S R (without_event p w s) = msg_ok S R s"
  by (simp_all add: without_event_def conns_def msg_ok_def)

text \<open>What a step may do that only touches the loop, the connections and the end of the queue.\<close>

lemma cb_step_inv:
  assumes i: "srv_inv S s" and c: "cb_step S (set (others s)) obs s s'"
  shows "srv_inv S (log_received (length (mq_elems (obd_mq s))) s')"
    "rcvd (log_received (length (mq_elems (obd_mq s))) s') = rcvd s @ obs"
proof -
  let ?s' = "log_received (length (mq_elems (obd_mq s))) s'"
  from c obtain L' new where x: "net_ok S L' s'" "msg_ok S (set (others s)) s'" "msg_step (set (others s)) new s s'"
    "map (obds s') new = obs" unfolding cb_step_def by blast
  have st: "mq_elems (obd_mq s') = mq_elems (obd_mq s) @ new" "\<forall>b \<in> set (mq_elems (obd_mq s)) \<union> set (others s). obds s' b = obds s b"
    "thread_pool s' = thread_pool s" "mq_flag s' = mq_flag s" "server.more s' = server.more s" using x(3) by (simp_all add: msg_step_def)
  note mo = more_srv [OF st(5)]
  have ot: "others ?s' = others s" "queued ?s' = queued s" by (simp_all add: others_def queued_def log_received_def mo st(3))
  show r: "rcvd ?s' = rcvd s @ obs" by (simp add: log_received_def mo st(1) x(4))
  have "map (obds s') (mq_elems (obd_mq s)) = map (obds s) (mq_elems (obd_mq s))"
    "map (obds s') (queued s) = map (obds s) (queued s)" using st(2) by (auto simp: others_def)
  then have "history_ok ?s'" using i r unfolding srv_inv_def history_ok_def ot(2)
    by (simp add: log_received_def mo st(1) x(4))
  moreover have "net_ok S L' ?s'" using x(1)
    by (auto simp: log_received_def net_ok_def conns_def fd_ok_def fd_lists_def changes_ok_def synced_def pend_ok_def sys_ok_def sig_ok_def)
  moreover have "msg_ok S (set (others s)) ?s'" using x(2) by (simp add: msg_ok_def log_received_def conns_def)
  moreover have "pool_runs ?s'" using i st(3,4) by (simp add: srv_inv_def pool_runs_def log_received_def)
  ultimately show "srv_inv S ?s'" using i unfolding srv_inv_def ot(1) by blast
qed

lemma conn_cb_step:
  assumes m: "msg_ok S R s" "obd_pool s = Some q" and c: "conn_step S p q (set (mq_elems (obd_mq s)) \<union> R) s s'" "ev_pool s = Some p"
  shows "cb_step S R [] s s'"
proof -
  have "msg_ok S R s'" using m c by (auto simp: msg_ok_def conn_step_def same_rest_def)
  moreover have "msg_step R [] s s'" using c(1) by (auto simp: msg_step_def conn_step_def same_rest_def)
  moreover have "\<exists>L'. net_ok S L' s'" using c(1) by (simp add: conn_step_def)
  ultimately show ?thesis unfolding cb_step_def by auto
qed

text \<open>A callback, whichever it is: what it keeps, and what can stop the program.\<close>

lemma quiet_cb_step:
  fixes s :: "'a server_scheme"
  assumes "msg_ok S R s" "net_ok S L s'" "ev_pipe.more s' = ev_pipe.more s"
  shows "cb_step S R [] s s'"
proof -
  note sv = more_pipe [OF assms(3)]
  have "conns s' = conns s" by (simp add: conns_def sv)
  then have "msg_ok S R s'" using assms(1) by (simp add: msg_ok_def sv)
  then show ?thesis using assms(2) by (auto simp: cb_step_def msg_step_def sv)
qed

lemma call_back_spec:
  fixes s :: "'a server_scheme"
  assumes n: "net_ok S L s" and m: "msg_ok S R s" and mal: "fresh_malloc mal" and rcv: "recv_ok (wd_recv wd)"
    and w: "w = pending_w \<or> ((\<exists>fd. w \<in> set (L fd)) \<or> w \<in> S) \<and> ABSPRI (wt s w) < NUMPRI"
    and len: "length (mq_elems (obd_mq s)) < 2 ^ 32 - 1"
  shows "call_back mal wd w ev s = Fault
      \<and> (wd_accept wd = SOCKET_ALLOC_MAX_CLIENT \<or> (\<exists>h pool. Malloc mal pool (sheap s) = Done (None, h)))
    \<or> (\<exists>s'. call_back mal wd w ev s = Done s' \<and> cb_step S R (if w \<in> conns s then delivered ev (wd_recv wd) else []) s s'
        \<and> (w \<in> conns s \<and> EV_ERROR AND ev = 0 \<and> wd_recv wd = Received [] \<longrightarrow> w \<notin> conns s' \<and> io_fd (wt s w) \<in> set (closed s')))"
proof -
  have read_cb: "cb (wt s v) = READ_CB \<and> v \<noteq> pending_w" if "v \<in> conns s" for v
  proof -
    from conns_at [OF n that] obtain fd where fd: "fd < max_fd" "libev_list s ! fd = Some v" "v \<in> set (L fd)" by blast
    have "fd_lists L s" using n by (simp add: net_ok_def fd_ok_def)
    from fd_listsD(3) [OF this fd(3)] show ?thesis using n fd by (simp add: net_ok_def)
  qed
  have static: "cb (wt s v) \<noteq> READ_CB" if "v \<in> S" for v using n that by (simp add: net_ok_def)
  have codes: "READ_CB \<noteq> ACCEPT_CB" by (simp add: READ_CB_def ACCEPT_CB_def)
  have quiet: "\<exists>s'. call_back mal wd w ev s = Done s' \<and> cb_step S R [] s s'"
    if "call_back mal wd w ev s = Done s'" "net_ok S L s'" "ev_pipe.more s' = ev_pipe.more s" for s'
    using that quiet_cb_step [OF m that(2,3)] by blast
  consider "w = pending_w" | "w \<in> conns s" | "w \<in> S" "w \<noteq> pending_w" "w \<notin> conns s" using w n by (auto simp: net_ok_def)
  then show ?thesis
  proof cases
    case 1
    then show ?thesis using quiet [of s] n read_cb by (auto simp: call_back_def)
  next
    case 2
    then have e: "call_back mal wd w ev s = read_func_cb mal (wd_recv wd) w ev s"
      using read_cb codes by (simp add: call_back_def)
    show ?thesis unfolding e using read_spec [OF n m mal 2 rcv len, of ev] 2 by auto
  next
    case 3
    have pri: "ABSPRI (wt s w) < NUMPRI" using w 3 by blast
    have nr: "cb (wt s w) \<noteq> READ_CB" using static 3 by blast
    consider "cb (wt s w) = ACCEPT_CB" | "cb (wt s w) \<noteq> ACCEPT_CB" "cb (wt s w) = SIGNAL_CB"
      | "cb (wt s w) \<noteq> ACCEPT_CB" "cb (wt s w) \<noteq> SIGNAL_CB" "cb (wt s w) = PIPECB"
      | "cb (wt s w) \<noteq> ACCEPT_CB" "cb (wt s w) \<noteq> SIGNAL_CB" "cb (wt s w) \<noteq> PIPECB" "cb (wt s w) = CHILDCB"
      | "cb (wt s w) \<noteq> ACCEPT_CB" "cb (wt s w) \<noteq> SIGNAL_CB" "cb (wt s w) \<noteq> PIPECB" "cb (wt s w) \<noteq> CHILDCB" by blast
    then show ?thesis
    proof cases
      case 1
      then have e: "call_back mal wd w ev s = accept_func_cb mal (wd_accept wd) w ev s" using 3 by (simp add: call_back_def)
      from m obtain p q where pq: "ev_pool s = Some p" "obd_pool s = Some q"
        "pools_ok S p q (conns s) (set (mq_elems (obd_mq s)) \<union> R) (sheap s)" by (auto simp: msg_ok_def)
      show ?thesis unfolding e using accept_spec [OF n pq(1,3) mal, of "wd_accept wd" w ev] conn_cb_step [OF m pq(2) _ pq(1)] 3 by auto
    next
      case 2
      let ?s = "s\<lparr>loop_done := EVBREAK_ALL\<rparr>"
      have e: "call_back mal wd w ev s = Done ?s"
        using 2 3 nr by (simp add: call_back_def ev_signal_cb_def ev_break_def)
      have c: "conns ?s = conns s" by (simp add: conns_def)
      have "msg_ok S R ?s" using m unfolding msg_ok_def c by simp
      moreover have "net_ok S L ?s" using n by simp
      ultimately have "cb_step S R [] s ?s" unfolding cb_step_def msg_step_def by fastforce
      then show ?thesis using e 3 by auto
    next
      case a: 3
      from pipecb_net [OF n, of ev] obtain s' where s': "pipecb ev s = Some s'" "net_ok S L s'" "ev_pipe.more s' = ev_pipe.more s" by blast
      have "call_back mal wd w ev s = Done s'" using a 3 nr s'(1) by (simp add: call_back_def)
      from quiet [OF this s'(2,3)] show ?thesis using 3 by auto
    next
      case 4
      from childcb_net [OF n 3(1,2) pri] obtain s' where s': "childcb (wd_traced wd) (wd_wait wd) w s = Some s'" "net_ok S L s'"
        "ev_pipe.more s' = ev_pipe.more s" by blast
      have "call_back mal wd w ev s = Done s'" using 4 3 nr s'(1) by (simp add: call_back_def)
      from quiet [OF this s'(2,3)] show ?thesis using 3 by auto
    next
      case 5
      then have "call_back mal wd w ev s = Done s" using 3 nr by (simp add: call_back_def)
      from quiet [OF this n] show ?thesis using 3 by auto
    qed
  qed
qed

text \<open>A step of the loop that leaves the program's own variables alone.\<close>

lemma quiet_inv:
  assumes i: "srv_inv S s" and n: "net_ok S L s'" and m: "ev_pipe.more s' = ev_pipe.more s"
  shows "srv_inv S s'"
proof -
  note sv = more_pipe [OF m] note mo = more_srv [OF sv(13)]
  have "others s' = others s" "conns s' = conns s" "queued s' = queued s" by (simp_all add: others_def queued_def conns_def sv mo)
  then show ?thesis using i n unfolding srv_inv_def msg_ok_def pool_runs_def history_ok_def sv mo by auto
qed

lemma fds_more_pipe:
  "ev_fds.more s' = ev_fds.more (s :: 'a ev_pipe_scheme) \<Longrightarrow> ev_pipe.more s' = ev_pipe.more s"
  by (cases s; cases s'; simp)

lemma add_outcome:
  assumes "tp_ok tp" "shutdown tp = 0"
  shows "threadpool_add rc_ok (Some tp) DECODE_FN a = (if tp_count tp = queue_size tp then (threadpool_queue_full, Some tp)
      else (0, Some (task_put \<lparr>task_function = DECODE_FN, task_argument = a\<rparr> tp)))"
    "threadpool_queue_full \<noteq> 0"
  using assms by (simp_all add: threadpool_add_def rc_ok_def DECODE_FN_def tp_codes)

text \<open>One round of the dispatcher while the server runs: nothing, or the oldest message handed over.\<close>

lemma dispatch_outcome:
  assumes i: "srv_inv S s"
  shows "mq_elems (obd_mq s) = [] \<and> dispatch rc_ok s = Done (False, s)
    \<or> (\<exists>a as q tp. mq_elems (obd_mq s) = a # as \<and> mq_ok q \<and> mq_elems q = as \<and> mq_list q = mq_list (obd_mq s)
        \<and> thread_pool s = Some tp \<and> tp_ok tp \<and> shutdown tp = 0
        \<and> dispatch rc_ok s = Done (False, s\<lparr>obd_mq := q, thread_pool := snd (threadpool_add rc_ok (Some tp) DECODE_FN a)\<rparr>))"
proof -
  have q: "mq_ok (obd_mq s)" and f: "\<not> mq_flag s" using i by (simp_all add: srv_inv_def msg_ok_def pool_runs_def)
  from i obtain tp where tp: "thread_pool s = Some tp" "tp_ok tp" "shutdown tp = 0" by (auto simp: srv_inv_def pool_runs_def)
  show ?thesis
  proof (cases "mq_elems (obd_mq s)")
    case Nil
    then show ?thesis using mq_get_empty [OF q Nil] f by (simp add: dispatch_def Let_def)
  next
    case (Cons a as)
    from mq_get_spec [OF q Cons] obtain q' where q': "mq_get (obd_mq s) = Done (Some a, q')" "mq_ok q'" "mq_elems q' = as"
      "mq_list q' = mq_list (obd_mq s)" by blast
    have "dispatch rc_ok s = Done (False, s\<lparr>obd_mq := q', thread_pool := snd (threadpool_add rc_ok (Some tp) DECODE_FN a)\<rparr>)"
      using f q'(1) tp(1) by (simp add: dispatch_def Let_def)
    then show ?thesis using Cons q' tp by blast
  qed
qed

lemma msg_ok_move:
  fixes s :: "'a server_scheme"
  assumes "msg_ok S R s" "mq_ok q" "mq_list q = mq_list (obd_mq s)" "mq_elems (obd_mq s) = a # mq_elems q"
  shows "msg_ok S (insert a R) (s\<lparr>obd_mq := q, thread_pool := tp\<rparr>)"
proof -
  have e: "set (mq_elems q) \<union> insert a R = set (mq_elems (obd_mq s)) \<union> R" using assms(4) by auto
  have c: "conns (s\<lparr>obd_mq := q, thread_pool := tp\<rparr>) = conns s" by (simp add: conns_def)
  have d: "set (mq_elems q) \<inter> insert a R = {}" "distinct (mq_elems q)" using assms(1,4) by (auto simp: msg_ok_def)
  then show ?thesis using assms(1-3) e unfolding msg_ok_def c by simp
qed

lemma srv_log_simps [simp]:
  fixes s :: srv_sys
  shows "net_ok S L (s\<lparr>handed := x\<rparr>) = net_ok S L s" "net_ok S L (s\<lparr>leaked := y\<rparr>) = net_ok S L s"
    "net_ok S L (s\<lparr>working := y\<rparr>) = net_ok S L s" "net_ok S L (s\<lparr>begun := z\<rparr>) = net_ok S L s"
    "msg_ok S R (s\<lparr>handed := x\<rparr>) = msg_ok S R s" "msg_ok S R (s\<lparr>leaked := y\<rparr>) = msg_ok S R s"
    "msg_ok S R (s\<lparr>working := y\<rparr>) = msg_ok S R s" "msg_ok S R (s\<lparr>begun := z\<rparr>) = msg_ok S R s"
    "msg_ok S R (s\<lparr>thread_pool := tp\<rparr>) = msg_ok S R s"
  by (auto simp: net_ok_def conns_def fd_ok_def fd_lists_def changes_ok_def synced_def pend_ok_def sys_ok_def sig_ok_def msg_ok_def)

lemma dispatch_inv:
  assumes i: "srv_inv S s" and r: "dispatch rc_ok s = Done (False, s')"
  shows "srv_inv S (log_handed s s')"
  using dispatch_outcome [OF i]
proof (elim disjE exE conjE)
  assume "mq_elems (obd_mq s) = []" "dispatch rc_ok s = Done (False, s)"
  then show ?thesis using i r by (simp add: log_handed_def)
next
  fix a as q tp
  let ?add = "threadpool_add rc_ok (Some tp) DECODE_FN a"
  assume e: "mq_elems (obd_mq s) = a # as" and q: "mq_ok q" "mq_elems q = as" "mq_list q = mq_list (obd_mq s)"
    and tp: "thread_pool s = Some tp" "tp_ok tp" "shutdown tp = 0"
    and d: "dispatch rc_ok s = Done (False, s\<lparr>obd_mq := q, thread_pool := snd ?add\<rparr>)"
  let ?t = "\<lparr>task_function = DECODE_FN, task_argument = a\<rparr>" let ?ok = "fst ?add = 0" let ?s = "log_handed s s'"
  have s': "s' = s\<lparr>obd_mq := q, thread_pool := snd ?add\<rparr>" using r d by simp
  have full: "?ok \<longleftrightarrow> tp_count tp \<noteq> queue_size tp" using add_outcome [OF tp(2,3)] by simp
  obtain L where n: "net_ok S L s" using i unfolding srv_inv_def by blast
  have parts: "msg_ok S (set (others s)) s" "distinct (others s)" "history_ok s" "\<not> mq_flag s"
    using i by (simp_all add: srv_inv_def pool_runs_def)
  have log: "?s = s'\<lparr>handed := handed s @ [(obds s a, ?ok)], leaked := (if ?ok then leaked s else a # leaked s)\<rparr>"
    by (simp add: log_handed_def e tp(1) Let_def s')
  have th: "thread_pool ?s = snd ?add" unfolding log by (simp add: s')
  have fl: "working ?s = working s" "leaked ?s = (if ?ok then leaked s else a # leaked s)" "begun ?s = begun s" "rcvd ?s = rcvd s"
    "handed ?s = handed s @ [(obds s a, ?ok)]" "obds ?s = obds s" "mq_elems (obd_mq ?s) = as" "mq_flag ?s = mq_flag s"
    unfolding log by (simp_all add: s' q(2))
  obtain tp' where tp': "thread_pool ?s = Some tp'" "tp_ok tp'" "shutdown tp' = 0" "map task_argument (tp_tasks tp') =
      (if ?ok then queued s @ [a] else queued s)"
  proof (cases ?ok)
    case False
    then show ?thesis using that [of tp] add_outcome(1) [OF tp(2,3), of a] add_outcome(2) [OF tp(2,3)] tp full by (simp add: th queued_def)
  next
    case True
    then have "tp_fits ?t tp" using tp(2) full by (auto simp: tp_fits_def tp_ok_def)
    from task_put_ok [OF tp(2) this] show ?thesis
      using that [of "task_put ?t tp"] add_outcome(1) [OF tp(2,3), of a] add_outcome(2) [OF tp(2,3)] tp full True by (simp add: th queued_def)
  qed
  have qd: "queued ?s = (if ?ok then queued s @ [a] else queued s)" using tp'(1,4) by (simp add: queued_def)
  have ot: "set (others ?s) = insert a (set (others s))" and od: "distinct (others ?s) = distinct (a # others s)"
    by (auto simp: others_def qd fl)
  have m: "msg_ok S (insert a (set (others s))) s'" unfolding s' by (rule msg_ok_move [OF parts(1) q(1,3)]) (simp add: e q(2))
  have "a \<notin> set (others s)" using parts(1) e by (auto simp: msg_ok_def)
  then have "distinct (others ?s)" using parts(2) od by simp
  moreover have "pool_runs ?s" unfolding pool_runs_def using tp' parts(4) by (simp add: fl)
  moreover have "net_ok S L ?s" unfolding log using n by (simp add: s')
  moreover have "msg_ok S (set (others ?s)) ?s" unfolding ot unfolding log using m by simp
  moreover have "history_ok ?s" using parts(3) by (simp add: history_ok_def qd fl e)
  ultimately show ?thesis unfolding srv_inv_def by blast
qed

lemma take_inv:
  assumes i: "srv_inv S s" and t: "thread_pool s = Some tp" "tp_tasks tp \<noteq> []" "task_take tp = (t, tp')"
  shows "srv_inv S (s\<lparr>thread_pool := Some tp', working := task_argument t # working s,
      begun := begun s @ [obds s (task_argument t)]\<rparr>)" (is "srv_inv S ?s")
proof -
  obtain L where n: "net_ok S L s" using i unfolding srv_inv_def by blast
  have parts: "msg_ok S (set (others s)) s" "distinct (others s)" "history_ok s" "\<not> mq_flag s" "tp_ok tp" "shutdown tp = 0"
    using i t(1) by (simp_all add: srv_inv_def pool_runs_def)
  have "shutdown (snd (task_take tp)) = shutdown tp" by simp
  with task_take_ok [OF parts(5) t(2)] t(3) parts(6)
  have tk: "tp_ok tp'" "t = hd (tp_tasks tp)" "tp_tasks tp' = tl (tp_tasks tp)" "shutdown tp' = 0" by simp_all
  have q: "queued s = task_argument t # queued ?s" using t(1,2) tk by (simp add: queued_def flip: list.map(2))
  have ot: "set (others ?s) = set (others s)" "distinct (others ?s) = distinct (others s)" using q by (auto simp: others_def)
  have "history_ok ?s" using parts(3) q by (simp add: history_ok_def)
  moreover have "pool_runs ?s" using parts(4) tk by (simp add: pool_runs_def)
  moreover have "net_ok S L ?s" "msg_ok S (set (others s)) ?s" using n parts(1) by simp_all
  ultimately show ?thesis using parts(2) unfolding srv_inv_def ot by blast
qed

lemma filter_loop_wf: "filter_loop n b i fl j ob = Done ob' \<Longrightarrow> obd_wf ob \<Longrightarrow> obd_wf ob'"
  by (induction n b i fl j ob rule: filter_loop.induct) (auto split: if_splits option.splits)

lemma filter_wf: "OBD_filter_escape_and_transfer_to_hex n ob = Done (r, ob') \<Longrightarrow> obd_wf ob \<Longrightarrow> obd_wf ob'"
  by (auto simp: OBD_filter_escape_and_transfer_to_hex_def run_bind_Done_iff dest: filter_loop_wf
      split: option.splits if_splits)

lemma finish_inv:
  assumes i: "srv_inv S s" and a: "a \<in> set (working s)" and r: "OBD_decode_thread n a s = Done s'"
  shows "srv_inv S (s'\<lparr>working := remove1 a (working s)\<rparr>)"
proof -
  obtain L where n: "net_ok S L s" using i unfolding srv_inv_def by blast
  have parts: "msg_ok S (set (others s)) s" "distinct (others s)" "history_ok s" "pool_runs s"
    using i by (simp_all add: srv_inv_def)
  from parts(1) obtain p q where pq: "ev_pool s = Some p" "obd_pool s = Some q"
    "pools_ok S p q (conns s) (set (mq_elems (obd_mq s)) \<union> set (others s)) (sheap s)" by (auto simp: msg_ok_def)
  from r obtain b ob where f: "OBD_filter_escape_and_transfer_to_hex n (obds s a) = Done (b, ob)"
    by (auto simp: OBD_decode_thread_def run_bind_Done_iff)
  let ?s1 = "s\<lparr>obds := (obds s)(a := ob), printed := printed s @ [hex ob ! 1 # OBD_decode ob]\<rparr>"
  have "obd_wf (obds s a)" using parts(1) by (simp add: msg_ok_def)
  from filter_wf [OF f this] have wf: "obd_wf ob" .
  have r1: "OBD_release (Some a) ?s1 = Done s'" using r by (simp add: OBD_decode_thread_def f)
  have ain: "a \<in> set (others s)" using a by (simp add: others_def)
  then have out: "a \<notin> set (mq_elems (obd_mq s))" using parts(1) by (auto simp: msg_ok_def)
  have "S \<inter> (set (mq_elems (obd_mq s)) \<union> set (others s)) = {}" by (rule pools_disjoint(3) [OF pq(3)])
  then have "a \<notin> S" using ain by blast
  then have out': "a \<notin> set (mq_list (obd_mq s) # mq_elems (obd_mq s))" using out parts(1) by (auto simp: msg_ok_def)
  have mq: "mq_ok (obd_mq s)" using parts(1) by (simp add: msg_ok_def)
  note li = list_init_other [OF mq out']
  have "obd_pool ?s1 = Some q" "pools_ok S p q (conns s) (set (mq_elems (obd_mq s)) \<union> set (others s)) (sheap ?s1)"
    "a \<in> set (mq_elems (obd_mq s)) \<union> set (others s)" using pq(2,3) ain by simp_all
  from obd_release_spec [OF this] obtain h where h: "OBD_release (Some a) ?s1 = Done (?s1\<lparr>obd_mq := list_init a (obd_mq ?s1),
      obds := (obds ?s1)(a := (obds ?s1 a)\<lparr>data := replicate BUF_SIZE 0\<rparr>), sheap := h\<rparr>)"
    "pools_ok S p q (conns s) (set (mq_elems (obd_mq s)) \<union> set (others s) - {a}) h" by blast
  then have s': "s' = ?s1\<lparr>obd_mq := list_init a (obd_mq s),
      obds := (obds s)(a := ob\<lparr>data := replicate BUF_SIZE 0\<rparr>), sheap := h\<rparr>" using r1 by simp
  let ?s = "s'\<lparr>working := remove1 a (working s)\<rparr>"
  have fl: "queued ?s = queued s" "leaked ?s = leaked s" "working ?s = remove1 a (working s)" "rcvd ?s = rcvd s" "handed ?s = handed s"
    "begun ?s = begun s" "obd_mq ?s = list_init a (obd_mq s)" "conns ?s = conns s" "sheap ?s = h" "ev_pool ?s = Some p" "obd_pool ?s = Some q"
    "obds ?s = (obds s)(a := ob\<lparr>data := replicate BUF_SIZE 0\<rparr>)" "pool_runs ?s = pool_runs s"
    by (simp_all add: s' queued_def conns_def pq(1,2) pool_runs_def)
  have d: "distinct (queued s)" "a \<notin> set (queued s)" "a \<notin> set (leaked s)" "distinct (working s)"
    using parts(2) a by (auto simp: others_def)
  have ot: "set (others ?s) = set (others s) - {a}" "distinct (others ?s)"
    using parts(2) d by (auto simp: others_def fl)
  have e: "set (mq_elems (obd_mq s)) \<union> (set (others s) - {a}) = set (mq_elems (obd_mq s)) \<union> set (others s) - {a}" using out by blast
  have "obd_wf (ob\<lparr>data := replicate BUF_SIZE 0\<rparr>)" using wf by (simp add: obd_wf_def)
  then have "msg_ok S (set (others s) - {a}) ?s" using parts(1) h(2) unfolding msg_ok_def fl li e
    by (auto simp: msg_ok_def li)
  moreover have "net_ok S L ?s" using n by (simp add: s')
  moreover have "history_ok ?s" using parts(3) d(2) out by (auto simp: history_ok_def fl li)
  ultimately show ?thesis using parts(4) ot unfolding srv_inv_def fl by auto
qed

lemma next_event_inv:
  assumes "srv_inv S s" "next_event s p (w, ev)"
  shows "\<exists>L. net_ok S L (without_event p w s)
    \<and> (w = pending_w \<or> ((\<exists>fd. w \<in> set (L fd)) \<or> w \<in> S) \<and> ABSPRI (wt (without_event p w s) w) < NUMPRI)"
proof -
  from assms(1) obtain L where n: "net_ok S L s" unfolding srv_inv_def by blast
  have "ABSPRI (wt (without_event p w s) w) = ABSPRI (wt s w)" by (simp add: without_event_def)
  then show ?thesis using without_event_net [OF n assms(2)] next_event_live [OF n assms(2)] by auto
qed

text \<open>A callback of the running server: what can stop it, and what it does to the history.\<close>

lemma callback_outcome:
  assumes i: "srv_inv S s" and ev: "next_event s p (w, ev)" and mal: "fresh_malloc mal" and rcv: "recv_ok (wd_recv wd)"
    and len: "length (mq_elems (obd_mq s)) < 2 ^ 32 - 1"
  shows "call_back mal wd w ev (without_event p w s) = Fault
      \<and> (wd_accept wd = SOCKET_ALLOC_MAX_CLIENT \<or> (\<exists>h pool. Malloc mal pool (sheap s) = Done (None, h)))
    \<or> (\<exists>s'. call_back mal wd w ev (without_event p w s) = Done s'
        \<and> srv_inv S (log_received (length (mq_elems (obd_mq s))) s')
        \<and> rcvd (log_received (length (mq_elems (obd_mq s))) s') = rcvd s @ (if w \<in> conns s then delivered ev (wd_recv wd) else [])
        \<and> (w \<in> conns s \<and> EV_ERROR AND ev = 0 \<and> wd_recv wd = Received [] \<longrightarrow> w \<notin> conns s' \<and> io_fd (wt s w) \<in> set (closed s')))"
proof -
  let ?s = "without_event p w s"
  from next_event_inv [OF i ev] obtain L where n: "net_ok S L ?s"
    "w = pending_w \<or> ((\<exists>fd. w \<in> set (L fd)) \<or> w \<in> S) \<and> ABSPRI (wt ?s w) < NUMPRI" by blast
  note we = without_event_rest(1,2) [of p w s] without_event_rest(3) [where p = p and w = w and s = s]
  note sv = more_server [OF we(1)] note mo = more_srv [OF sv(13)]
  have ot: "others ?s = others s" "queued ?s = queued s" by (simp_all add: others_def queued_def sv mo)
  have m: "msg_ok S (set (others s)) ?s" using i by (simp add: srv_inv_def we(3))
  have i': "srv_inv S ?s" by (rule quiet_inv [OF i n(1) fds_more_pipe [OF we(1)]])
  have l: "length (mq_elems (obd_mq ?s)) < 2 ^ 32 - 1" using len by (simp add: sv)
  have io: "io_fd (wt ?s w) = io_fd (wt s w)" by (simp add: without_event_def)
  from call_back_spec [OF n(1) m mal rcv n(2) l, of ev] show ?thesis
    unfolding we(2) io using cb_step_inv [OF i', unfolded ot sv mo] by (auto simp: sv)
qed

lemma step_inv:
  assumes "srv_inv S s" "fresh_malloc mal" "srv_step mal s s'"
  shows "srv_inv S s'"
proof -
  from assms(1) obtain L where n: "net_ok S L s" unfolding srv_inv_def by blast
  from assms(3) show ?thesis
  proof cases
    case Reify
    from reify_net [OF n] Reify have "net_ok S L s'" "ev_fds.more s' = ev_fds.more s" by auto
    from quiet_inv [OF assms(1) this(1) fds_more_pipe [OF this(2)]] show ?thesis .
  next
    case (Kernel fd revents)
    note k = kernel_event_net [OF n Kernel]
    from quiet_inv [OF assms(1) k(1) fds_more_pipe [OF k(2)]] show ?thesis .
  next
    case Wake
    have "ev_pipe.more (ev_feed_event (pipe_w s) EV_CUSTOM s) = ev_pipe.more s"
      using loop_frame_feed [of s "pipe_w s" EV_CUSTOM] by (simp add: loop_frame_def)
    from quiet_inv [OF assms(1) wake_net [OF n] this] Wake show ?thesis by simp
  next
    case (Signal sg)
    from quiet_inv [OF assms(1) sighandler_net [OF n]] Signal show ?thesis by simp
  next
    case (Callback p w ev wd s'')
    from callback_outcome [OF assms(1) Callback(2) assms(2) Callback(3,4)] Callback(1,5) show ?thesis by auto
  next
    case (Dispatch s'')
    then show ?thesis using dispatch_inv [OF assms(1)] by simp
  next
    case (Take tp t tp')
    then show ?thesis using take_inv [OF assms(1)] by simp
  next
    case (Finish a n s'')
    then show ?thesis using finish_inv [OF assms(1)] by simp
  qed
qed

lemma reach_inv: "srv_reach mal s0 s \<Longrightarrow> srv_inv S s0 \<Longrightarrow> fresh_malloc mal \<Longrightarrow> srv_inv S s"
  by (induction rule: srv_reach.induct) (blast intro: step_inv)+

end
