(* ===== verification/ServerMain.thy ===== *)
theory ServerMain
  imports ServerLaws
begin

text \<open>
  \<open>main\<close> up to \<open>ev_run\<close> establishes the invariant of the server, so what holds in all reachable states
  holds of the program; the properties of the running server, and what happens when it is shut down.
\<close>

section \<open>Starting the watchers of the loop\<close>

text \<open>The loop before the pipe and the first connection: \<open>L\<close> and \<open>G\<close> list the watchers of the
descriptors and of the signals, nothing is pending.\<close>

definition boot_inv :: "addr set \<Rightarrow> (nat \<Rightarrow> wid list) \<Rightarrow> (nat \<Rightarrow> wid list) \<Rightarrow> 'a ev_pipe_scheme \<Rightarrow> bool" where
  "boot_inv S L G s \<longleftrightarrow> fd_ok L s \<and> (\<forall>p. pendings s p = []) \<and> (\<forall>w. pending (wt s w) = 0) \<and> sig_ok G s
     \<and> (\<forall>i. set (G i) \<subseteq> S) \<and> (\<forall>fd. set (L fd) \<subseteq> S) \<and> (\<forall>i fd. set (G i) \<inter> set (L fd) = {})
     \<and> (\<forall>i. \<not> sig_pend s i) \<and> (\<forall>i l. sig_loop s i = Some l \<longrightarrow> l = this_loop \<and> i < EV_NSIG - 1)
     \<and> childs s = (\<lambda>_. None) \<and> asyncs s = [] \<and> \<not> sig_pending s \<and> \<not> pipe_write_wanted s"

lemma boot_inactive:
  assumes "boot_inv S L G s" "active (wt s w) = 0"
  shows "w \<notin> set (L fd)" "w \<notin> set (G i)"
proof -
  have l: "fd_lists L s" "sig_ok G s" using assms(1) by (simp_all add: boot_inv_def fd_ok_def)
  show "w \<notin> set (L fd)" using fd_listsD(2) [OF l(1), of w fd] assms(2) by auto
  show "w \<notin> set (G i)" using l(2) assms(2) unfolding sig_ok_def by force
qed

text \<open>A watcher that is not started may be written.\<close>

lemma boot_upd:
  fixes s :: "'a ev_pipe_scheme"
  assumes b: "boot_inv S L G s" and w: "active (wt s w) = 0" "pending (f (wt s w)) = 0"
  shows "boot_inv S L G (upd_w w f s)"
proof -
  note out = boot_inactive [OF b w(1)]
  have "fd_ok L (upd_w w f s)" by (rule fd_ok_cong [of L s]) (use b out in \<open>auto simp: boot_inv_def\<close>)
  moreover have "sig_ok G (upd_w w f s)"
  proof -
    have "chain (nexts (wt (upd_w w f s))) p (G i) = chain (nexts (wt s)) p (G i)" for p i
      by (rule chain_cong) (use out(2) in auto)
    then show ?thesis using b out(2) by (auto simp: boot_inv_def sig_ok_def)
  qed
  ultimately show ?thesis using b w(2) by (simp add: boot_inv_def)
qed

lemma boot_io_start:
  fixes s :: "'a ev_pipe_scheme"
  assumes b: "boot_inv S L G s" and w: "w \<in> S" "active (wt s w) = 0" "w \<noteq> pending_w" "legal_io (wt s w)"
  shows "\<exists>s'. ev_io_start w s = Some s' \<and> boot_inv S (L(nat (io_fd (wt s w)) := w # L (nat (io_fd (wt s w))))) G s'
    \<and> ev_fds.more s' = ev_fds.more s \<and> (\<forall>v. cb (wt s' v) = cb (wt s v)) \<and> (\<forall>v. v \<noteq> w \<longrightarrow> wt s' v = wt s v)
    \<and> active (wt s' w) = 1"
proof -
  let ?L = "L(nat (io_fd (wt s w)) := w # L (nat (io_fd (wt s w))))"
  have ok: "fd_ok L s" using b by (simp add: boot_inv_def)
  from io_start_spec [OF ok w(2-4)] obtain s' where s': "ev_io_start w s = Some s'" "fd_ok ?L s'" "active (wt s' w) = 1"
    "pendings s' = pendings s" "\<forall>v. pending (wt s' v) = pending (wt s v)" "\<forall>v. v \<noteq> w \<longrightarrow> wt s' v = wt s v" by blast
  have fr: "ev_fds.more s' = ev_fds.more s" "\<forall>v. cb (wt s' v) = cb (wt s v)" using io_start_frame [OF s'(1)] by blast+
  have e: "sig_head s' = sig_head s" "sig_loop s' = sig_loop s" "sig_pend s' = sig_pend s" "childs s' = childs s" "asyncs s' = asyncs s"
    "sig_pending s' = sig_pending s" "pipe_write_wanted s' = pipe_write_wanted s"
    using fr(1) by (cases s; cases s'; simp)+
  note out = boot_inactive [OF b w(2)]
  have same: "wt s' v = wt s v" if "v \<in> set (G i)" for v i using s'(6) out(2) [of i] that by auto
  have "chain (nexts (wt s')) p (G i) = chain (nexts (wt s)) p (G i)" for p i by (rule chain_cong) (use same in auto)
  then have "sig_ok G s'" using b same by (simp add: boot_inv_def sig_ok_def e)
  moreover have "\<forall>i fd. set (G i) \<inter> set (?L fd) = {}" "\<forall>fd. set (?L fd) \<subseteq> S" using b w(1) out(2) by (auto simp: boot_inv_def)
  moreover have "\<forall>p. pendings s' p = []" "\<forall>v. pending (wt s' v) = 0" using b s'(4,5) by (simp_all add: boot_inv_def)
  ultimately have "boot_inv S ?L G s'" using b s'(2) unfolding boot_inv_def e by blast
  then show ?thesis using s'(1,3,6) fr by blast
qed

text \<open>\<open>ev_signal_start\<close> before it looks at the pipe, for the first watcher of a signal.\<close>

definition signal_linked :: "wid \<Rightarrow> 'a ev_pipe_scheme \<Rightarrow> 'a ev_pipe_scheme" where
  "signal_linked w s =
     (let i = nat (signum (wt s w) - 1); s1 = ev_start w 1 (s\<lparr>sig_loop := (sig_loop s)(i := Some this_loop)\<rparr>)
      in s1\<lparr>sig_head := (sig_head s)(i := Some w), wt := (wt s1)(w := (wt s1 w)\<lparr>w_next := None\<rparr>)\<rparr>)"

lemma boot_signal:
  fixes s :: "'a ev_pipe_scheme"
  assumes b: "boot_inv S L G s" and w: "w \<in> S" "active (wt s w) = 0" "w \<noteq> pending_w"
    and i: "i < EV_NSIG - 1" "signum (wt s w) = int i + 1" "G i = []" "sig_loop s i = None"
  shows "ev_signal_start fds w s = evpipe_init fds (signal_linked w s)"
    "boot_inv S L (G(i := [w])) (signal_linked w s)" "ev_pipe.more (signal_linked w s) = ev_pipe.more s"
    "v \<noteq> w \<Longrightarrow> wt (signal_linked w s) v = wt s v" "cb (wt (signal_linked w s) v) = cb (wt s v)"
    "sig_loop (signal_linked w s) = (sig_loop s)(i := Some this_loop)" "pipe_w (signal_linked w s) = pipe_w s"
    "evpipe0 (signal_linked w s) = evpipe0 s" "evpipe1 (signal_linked w s) = evpipe1 s"
proof -
  let ?s = "signal_linked w s"
  have in': "nat (signum (wt s w) - 1) = i" using i(2) by simp
  note out = boot_inactive [OF b w(2)]
  have "chain (nexts (wt s)) (sig_head s i) (G i)" using b by (simp add: boot_inv_def sig_ok_def)
  then have h: "sig_head s i = None" using i(3) by simp
  have rg: "int i + 1 < int EV_NSIG" using i(1) by simp
  have bf: "wt ?s = (wt s)(w := (wt s w)\<lparr>priority := (if priority (wt s w) < EV_MINPRI then EV_MINPRI
      else if priority (wt s w) > EV_MAXPRI then EV_MAXPRI else priority (wt s w)), active := 1, w_next := None\<rparr>)"
    "anfds ?s = anfds s" "fdchanges ?s = fdchanges s" "pendings ?s = pendings s" "sig_head ?s = (sig_head s)(i := Some w)"
    "sig_pend ?s = sig_pend s" "childs ?s = childs s" "asyncs ?s = asyncs s" "sig_pending ?s = sig_pending s"
    "pipe_write_wanted ?s = pipe_write_wanted s"
    by (simp_all add: signal_linked_def Let_def ev_start_wt in') (simp_all add: ev_start_def ev_ref_def pri_adjust_def Let_def)
  show l: "sig_loop ?s = (sig_loop s)(i := Some this_loop)"
    and "pipe_w ?s = pipe_w s" "ev_pipe.more ?s = ev_pipe.more s" "evpipe0 ?s = evpipe0 s" "evpipe1 ?s = evpipe1 s"
    by (simp_all add: signal_linked_def Let_def in' ev_start_def ev_ref_def pri_adjust_def)
  show "v \<noteq> w \<Longrightarrow> wt ?s v = wt s v" "cb (wt ?s v) = cb (wt s v)" by (simp_all add: bf)
  show "ev_signal_start fds w s = evpipe_init fds ?s"
    using w(2) i in' h rg by (simp add: ev_signal_start_def signal_linked_def Let_def wlist_add_def ev_start_wt)
      (simp add: ev_start_def ev_ref_def pri_adjust_def Let_def)?
  have fd: "fd_ok L ?s" by (rule fd_ok_cong [of L s]) (use b out bf in \<open>auto simp: boot_inv_def\<close>)
  have ch: "chain (nexts (wt ?s)) p (G j) = chain (nexts (wt s)) p (G j)" for p j
    by (rule chain_cong) (use out(2) in \<open>auto simp: bf\<close>)
  have so: "chain (nexts (wt s)) (sig_head s j) (G j) \<and> distinct (G j) \<and> (G j \<noteq> [] \<longrightarrow> sig_loop s j = Some this_loop)
      \<and> (\<forall>v \<in> set (G j). signum (wt s v) = int j + 1 \<and> active (wt s v) = 1 \<and> v \<noteq> pending_w \<and> ABSPRI (wt s v) < NUMPRI)" for j
    using b unfolding boot_inv_def sig_ok_def by blast
  have "sig_ok (G(i := [w])) ?s" unfolding sig_ok_def
  proof
    fix j
    show "chain (nexts (wt ?s)) (sig_head ?s j) ((G(i := [w])) j) \<and> distinct ((G(i := [w])) j)
        \<and> ((G(i := [w])) j \<noteq> [] \<longrightarrow> sig_loop ?s j = Some this_loop)
        \<and> (\<forall>v \<in> set ((G(i := [w])) j). signum (wt ?s v) = int j + 1 \<and> active (wt ?s v) = 1 \<and> v \<noteq> pending_w \<and> ABSPRI (wt ?s v) < NUMPRI)"
    proof (cases "j = i")
      case True
      then show ?thesis using i(2) w(3) by (auto simp: bf l ABSPRI_def EV_MINPRI_def EV_MAXPRI_def)
    next
      case False
      have "wt ?s v = wt s v" if "v \<in> set (G j)" for v using that out(2) by (auto simp: bf)
      then show ?thesis using so [of j] ch [of _ j] False by (simp add: bf(5) l)
    qed
  qed
  moreover have "set ((G(i := [w])) j) \<subseteq> S" "set ((G(i := [w])) j) \<inter> set (L fd) = {}" for j fd
    using b w(1) out(1) by (auto simp: boot_inv_def)
  moreover have "\<forall>j k. sig_loop ?s j = Some k \<longrightarrow> k = this_loop \<and> j < EV_NSIG - 1" using b i(1) by (auto simp: l boot_inv_def)
  moreover have "\<forall>v. pending (wt ?s v) = 0" using b by (auto simp: bf boot_inv_def)
  ultimately show "boot_inv S L (G(i := [w])) ?s" using b fd unfolding boot_inv_def bf(4,6-10) by blast
qed

lemma boot_flags [simp]:
  "boot_inv S L G (s\<lparr>evpipe0 := a\<rparr>) = boot_inv S L G s" "boot_inv S L G (s\<lparr>evpipe1 := a\<rparr>) = boot_inv S L G s"
  "boot_inv S L G (s\<lparr>activecnt := n\<rparr>) = boot_inv S L G s" "boot_inv S L G (ev_unref s) = boot_inv S L G s"
  by (auto simp: boot_inv_def fd_ok_def fd_lists_def changes_ok_def synced_def sig_ok_def ev_unref_def)

lemma boot_cong:
  "ev_pipe.truncate s' = ev_pipe.truncate s \<Longrightarrow> boot_inv S L G s' = boot_inv S L G s"
  by (cases s; cases s'; simp add: ev_pipe.truncate_def boot_inv_def fd_ok_def fd_lists_def changes_ok_def synced_def sig_ok_def)

text \<open>The first watcher that needs the pipe opens it.\<close>

lemma boot_pipe:
  fixes s :: "'a ev_pipe_scheme"
  assumes b: "boot_inv S L G s" and w: "pipe_w s \<in> S" "active (wt s (pipe_w s)) = 0" "pipe_w s \<noteq> pending_w" and fds: "0 \<le> fst fds"
  shows "\<exists>s' L'. evpipe_init fds s = Some s' \<and> boot_inv S L' G s' \<and> (\<exists>fd. pipe_w s \<in> set (L' fd)) \<and> ev_pipe.more s' = ev_pipe.more s
    \<and> (\<forall>v. cb (wt s' v) = cb (wt s v)) \<and> (\<forall>v. v \<noteq> pipe_w s \<longrightarrow> wt s' v = wt s v) \<and> active (wt s' (pipe_w s)) = 1
    \<and> pipe_w s' = pipe_w s \<and> sig_loop s' = sig_loop s"
proof -
  let ?w = "pipe_w s"
  let ?s2 = "if evpipe1 s < 0 then s\<lparr>evpipe0 := fst fds, evpipe1 := snd fds\<rparr> else s\<lparr>evpipe0 := fst fds\<rparr>"
  let ?s3 = "upd_w ?w (ev_io_set (fst fds) EV_READ) ?s2"
  have e: "evpipe_init fds s = map_option ev_unref (ev_io_start ?w ?s3)"
    using w(2) fds by (simp add: evpipe_init_def Let_def)
  have b2: "boot_inv S L G ?s2" using b by simp
  have "pending (wt s ?w) = 0" using b by (simp add: boot_inv_def)
  then have b3: "boot_inv S L G ?s3" using w(2) by (intro boot_upd b2) (simp_all add: ev_io_set_def)
  have w3: "active (wt ?s3 ?w) = 0" "legal_io (wt ?s3 ?w)"
    using w(2) fds by (simp_all add: ev_io_set_def legal_io_def EV_READ_def EV_WRITE_def EV__IOFDSET_def)
  from boot_io_start [OF b3 w(1) w3(1) w(3) w3(2)] obtain s' where s': "ev_io_start ?w ?s3 = Some s'"
    "boot_inv S (L(nat (io_fd (wt ?s3 ?w)) := ?w # L (nat (io_fd (wt ?s3 ?w))))) G s'" "ev_fds.more s' = ev_fds.more ?s3"
    "\<forall>v. cb (wt s' v) = cb (wt ?s3 v)" "\<forall>v. v \<noteq> ?w \<longrightarrow> wt s' v = wt ?s3 v" "active (wt s' ?w) = 1" by blast
  have fr: "pipe_w s' = pipe_w ?s3" "sig_loop s' = sig_loop ?s3" "ev_pipe.more s' = ev_pipe.more ?s3"
    using s'(3) by (cases s'; cases ?s3; simp)+
  have "?w \<in> set ((L(nat (io_fd (wt ?s3 ?w)) := ?w # L (nat (io_fd (wt ?s3 ?w))))) (nat (io_fd (wt ?s3 ?w))))" by simp
  then have "\<exists>fd. ?w \<in> set ((L(nat (io_fd (wt ?s3 ?w)) := ?w # L (nat (io_fd (wt ?s3 ?w))))) fd)" by blast
  moreover have "evpipe_init fds s = Some (ev_unref s')" by (simp add: e s'(1))
  moreover have "wt (ev_unref s') = wt s'" "pipe_w (ev_unref s') = pipe_w s'" "sig_loop (ev_unref s') = sig_loop s'"
    "ev_pipe.more (ev_unref s') = ev_pipe.more s'" by (simp_all add: ev_unref_def)
  ultimately show ?thesis using s'(2,4-6) fr
    by (intro exI [of _ "ev_unref s'"] exI [of _ "L(nat (io_fd (wt ?s3 ?w)) := ?w # L (nat (io_fd (wt ?s3 ?w))))"])
      (simp add: ev_io_set_def)
qed

section \<open>Creating the default loop\<close>

text \<open>What the \<open>init\<close> of a backend may change: its own members.\<close>

definition apart_init :: "(u32_t \<Rightarrow> 'a ev_loop_scheme \<Rightarrow> u32_t \<times> 'a ev_loop_scheme) \<Rightarrow> bool" where
  "apart_init f \<longleftrightarrow> modest_init f
     \<and> (\<forall>flags s. ev_loop.more (snd (f flags s)) = ev_loop.more s \<and> childev (snd (f flags s)) = childev s
          \<and> default_loop (snd (f flags s)) = default_loop s)"

lemma try_backend_apart:
  "\<forall>bi \<in> set bs. apart_init (snd bi) \<Longrightarrow>
     ev_loop.more (fold (try_backend flags) bs s) = ev_loop.more s \<and> childev (fold (try_backend flags) bs s) = childev s
       \<and> default_loop (fold (try_backend flags) bs s) = default_loop s"
proof (induction bs arbitrary: s)
  case (Cons bi bs)
  have "ev_loop.more (try_backend flags bi s) = ev_loop.more s \<and> childev (try_backend flags bi s) = childev s
    \<and> default_loop (try_backend flags bi s) = default_loop s"
    using Cons.prems by (auto simp: try_backend_def apart_init_def split: prod.splits) (metis snd_conv)+
  then show ?case using Cons by simp
qed simp

lemma loop_init_apart:
  assumes "\<forall>bi \<in> set (su_backends env). apart_init (snd bi)"
  shows "ev_loop.more (loop_init env flags s) = ev_loop.more s" "childev (loop_init env flags s) = childev s"
    "default_loop (loop_init env flags s) = default_loop s"
  using assms by (auto simp: loop_init_def Let_def try_backend_apart)

lemma truncate_signals:
  assumes "ev_pipe.truncate s' = ev_pipe.truncate (s :: 'a ev_pipe_scheme)"
  shows "sig_head s' = sig_head s" "sig_loop s' = sig_loop s" "sig_pend s' = sig_pend s" "childs s' = childs s" "evpipe1 s' = evpipe1 s"
    "sig_pending s' = sig_pending s" "pipe_write_wanted s' = pipe_write_wanted s"
  using assms by (cases s; cases s'; simp add: ev_pipe.truncate_def)+

text \<open>The memory before \<open>main\<close> runs.\<close>

definition unused :: "'a ev_pipe_scheme \<Rightarrow> bool" where
  "unused s \<longleftrightarrow> empty_loop s \<and> (\<forall>w. pending (wt s w) = 0 \<and> active (wt s w) = 0 \<and> cb (wt s w) = 0)
     \<and> (\<forall>i. sig_loop s i = None \<and> \<not> sig_pend s i \<and> sig_head s i = None) \<and> childs s = (\<lambda>_. None)"

lemma loop_init_boot:
  fixes s :: "'a ev_loop_scheme"
  assumes u: "unused s" "backend s = 0" and m: "\<forall>bi \<in> set (su_backends env). modest_init (snd bi)"
  shows "boot_inv S (\<lambda>_. []) (\<lambda>_. []) (loop_init env flags s)" "pipe_w (loop_init env flags s) = pipe_w s"
    "active (wt (loop_init env flags s) v) = 0" "cb (wt (loop_init env flags s) v) \<noteq> READ_CB" "sig_loop (loop_init env flags s) = (\<lambda>_. None)"
proof -
  let ?s = "loop_init env flags s"
  from loop_init_steps [OF u(2), of env flags] obtain s5 s6 fl where
    s5: "ev_pipe.truncate s5 = ev_pipe.truncate (s\<lparr>have_monotonic := have_monotonic s \<or> su_monotonic env, ev_rt_now := su_wall env,
        mn_now := su_clock env, now_floor := su_clock env, rtmn_diff := su_wall env - su_clock env, sig_pending := False,
        async_pending := False, pipe_write_skipped := False, pipe_write_wanted := False, evpipe0 := -1, evpipe1 := -1\<rparr>)"
    and s6: "s6 = fold (try_backend fl) (su_backends env) s5"
    and e: "?s = (let s7 = upd_w pending_w (ev_init PENDINGCB) s6
       in upd_w (pipe_w s7) (\<lambda>x. ev_set_priority EV_MAXPRI (ev_init PIPECB x)) s7)" by metis
  note t6 = fold_try_backend [OF m, of fl s5, folded s6, unfolded s5]
  have z: "wt s6 = wt s" "pipe_w s6 = pipe_w s" "empty_loop s6" "sig_head s6 = sig_head s" "sig_loop s6 = sig_loop s"
    "sig_pend s6 = sig_pend s" "childs s6 = childs s" "\<not> sig_pending s6" "\<not> pipe_write_wanted s6"
    using truncate_members [OF t6] truncate_signals [OF t6] u(1) by (simp_all add: unused_def empty_loop_def)
  have p6: "pending (wt s6 w) = 0" "active (wt s6 w) = 0" "cb (wt s6 w) = 0" for w using u(1) by (simp_all add: unused_def z)
  have "boot_inv S (\<lambda>_. []) (\<lambda>_. []) s6"
    using u(1) z(3-9) p6 empty_loop_invariants(1) [OF z(3)] by (simp add: boot_inv_def sig_ok_def unused_def empty_loop_def)
  then show "boot_inv S (\<lambda>_. []) (\<lambda>_. []) ?s" unfolding e Let_def using p6
    by (intro boot_upd) (simp_all add: ev_set_priority_def ev_init_def)
  show "pipe_w ?s = pipe_w s" "sig_loop ?s = (\<lambda>_. None)" using u(1) by (auto simp: e Let_def z unused_def)
  show "active (wt ?s v) = 0" "cb (wt ?s v) \<noteq> READ_CB"
    using p6 by (auto simp: e Let_def z(2) ev_set_priority_def ev_init_def READ_CB_def PIPECB_def PENDINGCB_def)
qed

section \<open>Up to the loop\<close>

definition statics :: "'a server_scheme \<Rightarrow> addr set" where
  "statics s = {pending_w, pipe_w s, childev s, signal_watcher s, socket_accept s, mq_list (obd_mq s)}"

text \<open>The variables of the program before \<open>main\<close>: zero, at different addresses, which the allocator will not
hand out.\<close>

definition unstarted :: "'a server_scheme \<Rightarrow> bool" where
  "unstarted s \<longleftrightarrow> unused s \<and> backend s = 0 \<and> \<not> default_loop s \<and> libev_list s = replicate max_fd None \<and> \<not> mq_flag s
     \<and> distinct [pending_w, pipe_w s, childev s, signal_watcher s, socket_accept s]
     \<and> distinct (live (sheap s)) \<and> statics s \<subseteq> set (live (sheap s)) \<and> (\<forall>a. obd_wf (obds s a))"

lemma default_loop_boot:
  fixes s :: "'a server_scheme"
  assumes u: "unstarted s" and env: "\<forall>bi \<in> set (su_backends env). apart_init (snd bi)" and fds: "0 \<le> fst fds"
    and be: "backend (loop_init env flags (s\<lparr>default_loop := True\<rparr>)) \<noteq> 0"
  shows "\<exists>s' L. ev_default_loop env fds flags s = Some s' \<and> default_loop s' \<and> boot_inv (statics s) L ((\<lambda>_. [])(16 := [childev s])) s' \<and> (\<exists>fd. pipe_w s \<in> set (L fd)) \<and> pipe_w s' = pipe_w s
    \<and> active (wt s' (pipe_w s)) = 1 \<and> (\<forall>v. v \<noteq> pipe_w s \<longrightarrow> v \<noteq> childev s \<longrightarrow> active (wt s' v) = 0) \<and> (\<forall>v. cb (wt s' v) \<noteq> READ_CB)
    \<and> ev_loop.more s' = ev_loop.more s \<and> (\<forall>i. sig_loop s' i = (if i = 16 then Some this_loop else None))"
proof -
  let ?z = "s\<lparr>default_loop := True\<rparr>" let ?s1 = "loop_init env flags ?z"
  let ?f = "\<lambda>x. ev_set_priority EV_MAXPRI (ev_signal_init CHILDCB SIGCHLD x)"
  let ?s2 = "upd_w (childev ?s1) ?f ?s1"
  have uz: "unused ?z" "backend ?z = 0" using u by (simp_all add: unstarted_def unused_def empty_loop_def)
  have m: "\<forall>bi \<in> set (su_backends env). modest_init (snd bi)" using env by (simp add: apart_init_def)
  note lb = loop_init_boot(1) [OF uz m, where S = "statics s" and flags = flags] loop_init_boot(2-) [OF uz m, where flags = flags]
  note la = loop_init_apart [OF env, of flags ?z]
  have ce: "childev ?s1 = childev s" "ev_loop.more ?s1 = ev_loop.more s" "pipe_w ?s1 = pipe_w s" using la lb(2) by simp_all
  have ds: "childev s \<in> statics s" "pipe_w s \<in> statics s" "childev s \<noteq> pending_w" "pipe_w s \<noteq> pending_w" "pipe_w s \<noteq> childev s"
    using u by (auto simp: unstarted_def statics_def)
  have b2: "boot_inv (statics s) (\<lambda>_. []) (\<lambda>_. []) ?s2" by (rule boot_upd [OF lb(1,3)]) (simp add: ev_set_priority_def ev_signal_init_def
      ev_signal_set_def ev_init_def)
  have s2: "active (wt ?s2 (childev s)) = 0" "signum (wt ?s2 (childev s)) = int 16 + 1" "active (wt ?s2 v) = 0" "cb (wt ?s2 v) \<noteq> READ_CB"
    "sig_loop ?s2 16 = None" "pipe_w ?s2 = pipe_w s" "ev_loop.more ?s2 = ev_loop.more s" for v
    using lb(3-5) by (auto simp: ce ev_set_priority_def ev_signal_init_def ev_signal_set_def ev_init_def SIGCHLD_def CHILDCB_def READ_CB_def)
  have i16: "(16 :: nat) < EV_NSIG - 1" by (simp add: EV_NSIG_def)
  note sg = boot_signal [OF b2 ds(1) s2(1) ds(3) i16 s2(2) refl s2(5)]
  let ?s3 = "signal_linked (childev s) ?s2"
  have pw: "pipe_w ?s3 = pipe_w s" using sg(7) s2(6) by simp
  have "active (wt ?s3 (pipe_w s)) = 0" using sg(4) [OF ds(5)] s2(3) by simp
  then have pz: "pipe_w ?s3 \<in> statics s" "active (wt ?s3 (pipe_w ?s3)) = 0" "pipe_w ?s3 \<noteq> pending_w" unfolding pw using ds by simp_all
  from boot_pipe [OF sg(2) pz fds, unfolded pw] obtain s4 L where s4: "evpipe_init fds ?s3 = Some s4"
    "boot_inv (statics s) L ((\<lambda>_. [])(16 := [childev s])) s4" "\<exists>fd. pipe_w s \<in> set (L fd)" "ev_pipe.more s4 = ev_pipe.more ?s3"
    "\<forall>v. cb (wt s4 v) = cb (wt ?s3 v)" "\<forall>v. v \<noteq> pipe_w s \<longrightarrow> wt s4 v = wt ?s3 v" "active (wt s4 (pipe_w s)) = 1"
    "pipe_w s4 = pipe_w s" "sig_loop s4 = sig_loop ?s3" by blast
  have run: "ev_signal_start fds (childev s) ?s2 = Some s4" using sg(1) s4(1) by simp
  have r: "ev_default_loop env fds flags s = Some (ev_unref s4)"
    using u run be by (simp add: ev_default_loop_def Let_def ev_backend_def unstarted_def ce)
  have un: "wt (ev_unref s4) = wt s4" "pipe_w (ev_unref s4) = pipe_w s4" "sig_loop (ev_unref s4) = sig_loop s4"
    "ev_loop.more (ev_unref s4) = ev_loop.more s4" "default_loop (ev_unref s4) = default_loop s4" by (simp_all add: ev_unref_def)
  have mo: "ev_pipe.more s4 = ev_pipe.more ?s2" using s4(4) sg(3) by simp
  have "default_loop s4 = default_loop ?s2" using mo by (cases s4; cases ?s2; simp)
  then have "default_loop s4" using la(3) by simp
  moreover have "ev_loop.more s4 = ev_loop.more ?s2" using mo by (cases s4; cases ?s2; simp)
  moreover have "active (wt s4 v) = 0" if "v \<noteq> pipe_w s" "v \<noteq> childev s" for v using s4(6) sg(4) [OF that(2)] s2(3) [of v] that by simp
  moreover have "cb (wt s4 v) \<noteq> READ_CB" for v using s4(5) sg(5) [of v] s2(4) by simp
  moreover have "sig_loop s4 i = (if i = 16 then Some this_loop else None)" for i
    using s4(9) sg(6) lb(5) by (simp add: ce)
  ultimately show ?thesis using s4(2,3,7,8) s2(7) r
    by (intro exI [of _ "ev_unref s4"] exI [of _ L]) (simp add: un)
qed

lemma two_pools:
  assumes mal: "fresh_malloc mal" and S: "distinct (live h)" "S \<subseteq> set (live h)"
    and p: "CreateMemoryPool mal sz h = Done (p, h1)" and q: "CreateMemoryPool mal sz' h1 = Done (q, h2)"
  shows "pools_ok S p q {} {} h2"
proof -
  have h1: "p \<notin> set (live h)" "live h1 = p # live h" "pFirstAvailable (head_of h1 p) = None"
    using p fresh_mallocD [OF mal] by (auto simp: CreateMemoryPool_def sys_malloc_def split: option.splits)
  have h2: "q \<notin> set (live h1)" "live h2 = q # live h1" "pFirstAvailable (head_of h2 q) = None"
    "q \<noteq> x \<Longrightarrow> head_of h2 x = head_of h1 x" for x
    using q fresh_mallocD [OF mal] by (auto simp: CreateMemoryPool_def sys_malloc_def split: option.splits)
  have "p \<noteq> q" using h1(2) h2(1) by auto
  then have "pool_inv p [] {} h2" "pool_inv q [] {} h2" using h1 h2 S(1) by (auto simp: pool_inv_def)
  moreover have "S \<inter> {p, q} = {}" "S \<subseteq> set (live h2)" using S(2) h1 h2 by auto
  ultimately show ?thesis using \<open>p \<noteq> q\<close> unfolding pools_ok_def by (intro exI [of _ "[]"]) auto
qed

lemma boot_net:
  fixes s :: "'a server_scheme"
  assumes b: "boot_inv S L G s" and l: "libev_list s = replicate max_fd None" and c: "\<forall>v. cb (wt s v) \<noteq> READ_CB"
    and p: "pipe_w s \<in> S" "\<exists>fd. pipe_w s \<in> set (L fd)" "pending_w \<in> S"
  shows "net_ok S L s" "conns s = {}"
proof -
  have B: "fd_ok L s" "\<forall>p. pendings s p = []" "\<forall>w. pending (wt s w) = 0" "sig_ok G s" "\<forall>i. set (G i) \<subseteq> S" "\<forall>fd. set (L fd) \<subseteq> S"
    "\<forall>i fd. set (G i) \<inter> set (L fd) = {}" "\<forall>i. \<not> sig_pend s i" "\<forall>i l. sig_loop s i = Some l \<longrightarrow> l = this_loop \<and> i < EV_NSIG - 1"
    "childs s = (\<lambda>_. None)" "asyncs s = []" using b unfolding boot_inv_def by blast+
  show "conns s = {}" by (auto simp: conns_def l)
  have "sys_ok S L s" using B(4-11) p(1,2) unfolding sys_ok_def by blast
  moreover have "pend_ok s" using B(2,3) by (simp add: pend_ok_def)
  ultimately show "net_ok S L s" using B(1,3,6) c p(3) by (auto simp: net_ok_def l)
qed

text \<open>\<open>main\<close> up to \<open>ev_run\<close>, once there are a backend and the two pools: the invariant holds, with no connection
and no message; without a socket an assertion of \<open>ev_io_start\<close> fails.\<close>

lemma main_setup_boot:
  fixes s0 :: srv_sys
  assumes u: "unstarted s0" "working s0 = []" "leaked s0 = []" "rcvd s0 = []" "handed s0 = []" "begun s0 = []"
    and mal: "fresh_malloc mal" and env: "\<forall>bi \<in> set (su_backends senv). apart_init (snd bi)" and fds: "0 \<le> fst fds"
    and be: "backend (loop_init senv 0 (s0\<lparr>default_loop := True\<rparr>)) \<noteq> 0"
    and pl: "CreateMemoryPool mal sizeof_ev_io (sheap s0) = Done (p, h)" "CreateMemoryPool mal sizeof_OBD_t h = Done (p', h')"
  shows "(if sock < 0 then main_setup mal senv fds rc_ok workers sock s0 = Fault
    else \<exists>s. main_setup mal senv fds rc_ok workers sock s0 = Done s \<and> srv_inv (statics s0) s \<and> conns s = {} \<and> mq_elems (obd_mq s) = []
      \<and> (\<forall>p. pendings s p = []) \<and> \<not> sig_pending s \<and> \<not> pipe_write_wanted s \<and> sig_loop s 1 = Some this_loop \<and> pipe_w s = pipe_w s0)"
proof -
  let ?S = "statics s0"
  from default_loop_boot [OF u(1) env fds be] obtain s1 L where s1: "ev_default_loop senv fds 0 s0 = Some s1" "default_loop s1"
    and b1: "boot_inv ?S L ((\<lambda>_. [])(16 := [childev s0])) s1"
    "\<exists>fd. pipe_w s0 \<in> set (L fd)" "pipe_w s1 = pipe_w s0" "active (wt s1 (pipe_w s0)) = 1"
    "\<forall>v. v \<noteq> pipe_w s0 \<longrightarrow> v \<noteq> childev s0 \<longrightarrow> active (wt s1 v) = 0" "\<forall>v. cb (wt s1 v) \<noteq> READ_CB"
    "ev_loop.more s1 = ev_loop.more s0" "\<forall>i. sig_loop s1 i = (if i = 16 then Some this_loop else None)" by blast
  have m1: "sheap s1 = sheap s0" "libev_list s1 = libev_list s0" "obds s1 = obds s0" "obd_mq s1 = obd_mq s0" "mq_flag s1 = mq_flag s0"
    "socket_accept s1 = socket_accept s0" "signal_watcher s1 = signal_watcher s0" "server.more s1 = server.more s0"
    using b1(7) by (cases s1; cases s0; simp)+
  have ds: "signal_watcher s0 \<in> ?S" "socket_accept s0 \<in> ?S" "pipe_w s0 \<in> ?S" "pending_w \<in> ?S" "mq_list (obd_mq s0) \<in> ?S"
    "signal_watcher s0 \<noteq> pending_w" "socket_accept s0 \<noteq> pending_w" "signal_watcher s0 \<noteq> socket_accept s0"
    "signal_watcher s0 \<noteq> pipe_w s0" "socket_accept s0 \<noteq> pipe_w s0" "signal_watcher s0 \<noteq> childev s0" "socket_accept s0 \<noteq> childev s0"
    using u(1) by (auto simp: unstarted_def statics_def)
  define tp where "tp = fst (threadpool_create rc_ok workers True True True 8 8)"
  let ?w = "signal_watcher s0" let ?a = "socket_accept s0"
  define s3 where "s3 = s1\<lparr>obd_mq := mq_init ((obd_mq s1)\<lparr>mq_mutex := Unlocked\<rparr>), sheap := h', ev_pool := Some p, obd_pool := Some p',
              thread_pool := tp, server_socket := sock\<rparr>"
  let ?s4 = "upd_w ?w (ev_signal_init SIGNAL_CB SIGINT) s3"
  have t3: "wt s3 = wt s1" "pipe_w s3 = pipe_w s0" "sig_loop s3 = sig_loop s1" "socket_accept s3 = ?a"
    by (simp_all add: s3_def b1(3) m1)
  have "ev_pipe.truncate s3 = ev_pipe.truncate s1" by (simp add: s3_def ev_pipe.truncate_def)
  from boot_cong [OF this] b1(1) have b3: "boot_inv ?S L ((\<lambda>_. [])(16 := [childev s0])) s3" by simp
  have wz: "active (wt s3 ?w) = 0" using b1(5) ds by (simp add: t3)
  have b4: "boot_inv ?S L ((\<lambda>_. [])(16 := [childev s0])) ?s4"
    by (rule boot_upd [OF b3 wz]) (simp add: ev_signal_init_def ev_signal_set_def ev_init_def ev_set_priority_def)
  have w4: "active (wt ?s4 ?w) = 0" "signum (wt ?s4 ?w) = int 1 + 1" "sig_loop ?s4 1 = None"
    using b1(8) by (simp_all add: ev_signal_init_def ev_signal_set_def ev_init_def ev_set_priority_def SIGINT_def t3)
  have i1: "(1 :: nat) < EV_NSIG - 1" by (simp add: EV_NSIG_def)
  have g1: "((\<lambda>_. [])(16 := [childev s0])) (1 :: nat) = []" by simp
  note sg = boot_signal [OF b4 ds(1) w4(1) ds(6) i1 w4(2) g1 w4(3)]
  define s5 where "s5 = signal_linked ?w ?s4"
  have pw5: "pipe_w s5 = pipe_w s0" using sg(7) by (simp add: s5_def t3)
  have "wt s5 (pipe_w s0) = wt s1 (pipe_w s0)" using sg(4) [of "pipe_w s0"] ds(9) by (simp add: s5_def t3)
  then have "evpipe_init fds s5 = Some s5" using b1(4) pw5 by (simp add: evpipe_init_def)
  then have st: "ev_signal_start fds ?w ?s4 = Some s5" using sg(1) by (simp add: s5_def)
  have mo5: "ev_pipe.more s5 = ev_pipe.more s3" using sg(3) by (simp add: s5_def)
  note sv5 = more_pipe [OF mo5]
  have sa: "socket_accept s5 = ?a" "server_socket s5 = server_socket s3"
    using mo5 t3(4) by (cases s5; cases s3; simp)+
  let ?s6 = "upd_w ?a (ev_io_init ACCEPT_CB sock EV_READ) s5"
  have run: "main_setup mal senv fds rc_ok workers sock s0 = run_of_option (ev_io_start ?a ?s6)"
    using st by (simp add: main_setup_def s1 m1 pl s3_def [unfolded tp_def] Let_def) (simp add: sa s3_def tp_def)
  have wa: "active (wt s5 ?a) = 0" using sg(4) [of ?a] b1(5) ds by (simp add: s5_def t3)
  have b6: "boot_inv ?S L (((\<lambda>_. [])(16 := [childev s0]))(1 := [?w])) ?s6"
    by (rule boot_upd [OF sg(2) [folded s5_def] wa]) (simp add: ev_io_init_def ev_io_set_def ev_init_def ev_set_priority_def)
  have a6: "active (wt ?s6 ?a) = 0" "io_fd (wt ?s6 ?a) = sock" by (simp_all add: ev_io_init_def ev_io_set_def ev_init_def ev_set_priority_def)
  show ?thesis
  proof (cases "sock < 0")
    case True
    then have "ev_io_start ?a ?s6 = None" using a6 by (auto simp: ev_io_start_def)
    then show ?thesis using True run by simp
  next
    case False
    then have "legal_io (wt ?s6 ?a)" by (simp add: legal_io_def ev_io_init_def ev_io_set_def EV_READ_def EV_WRITE_def EV__IOFDSET_def)
    from boot_io_start [OF b6 ds(2) a6(1) ds(7) this] obtain s L' where
      b7: "ev_io_start ?a ?s6 = Some s" "boot_inv ?S L' (((\<lambda>_. [])(16 := [childev s0]))(1 := [?w])) s"
        "\<And>fd v. v \<in> set (L fd) \<Longrightarrow> v \<in> set (L' fd)" "ev_fds.more s = ev_fds.more ?s6" "\<forall>v. cb (wt s v) = cb (wt ?s6 v)" by fastforce
    have mo: "ev_fds.more s = ev_fds.more s5" using b7(4) by simp
    note sv = more_server [OF mo, unfolded sv5] note ms = more_srv [OF sv(13) [unfolded s3_def, simplified, unfolded m1(8)]]
    have c0: "conns s = {}" using u(1) by (auto simp: conns_def sv s3_def m1 unstarted_def)
    have cbs: "cb (wt s v) \<noteq> READ_CB" for v
    proof -
      have "cb (wt s5 v) = cb (wt ?s4 v)" using sg(5) by (simp add: s5_def)
      moreover have "cb (wt ?s4 v) \<noteq> READ_CB" using b1(6)
        by (simp add: t3 ev_signal_init_def ev_signal_set_def ev_init_def ev_set_priority_def SIGNAL_CB_def READ_CB_def)
      ultimately show ?thesis using b7(5) by (simp add: ev_io_init_def ev_io_set_def ev_init_def ev_set_priority_def ACCEPT_CB_def READ_CB_def)
    qed
    have pws: "pipe_w s = pipe_w s0" "sig_loop s = sig_loop s5" using mo pw5 by (cases s; cases s5; simp)+
    have "sig_loop s 1 = Some this_loop" using sg(6) by (simp add: pws(2)) (simp add: s5_def)
    moreover have "(\<forall>p. pendings s p = []) \<and> \<not> sig_pending s \<and> \<not> pipe_write_wanted s" using b7(2) by (simp add: boot_inv_def)
    ultimately have quiet: "(\<forall>p. pendings s p = []) \<and> \<not> sig_pending s \<and> \<not> pipe_write_wanted s \<and> sig_loop s 1 = Some this_loop
      \<and> pipe_w s = pipe_w s0" using pws(1) by blast
    note pws(1)
    moreover have "libev_list s = replicate max_fd None" using u(1) by (simp add: sv s3_def m1 unstarted_def)
    moreover have "\<exists>fd. pipe_w s0 \<in> set (L' fd)" using b1(2) b7(3) by blast
    ultimately have net: "net_ok ?S L' s" using boot_net(1) [OF b7(2)] cbs ds by simp
    have tp: "thread_pool s = tp" "tp_ok (the tp)" "shutdown (the tp) = 0" "tp_tasks (the tp) = []" "tp \<noteq> None"
      using create_result [of 8 workers 8] by (simp_all add: sv s3_def tp_def tp_ok_def tp_tasks_def)
    have log: "working s = []" "leaked s = []" "rcvd s = []" "handed s = []" "begun s = []" using ms u by simp_all
    have ot: "others s = []" "queued s = []" using tp(1,4) by (simp_all add: others_def queued_def log)
    let ?q = "(obd_mq s0)\<lparr>mq_mutex := Unlocked\<rparr>"
    have q: "obd_mq s = mq_init ?q" by (simp add: sv s3_def m1)
    have mq: "mq_ok (obd_mq s)" "mq_elems (obd_mq s) = []" "mq_list (obd_mq s) = mq_list (obd_mq s0)"
      using mq_init_ok [of ?q] by (simp_all add: q) (simp add: mq_init_def mq_prims)
    have "pools_ok ?S p p' {} {} h'"
      by (rule two_pools [OF mal _ _ pl]) (use u(1) in \<open>auto simp: m1 unstarted_def\<close>)
    then have "msg_ok ?S (set (others s)) s"
      using mq ds u(1) by (simp add: msg_ok_def ot c0) (simp add: sv s3_def m1 unstarted_def)
    moreover have "pool_runs s" using tp u(1) by (auto simp: pool_runs_def sv s3_def m1 unstarted_def)
    moreover have "history_ok s" by (simp add: history_ok_def log ot mq)
    ultimately have "srv_inv ?S s" using net unfolding srv_inv_def ot by auto
    then show ?thesis using False run b7(1) c0 quiet mq(2) by auto
  qed
qed

lemma main_setup_inv:
  fixes s0 :: srv_sys
  assumes u: "unstarted s0" "working s0 = []" "leaked s0 = []" "rcvd s0 = []" "handed s0 = []" "begun s0 = []"
    and mal: "fresh_malloc mal" and env: "\<forall>bi \<in> set (su_backends senv). apart_init (snd bi)" and fds: "0 \<le> fst fds"
    and r: "main_setup mal senv fds rc_ok workers sock s0 = Done s"
  shows "srv_inv (statics s0) s" "conns s = {}"
proof -
  have be: "backend (loop_init senv 0 (s0\<lparr>default_loop := True\<rparr>)) \<noteq> 0"
  proof
    assume "backend (loop_init senv 0 (s0\<lparr>default_loop := True\<rparr>)) = 0"
    then have "main_setup mal senv fds rc_ok workers sock s0 = Fault"
      using u(1) by (simp add: main_setup_def ev_default_loop_def Let_def ev_backend_def unstarted_def)
    then show False using r by simp
  qed
  from default_loop_boot [OF u(1) env fds be] obtain s1 where s1: "ev_default_loop senv fds 0 s0 = Some s1" "default_loop s1"
    "ev_loop.more s1 = ev_loop.more s0" by blast
  have "sheap s1 = sheap s0" using s1(3) by (cases s1; cases s0; simp)
  then obtain p h p' h' where "CreateMemoryPool mal sizeof_ev_io (sheap s0) = Done (p, h)" "CreateMemoryPool mal sizeof_OBD_t h = Done (p', h')"
    using r s1(1,2) by (auto simp: main_setup_def Let_def)
  from main_setup_boot [OF u mal env fds be this, where workers = workers and sock = sock] r show "srv_inv (statics s0) s" "conns s = {}"
    by (auto split: if_splits)
qed

section \<open>The running program\<close>

definition server_starts :: "allocator \<Rightarrow> srv_sys \<Rightarrow> srv_sys \<Rightarrow> bool" where
  "server_starts mal s0 s \<longleftrightarrow> fresh_malloc mal \<and> unstarted s0
     \<and> working s0 = [] \<and> leaked s0 = [] \<and> rcvd s0 = [] \<and> handed s0 = [] \<and> begun s0 = []
     \<and> (\<exists>senv fds workers sock. (\<forall>bi \<in> set (su_backends senv). apart_init (snd bi)) \<and> 0 \<le> fst fds
          \<and> main_setup mal senv fds rc_ok workers sock s0 = Done s)"

definition server_run :: "allocator \<Rightarrow> srv_sys \<Rightarrow> srv_sys \<Rightarrow> bool" where
  "server_run mal s0 s \<longleftrightarrow> (\<exists>s1. server_starts mal s0 s1 \<and> srv_reach mal s1 s)"

lemma run_inv:
  assumes "server_run mal s0 s"
  shows "srv_inv (statics s0) s" "fresh_malloc mal"
proof -
  from assms obtain s1 where s1: "server_starts mal s0 s1" "srv_reach mal s1 s" by (auto simp: server_run_def)
  show m: "fresh_malloc mal" using s1(1) by (simp add: server_starts_def)
  have "srv_inv (statics s0) s1" using s1(1) main_setup_inv(1) unfolding server_starts_def by blast
  then show "srv_inv (statics s0) s" using reach_inv [OF s1(2)] m by blast
qed

text \<open>The memory of a program before it starts, on a system with a select backend.\<close>

definition idle_server :: srv_sys where
  "idle_server =
     \<lparr>wt = (\<lambda>_. idle_watcher 0), activecnt = 0, pendings = (\<lambda>_. []), pendingpri = 0, rfeeds = [], anfds = [], fdchanges = [],
      ev_rt_now = 0, now_floor = 0, mn_now = 0, rtmn_diff = 0, have_monotonic = False,
      timers = (\<lambda>_. \<lparr>ANHE_at = 0, ANHE_w = 0\<rparr>), timercnt = 0, periodics = (\<lambda>_. \<lparr>ANHE_at = 0, ANHE_w = 0\<rparr>), periodiccnt = 0,
      idles = (\<lambda>_. []), idleall = 0, prepares = [], checks = [], forks = [], cleanups = [], asyncs = [], pipe_w = 1,
      evpipe0 = 0, evpipe1 = 0, pipe_bytes = 0, pipe_write_wanted = False, pipe_write_skipped = False, sig_pending = False,
      async_pending = False, sig_loop = (\<lambda>_. None), sig_pend = (\<lambda>_. False), sig_head = (\<lambda>_. None), childs = (\<lambda>_. None),
      loop_done = 0, loop_count = 0, loop_depth = 0, postfork = False, curpid = 0, io_blocktime = 0, timeout_blocktime = 0,
      backend_mintime = 0, backend = 0, backend_fd = 0, origflags = 0, childev = 2, default_loop = False,
      sheap = empty_heap\<lparr>live := [5, 4, 3, 2, 1, 0]\<rparr>, ev_pool = None, obd_pool = None, libev_list = replicate max_fd None,
      obds = (\<lambda>_. received []), obd_mq = \<lparr>nxt = (\<lambda>_. 0), prv = (\<lambda>_. 0), mq_list = 5, size_of = 0, mq_mutex = Unlocked\<rparr>,
      thread_pool = None, mq_flag = False, server_socket = 0, socket_accept = 4, signal_watcher = 3, closed = [], sent = [],
      printed = [], working = [], leaked = [], rcvd = [], handed = [], begun = []\<rparr>"

definition select_server :: "srv_sys setup_env" where
  "select_server = \<lparr>su_pid = 42, su_secure = False, su_flags = None, su_monotonic = True, su_wall = 1000, su_clock = 10,
     su_backends = [(EVBACKEND_SELECT, \<lambda>flags s. (EVBACKEND_SELECT, s))]\<rparr>"

lemma idle_unstarted: "unstarted idle_server" "working idle_server = []" "leaked idle_server = []" "rcvd idle_server = []"
  "handed idle_server = []" "begun idle_server = []"
  using received_wf [of "[]"]
  by (simp_all add: unstarted_def unused_def idle_server_def empty_loop_def idle_watcher_def statics_def pending_w_def)

lemma idle_backend:
  "\<forall>bi \<in> set (su_backends select_server). apart_init (snd bi)" "backend (loop_init select_server 0 (idle_server\<lparr>default_loop := True\<rparr>)) \<noteq> 0"
  by (simp add: select_server_def apart_init_def modest_init_def)
    (simp add: loop_init_def idle_server_def select_server_def try_backend_def ev_recommended_backends_def
      EVBACKEND_SELECT_def EVBACKEND_KQUEUE_def EVFLAG_FORKCHECK_def EVFLAG_NOENV_def EVBACKEND_MASK_def Let_def)

text \<open>It starts; a signal sets the flag, and \<open>ev_run\<close> queues the wake-up event.\<close>

lemma idle_starts:
  "\<exists>s. server_starts bump_malloc idle_server s \<and> (\<forall>p. pendings s p = []) \<and> \<not> sig_pending s \<and> \<not> pipe_write_wanted s
     \<and> sig_loop s 1 = Some this_loop \<and> pipe_w s = 1 \<and> conns s = {} \<and> mq_elems (obd_mq s) = []"
proof -
  obtain p h where p: "CreateMemoryPool bump_malloc sizeof_ev_io (sheap idle_server) = Done (p, h)"
    by (simp add: CreateMemoryPool_def sys_malloc_def bump_malloc_def)
  obtain p' h' where p': "CreateMemoryPool bump_malloc sizeof_OBD_t h = Done (p', h')"
    by (simp add: CreateMemoryPool_def sys_malloc_def bump_malloc_def)
  have fds: "0 \<le> fst (3 :: int, 3 :: int)" by simp
  from main_setup_boot [OF idle_unstarted fresh_bump_malloc idle_backend(1) fds idle_backend(2) p p', where workers = id and sock = 4]
  obtain s where s: "main_setup bump_malloc select_server (3, 3) rc_ok id 4 idle_server = Done s" "conns s = {}"
    "mq_elems (obd_mq s) = []" "\<forall>p. pendings s p = []" "\<not> sig_pending s" "\<not> pipe_write_wanted s" "sig_loop s 1 = Some this_loop"
    "pipe_w s = pipe_w idle_server" by auto
  have "server_starts bump_malloc idle_server s" unfolding server_starts_def
    using idle_unstarted fresh_bump_malloc idle_backend(1) fds s(1) by blast
  then show ?thesis using s(2-8) by (intro exI [of _ s]) (simp add: idle_server_def)
qed

text \<open>The interrupt arrives: the wake-up event is what the loop takes next.\<close>

lemma interrupted_server:
  "\<exists>s p. server_run bump_malloc idle_server s \<and> next_event s p (1, EV_CUSTOM) \<and> conns s = {} \<and> mq_elems (obd_mq s) = []"
proof -
  from idle_starts obtain s where s: "server_starts bump_malloc idle_server s" "\<forall>p. pendings s p = []" "\<not> sig_pending s"
    "\<not> pipe_write_wanted s" "sig_loop s 1 = Some this_loop" "pipe_w s = 1" "conns s = {}" "mq_elems (obd_mq s) = []" by blast
  let ?t = "ev_sighandler 2 s" let ?u = "ev_feed_event (pipe_w ?t) EV_CUSTOM ?t"
  have sk: "pipe_write_skipped ?t" using s(3-5) by (simp add: ev_sighandler_def ev_feed_signal_def evpipe_write_def Let_def)
  have same: "ev_pipe.more ?t = ev_pipe.more s" "pendings ?t = pendings s" "wt ?t = wt s" "pipe_w ?t = 1"
    using s(6) by (auto simp: ev_sighandler_def ev_feed_signal_def evpipe_write_def Let_def split: option.splits)
  have "srv_reach bump_malloc s ?t" using srv_reach.Step [OF srv_reach.Start srv_step.Signal] .
  then have "srv_reach bump_malloc s ?u" using srv_step.Wake [of ?t, OF sk] by (rule srv_reach.Step)
  then have run: "server_run bump_malloc idle_server ?u" using s(1) unfolding server_run_def by blast
  from run_inv(1) [OF run] obtain L where "net_ok (statics idle_server) L ?t" using run_inv(1) \<open>srv_reach bump_malloc s ?t\<close> s(1)
    unfolding server_run_def srv_inv_def by blast
  then have pk: "pend_ok ?t" by (simp add: net_ok_def)
  have pd: "pending (wt ?t v) = 0" for v
  proof (rule ccontr)
    assume a: "pending (wt ?t v) \<noteq> 0"
    then have "v \<noteq> pending_w" using pk by (auto simp: pend_ok_def)
    from pend_okD [OF pk this a] show False using s(2) same(2) by simp
  qed
  have ne: "next_event ?u (ABSPRI (wt ?t 1)) (1, EV_CUSTOM)"
    unfolding same(4) using pd [of 1] s(2) same(2) by (simp add: next_event_def ev_feed_event_def Let_def)
  have "ev_pipe.more ?u = ev_pipe.more s" using same(1) loop_frame_feed [of ?t "pipe_w ?t" EV_CUSTOM] by (simp add: loop_frame_def)
  note sv = more_pipe [OF this]
  have "conns ?u = {}" "mq_elems (obd_mq ?u) = []" using s(7,8) by (simp_all add: conns_def sv)
  then show ?thesis using run ne by blast
qed

end
