(* ===== verification/ServerProps.thy ===== *)
theory ServerProps
  imports ServerMain
begin

text \<open>
  The properties of the running server: which callbacks the loop may make, what happens to a message from
  \<open>recv\<close> to \<open>OBD_decode\<close>, what can stop a handler, and what goes wrong at the limits (the last
  descriptor, a full buffer, the shutdown with messages in the queue).
\<close>

section \<open>Callbacks and connections\<close>




definition no_data :: world where
  "no_data = \<lparr>wd_recv = RecvError, wd_accept = 5, wd_traced = (\<lambda>_. False), wd_wait = None\<rparr>"

lemma malloc_bump: "Malloc bump_malloc pl h \<noteq> Done (None, h')"
  by (auto simp: Malloc_def sys_malloc_def bump_malloc_def split: option.splits)


section \<open>Messages\<close>



lemma frame_not_empty: "frame msg \<noteq> []" "0 \<notin> set (frame msg)"
  by (simp add: frame_def enc_byte_def, rule frame_nonzero)



section \<open>The limits\<close>

text \<open>
  C21. The table of the connections has 20480 entries and the test lets descriptor 20480 through:
  \<open>accept_func_cb\<close> then reads and writes behind the end of the array.
\<close>

theorem accept_at_limit_faults:
  assumes "server_run mal s0 s" "EV_ERROR AND ev = 0" "Malloc mal (ev_pool s) (sheap s) = Done (Some a, h)"
  shows "accept_func_cb mal SOCKET_ALLOC_MAX_CLIENT w ev s = Fault"
proof -
  from run_inv(1) [OF assms(1)] obtain L where "net_ok (statics s0) L s" unfolding srv_inv_def by blast
  then have "int (length (libev_list s)) = SOCKET_ALLOC_MAX_CLIENT" by (simp add: net_ok_def max_fd)
  moreover have "\<not> SOCKET_ALLOC_MAX_CLIENT < 0" by (simp add: SOCKET_ALLOC_MAX_CLIENT_def)
  ultimately show ?thesis using assms(2,3) by (simp add: accept_func_cb_def Let_def)
qed

lemma accept_at_limit_faults_witness:
  "\<exists>s. server_run bump_malloc idle_server s \<and> accept_func_cb bump_malloc SOCKET_ALLOC_MAX_CLIENT 4 EV_READ s = Fault"
proof -
  from interrupted_server obtain s where s: "server_run bump_malloc idle_server s" by blast
  from run_inv(1) [OF s] obtain p q where pq: "ev_pool s = Some p"
    "pools_ok (statics idle_server) p q (conns s) (set (mq_elems (obd_mq s)) \<union> set (others s)) (sheap s)"
    by (auto simp: srv_inv_def msg_ok_def)
  from pools_malloc [OF pq(2) fresh_bump_malloc] obtain a h where "Malloc bump_malloc (ev_pool s) (sheap s) = Done (Some a, h)"
    unfolding pq(1) by (auto simp: malloc_bump)
  from accept_at_limit_faults [OF s _ this, of EV_READ 4] s show ?thesis by (auto simp: EV_ERROR_def EV_READ_def)
qed

text \<open>
  C22. A text that fills the buffer of 256 characters is lost: the terminating zero falls on \<open>data_length\<close>,
  which is then the length 256 in eight bits, that is 0, and \<open>read_func_cb\<close> releases the message
  without an answer.
\<close>

theorem full_buffer_is_dropped:
  assumes "length bs = BUF_SIZE" "0 \<notin> set bs" "EV_ERROR AND ev = 0" "OBD_init mal s = Done (a, s1)"
  shows "\<exists>ob. read_func_cb mal (Received bs) w ev s = OBD_release (Some a) (s1\<lparr>obds := (obds s1)(a := ob)\<rparr>)"
proof -
  from assms(4) obtain r h where r: "Malloc mal (obd_pool s) (sheap s) = Done (r, h)"
    by (auto simp only: OBD_init_def run_bind_Done_iff)
  obtain b where b: "r = Some b" using assms(4) unfolding OBD_init_def r by (cases r) simp_all
  have e: "a = b" "s1 = s\<lparr>sheap := h, obd_mq := list_init b (obd_mq s),
      obds := (obds s)(b := (obds s b)\<lparr>data_length := 0, data := replicate BUF_SIZE 0, hex := replicate BUF_SIZE 0\<rparr>)\<rparr>"
    using assms(4) by (auto simp: OBD_init_def r b)
  have s1: "obds s1 a = (obds s a)\<lparr>data_length := 0, data := replicate BUF_SIZE 0, hex := replicate BUF_SIZE 0\<rparr>"
    by (simp add: e)
  have ne: "length bs \<le> BUF_SIZE" "bs \<noteq> []" using assms(1) by (auto simp: BUF_SIZE_def)
  note rf = received_fields(1,2) [where old = "obds s a", OF ne refl, folded s1]
  have "takeWhile (\<lambda>c. c \<noteq> 0) bs = bs" using assms(2) by (auto simp: takeWhile_eq_all_conv)
  from arg_cong [OF this, of length] have l: "length (takeWhile (\<lambda>c. c \<noteq> 0) bs) = 256"
    using assms(1) by (simp add: BUF_SIZE_def)
  let ?ob = "(obds s1 a)\<lparr>data := bs @ replicate (BUF_SIZE - length bs) 0, data_length := of_nat 256\<rparr>"
  have "read_func_cb mal (Received bs) w ev s = run_bind (data_put (length bs) 0 ((obds s1 a)\<lparr>data := bs @ drop (length bs) (data (obds s1 a))\<rparr>))
      (\<lambda>ob. run_bind (run_of_option (strlen (obd_bytes ob))) (\<lambda>n.
         let ob = ob\<lparr>data_length := of_nat n\<rparr>; s2 = s1\<lparr>obds := (obds s1)(a := ob)\<rparr> in
         if data_length ob = 0 then OBD_release (Some a) s2
         else run_bind (OBD_get_cmd ob) (\<lambda>cmd.
           let s3 = s2\<lparr>obds := (obds s2)(a := ob\<lparr>obd_id := cmd\<rparr>), sent := sent s2 @ [(io_fd (wt s2 w), ''OK'')],
                       obd_mq := list_init a (obd_mq s2)\<rparr>
           in run_bind (mq_put a (obd_mq s3)) (\<lambda>q. Done (s3\<lparr>obd_mq := q\<rparr>)))))"
    unfolding read_func_cb_def assms(4) using assms(3) ne(2) by (cases bs) (simp_all only: run_bind.simps prod.case recv_result.case
      list.case refl if_False not_True_eq_False simp_thms Let_def)
  also have "\<dots> = OBD_release (Some a) (s1\<lparr>obds := (obds s1)(a := ?ob)\<rparr>)"
    unfolding rf(1) run_bind.simps rf(2) l run_of_option_simps Let_def by simp
  finally have "read_func_cb mal (Received bs) w ev s = OBD_release (Some a) (s1\<lparr>obds := (obds s1)(a := ?ob)\<rparr>)" .
  then show ?thesis by blast
qed

lemma full_buffer_is_dropped_witness:
  "\<exists>s a s1 ob. OBD_init bump_malloc s = Done (a, s1)
    \<and> read_func_cb bump_malloc (Received (replicate 256 65)) 9 EV_READ (s :: srv_sys) = OBD_release (Some a) (s1\<lparr>obds := (obds s1)(a := ob)\<rparr>)"
proof -
  let ?s = "idle_server\<lparr>obd_pool := Some 6\<rparr>"
  obtain a s1 where i: "OBD_init bump_malloc ?s = Done (a, s1)"
    by (simp add: OBD_init_def Malloc_def sys_malloc_def bump_malloc_def idle_server_def empty_heap_def)
  have h: "length (replicate 256 (65 :: u8_t)) = BUF_SIZE" "0 \<notin> set (replicate 256 (65 :: u8_t))" "EV_ERROR AND EV_READ = 0"
    by (simp_all add: BUF_SIZE_def EV_ERROR_def EV_READ_def)
  from full_buffer_is_dropped [OF h i, of 9] i show ?thesis by blast
qed

text \<open>
  C20. The shutdown with messages in the queue: \<open>mq_is_empty\<close> returns with the mutex locked, so the dispatcher
  waits for itself in \<open>mq_get\<close> and \<open>main\<close> waits for the dispatcher for ever.  With an empty queue the
  dispatcher ends at once.
\<close>

theorem shutdown_with_messages_blocks:
  assumes "mq_ok (obd_mq s)"
  shows "if mq_elems (obd_mq s) = [] then \<exists>s'. thread_func_cb (Suc n) rc (s\<lparr>mq_flag := True\<rparr>) = Done s'
    else main_shutdown rc workers env destroy (Suc n) m s = Blocked"
proof -
  have q: "mq_mutex (obd_mq s) = Unlocked" "ring (obd_mq s) (rev (mq_elems (obd_mq s)))" using assms by (simp_all add: mq_ok_def)
  have e: "prv (obd_mq s) (mq_list (obd_mq s)) = mq_list (obd_mq s) \<longleftrightarrow> mq_elems (obd_mq s) = []"
  proof (cases "mq_elems (obd_mq s)")
    case Nil
    then show ?thesis using q(2) by (simp add: ring_def)
  next
    case (Cons x xs)
    then show ?thesis using q(2) by (auto simp: ring_def seg_append)
  qed
  have "dispatch rc (s\<lparr>mq_flag := True\<rparr>) = (if mq_elems (obd_mq s) = [] then
      Done (True, s\<lparr>mq_flag := True, obd_mq := (obd_mq s)\<lparr>mq_mutex := Locked\<rparr>\<rparr>) else Blocked)"
    using e q(1) by (simp add: dispatch_def mq_is_empty_def mq_get_def mutex_lock_def Let_def)
  then show ?thesis by (simp add: main_shutdown_def Let_def)
qed

lemma shutdown_with_messages_blocks_witness:
  "\<exists>s :: srv_sys. mq_elems (obd_mq s) = [7] \<and> (\<forall>env. main_shutdown rc_ok id env (\<lambda>_. id) 2 0 s = Blocked)"
proof -
  have "mq_ok (mq_init (obd_mq idle_server)) \<and> mq_elems (mq_init (obd_mq idle_server)) = []"
    by (rule mq_init_ok) (simp add: idle_server_def)
  moreover from this have "mq_fits 7 (mq_init (obd_mq idle_server))"
    by (simp add: mq_fits_def) (simp add: mq_init_def mq_prims idle_server_def)
  ultimately obtain q where q: "mq_ok q" "mq_elems q = [7]" using mq_put_spec [of "mq_init (obd_mq idle_server)" 7] by auto
  let ?s = "idle_server\<lparr>obd_mq := q\<rparr>"
  have "mq_ok (obd_mq ?s)" using q(1) by simp
  from shutdown_with_messages_blocks [OF this, where n = 1 and rc = rc_ok and workers = id and destroy = "\<lambda>_. id" and m = 0] q(2)
  show ?thesis by (intro exI [of _ ?s]) (simp add: numeral_2_eq_2)
qed

end
